(* ===== verification/Xv6_Prelude.thy ===== *)
theory Xv6_Prelude
  imports Main "HOL-Library.Word"
begin

text \<open>
  The shared prelude of the development: the outcome type of kernel code, its
  sequencing operator and their rules, the machine-integer types, the constants
  of \<^verbatim>\<open>kernel/param.h\<close>, byte-addressed memory with its 64-bit loads and stores,
  and the generic lemmas on lists, words and folds that the components use.
\<close>

unbundle bit_operations_syntax

section \<open>Machine integers\<close>

text \<open>The typedefs of \<^verbatim>\<open>kernel/types.h\<close>; a plain C \<open>int\<close> is an \<^typ>\<open>int\<close>.\<close>

type_synonym u8 = "8 word"
type_synonym u16 = "16 word"
type_synonym u32 = "32 word"
type_synonym u64 = "64 word"

section \<open>Outcomes of kernel code\<close>

text \<open>
  A call returns (\<open>Ok\<close>), panics with the message the source gives to \<open>panic\<close>, or
  blocks: the caller spins on a lock another CPU holds or sleeps on a channel, and
  nothing the model of the call describes makes it return.
\<close>

datatype 'a res = Ok 'a | Panic string | Blocked

fun rbind :: "'a res \<Rightarrow> ('a \<Rightarrow> 'b res) \<Rightarrow> 'b res" where
  "rbind (Ok x) f = f x"
| "rbind (Panic e) f = Panic e"
| "rbind Blocked f = Blocked"

named_theorems res_simps \<open>equations that run a call on a state that meets its contract\<close>

lemma rbind_eq_Ok [simp]: "rbind r f = Ok y \<longleftrightarrow> (\<exists>x. r = Ok x \<and> f x = Ok y)"
  by (cases r) auto

lemma rbind_eq_Panic: "rbind r f = Panic e \<longleftrightarrow> r = Panic e \<or> (\<exists>x. r = Ok x \<and> f x = Panic e)"
  by (cases r) auto

lemma rbind_assoc: "rbind (rbind r f) g = rbind r (\<lambda>x. rbind (f x) g)"
  by (cases r) auto

lemma rbind_Ok_right [simp]: "rbind r Ok = r"
  by (cases r) auto

lemma rbind_cong [fundef_cong]:
  "r = r' \<Longrightarrow> (\<And>x. r' = Ok x \<Longrightarrow> f x = f' x) \<Longrightarrow> rbind r f = rbind r' f'"
  by (cases r') auto

lemma rbind_split:
  "P (rbind r f) \<longleftrightarrow>
     (\<forall>x. r = Ok x \<longrightarrow> P (f x)) \<and> (\<forall>e. r = Panic e \<longrightarrow> P (Panic e)) \<and> (r = Blocked \<longrightarrow> P Blocked)"
  by (cases r) auto

text \<open>A \<open>for\<close> loop over an array: the body runs on each index in turn and the first
  panic or block ends it.\<close>

fun rfold :: "('i \<Rightarrow> 's \<Rightarrow> 's res) \<Rightarrow> 'i list \<Rightarrow> 's \<Rightarrow> 's res" where
  "rfold f [] s = Ok s"
| "rfold f (i # is) s = rbind (f i s) (rfold f is)"

lemma rfold_append: "rfold f (xs @ ys) s = rbind (rfold f xs s) (rfold f ys)"
proof (induction xs arbitrary: s)
  case (Cons x xs)
  then show ?case by (cases "f x s") simp_all
qed simp

lemma rfold_pure:
  assumes "\<And>i s. P s \<Longrightarrow> i \<in> set is \<Longrightarrow> f i s = Ok (g i s) \<and> P (g i s)" and "P s"
  shows "rfold f is s = Ok (fold g is s) \<and> P (fold g is s)"
  using assms by (induction "is" arbitrary: s) auto

section \<open>Parameters of the kernel\<close>

text \<open>The constants of \<^verbatim>\<open>kernel/param.h\<close>.\<close>

definition NPROC :: nat where "NPROC = 64"
definition NCPU :: nat where "NCPU = 8"
definition NOFILE :: nat where "NOFILE = 16"
definition NFILE :: nat where "NFILE = 100"
definition NINODE :: nat where "NINODE = 50"
definition NDEV :: nat where "NDEV = 10"
definition ROOTDEV :: nat where "ROOTDEV = 1"
definition MAXARG :: nat where "MAXARG = 32"
definition MAXOPBLOCKS :: nat where "MAXOPBLOCKS = 10"
definition LOGBLOCKS :: nat where "LOGBLOCKS = MAXOPBLOCKS * 3"
definition NBUF :: nat where "NBUF = MAXOPBLOCKS * 3"
definition FSSIZE :: nat where "FSSIZE = 2000"
definition MAXPATH :: nat where "MAXPATH = 128"
definition USERSTACK :: nat where "USERSTACK = 1"

lemmas param_defs = NPROC_def NCPU_def NOFILE_def NFILE_def NINODE_def NDEV_def ROOTDEV_def
  MAXARG_def MAXOPBLOCKS_def LOGBLOCKS_def NBUF_def FSSIZE_def MAXPATH_def USERSTACK_def

section \<open>Words\<close>

lemma unat_less_64 [simp]: "unat (x :: u64) < 18446744073709551616"
  using unsigned_less [where 'a = nat, of x] by simp

lemma unat_less_32 [simp]: "unat (x :: u32) < 4294967296"
  using unsigned_less [where 'a = nat, of x] by simp

lemma unat_add_of_nat:
  "unat (a :: u64) + n < 2 ^ 64 \<Longrightarrow> unat (a + of_nat n) = unat a + n"
  by (simp add: unat_word_ariths unat_of_nat)

lemma unat_diff_self_of_nat:
  "n < 2 ^ 64 \<Longrightarrow> unat (a + of_nat n - a :: u64) = n"
  by (simp add: unat_of_nat)

lemma word_eq_add_of_nat_diff: "(x :: u64) = a + of_nat (unat (x - a))"
  by simp

section \<open>Byte-addressed memory\<close>

type_synonym mem = "u64 \<Rightarrow> u8"

text \<open>\<open>in_range a n x\<close>: address \<open>x\<close> is one of the \<open>n\<close> bytes at \<open>a\<close>.\<close>

definition in_range :: "u64 \<Rightarrow> nat \<Rightarrow> u64 \<Rightarrow> bool" where
  "in_range a n x \<longleftrightarrow> unat (x - a) < n"

text \<open>Little-endian loads and stores of a 64-bit word, as RISC-V \<open>ld\<close> and \<open>sd\<close>.\<close>

definition byte_of :: "u64 \<Rightarrow> nat \<Rightarrow> u8" where
  "byte_of v k = ucast (drop_bit (8 * k) v)"

definition load64 :: "mem \<Rightarrow> u64 \<Rightarrow> u64" where
  "load64 m a = word_of_int (horner_sum uint (2 ^ 8) (map (\<lambda>i. m (a + of_nat i)) [0..<8]))"

definition store64 :: "mem \<Rightarrow> u64 \<Rightarrow> u64 \<Rightarrow> mem" where
  "store64 m a v = (\<lambda>x. if unat (x - a) < 8 then byte_of v (unat (x - a)) else m x)"

lemma bit_load64:
  assumes "n < 64"
  shows "bit (load64 m a) n \<longleftrightarrow> bit (m (a + of_nat (n div 8))) (n mod 8)"
proof -
  have "bit (load64 m a) n \<longleftrightarrow>
      bit (horner_sum uint (2 ^ LENGTH(8)) (map (\<lambda>i. m (a + of_nat i)) [0..<8])) n"
    using assms by (simp add: load64_def bit_word_of_int_iff)
  also have "\<dots> \<longleftrightarrow> bit (m (a + of_nat (n div 8))) (n mod 8)"
  proof -
    have "n div 8 < 8" using assms by linarith
    then show ?thesis by (simp only: bit_horner_sum_uint_exp_iff) simp
  qed
  finally show ?thesis .
qed

lemma bit_byte_of: "n < 8 \<Longrightarrow> bit (byte_of v k) n \<longleftrightarrow> bit v (8 * k + n)"
  by (simp add: byte_of_def bit_ucast_iff bit_drop_bit_eq)

lemma load64_store64 [simp]: "load64 (store64 m a v) a = v"
proof (rule bit_word_eqI)
  fix n assume "n < LENGTH(64)"
  then have n: "n < 64" by simp
  then have "n div 8 < 8" by linarith
  then show "bit (load64 (store64 m a v) a) n = bit v n"
    by (simp add: bit_load64 n store64_def unat_of_nat bit_byte_of)
qed

lemma load64_cong:
  assumes "\<And>i. i < 8 \<Longrightarrow> m (a + of_nat i) = m' (a + of_nat i)"
  shows "load64 m a = load64 m' a"
proof (rule bit_word_eqI)
  fix n assume "n < LENGTH(64)"
  then have n: "n < 64" by simp
  then have "n div 8 < 8" by linarith
  then show "bit (load64 m a) n = bit (load64 m' a) n"
    using assms [of "n div 8"] by (simp add: bit_load64 n)
qed

lemma store64_other: "\<not> in_range a 8 x \<Longrightarrow> store64 m a v x = m x"
  by (simp add: store64_def in_range_def)

lemma load64_store64_other:
  assumes "\<And>i. i < 8 \<Longrightarrow> \<not> in_range b 8 (a + of_nat i)"
  shows "load64 (store64 m b v) a = load64 m a"
  by (rule load64_cong) (simp add: store64_other assms)

text \<open>Storing a list of bytes at an address, and reading one.\<close>

definition write_bytes :: "mem \<Rightarrow> u64 \<Rightarrow> u8 list \<Rightarrow> mem" where
  "write_bytes m a bs = (\<lambda>x. if unat (x - a) < length bs then bs ! unat (x - a) else m x)"

definition bytes_at :: "mem \<Rightarrow> u64 \<Rightarrow> nat \<Rightarrow> u8 list" where
  "bytes_at m a n = map (\<lambda>i. m (a + of_nat i)) [0..<n]"

lemma write_bytes_other: "\<not> in_range a (length bs) x \<Longrightarrow> write_bytes m a bs x = m x"
  by (simp add: write_bytes_def in_range_def)

lemma write_bytes_Nil [simp]: "write_bytes m a [] = m"
  by (simp add: write_bytes_def)

lemma length_bytes_at [simp]: "length (bytes_at m a n) = n"
  by (simp add: bytes_at_def)

lemma bytes_at_nth [simp]: "i < n \<Longrightarrow> bytes_at m a n ! i = m (a + of_nat i)"
  by (simp add: bytes_at_def)

lemma bytes_at_write_bytes [simp]:
  "length bs < 2 ^ 64 \<Longrightarrow> bytes_at (write_bytes m a bs) a (length bs) = bs"
  by (rule nth_equalityI) (simp_all add: write_bytes_def unat_of_nat)

end
