(* ===== verification/Cstring.thy ===== *)
theory Cstring
  imports Xv6_Prelude
begin

text \<open>
  The byte and string routines of \<^verbatim>\<open>kernel/string.c\<close> on byte-addressed memory. Each
  loop of the source is a recursive function on the remaining count; source and
  destination live in the same memory, so what a routine reads after it has written
  (overlapping ranges) is what the code reads. The lemmas give each routine's effect
  as a closed form: \<open>memmove\<close> for every overlap, the string routines for source
  and destination that do not overlap.
\<close>

section \<open>The routines\<close>

definition memset :: "mem \<Rightarrow> u64 \<Rightarrow> int \<Rightarrow> nat \<Rightarrow> mem" where
  "memset m dst c n = fold (\<lambda>i m. m(dst + of_nat i := word_of_int c)) [0..<n] m"

fun memcmp :: "mem \<Rightarrow> u64 \<Rightarrow> u64 \<Rightarrow> nat \<Rightarrow> int" where
  "memcmp m s1 s2 0 = 0"
| "memcmp m s1 s2 (Suc n) =
     (if m s1 \<noteq> m s2 then uint (m s1) - uint (m s2) else memcmp m (s1 + 1) (s2 + 1) n)"

text \<open>The two copy loops of \<open>memmove\<close>: \<open>*d++ = *s++\<close> and \<open>*--d = *--s\<close>.\<close>

fun copy_fwd :: "mem \<Rightarrow> u64 \<Rightarrow> u64 \<Rightarrow> nat \<Rightarrow> mem" where
  "copy_fwd m d s 0 = m"
| "copy_fwd m d s (Suc n) = copy_fwd (m(d := m s)) (d + 1) (s + 1) n"

fun copy_bwd :: "mem \<Rightarrow> u64 \<Rightarrow> u64 \<Rightarrow> nat \<Rightarrow> mem" where
  "copy_bwd m d s 0 = m"
| "copy_bwd m d s (Suc n) = copy_bwd (m(d - 1 := m (s - 1))) (d - 1) (s - 1) n"

definition memmove :: "mem \<Rightarrow> u64 \<Rightarrow> u64 \<Rightarrow> nat \<Rightarrow> mem" where
  "memmove m dst src n =
     (if n = 0 then m
      else if src < dst \<and> src + of_nat n > dst
      then copy_bwd m (dst + of_nat n) (src + of_nat n) n
      else copy_fwd m dst src n)"

definition memcpy :: "mem \<Rightarrow> u64 \<Rightarrow> u64 \<Rightarrow> nat \<Rightarrow> mem" where
  "memcpy m dst src n = memmove m dst src n"

fun strncmp :: "mem \<Rightarrow> u64 \<Rightarrow> u64 \<Rightarrow> nat \<Rightarrow> int" where
  "strncmp m p q 0 = 0"
| "strncmp m p q (Suc n) =
     (if m p \<noteq> 0 \<and> m p = m q then strncmp m (p + 1) (q + 1) n else uint (m p) - uint (m q))"

fun zero_fill :: "mem \<Rightarrow> u64 \<Rightarrow> nat \<Rightarrow> mem" where
  "zero_fill m s 0 = m"
| "zero_fill m s (Suc n) = zero_fill (m(s := 0)) (s + 1) n"

fun strncpy_loop :: "mem \<Rightarrow> u64 \<Rightarrow> u64 \<Rightarrow> nat \<Rightarrow> mem" where
  "strncpy_loop m s t 0 = m"
| "strncpy_loop m s t (Suc n) =
     (if m t \<noteq> 0 then strncpy_loop (m(s := m t)) (s + 1) (t + 1) n
      else zero_fill (m(s := m t)) (s + 1) n)"

definition strncpy :: "mem \<Rightarrow> u64 \<Rightarrow> u64 \<Rightarrow> int \<Rightarrow> mem" where
  "strncpy m s t n = strncpy_loop m s t (nat n)"

text \<open>\<open>safestrcpy_loop m s t k\<close> is the loop \<open>while(--n > 0 && (*s++ = *t++) != 0)\<close>
  followed by \<open>*s = 0\<close>, with \<open>k\<close> the value of \<open>n\<close> after the next decrement.\<close>

fun safestrcpy_loop :: "mem \<Rightarrow> u64 \<Rightarrow> u64 \<Rightarrow> nat \<Rightarrow> mem" where
  "safestrcpy_loop m s t 0 = m(s := 0)"
| "safestrcpy_loop m s t (Suc k) =
     (if m t \<noteq> 0 then safestrcpy_loop (m(s := m t)) (s + 1) (t + 1) k
      else m(s := m t, s + 1 := 0))"

definition safestrcpy :: "mem \<Rightarrow> u64 \<Rightarrow> u64 \<Rightarrow> int \<Rightarrow> mem" where
  "safestrcpy m s t n = (if n \<le> 0 then m else safestrcpy_loop m s t (nat (n - 1)))"

text \<open>\<open>strlen\<close> does not return when no NUL follows; then its value is \<open>None\<close>.\<close>

partial_function (option) strlen_loop :: "mem \<Rightarrow> u64 \<Rightarrow> nat \<Rightarrow> nat option" where
  "strlen_loop m s n = (if m (s + of_nat n) = 0 then Some n else strlen_loop m s (Suc n))"

definition strlen :: "mem \<Rightarrow> u64 \<Rightarrow> nat option" where
  "strlen m s = strlen_loop m s 0"

section \<open>Abstract views of memory\<close>

text \<open>\<open>cstr m s xs\<close>: the NUL-terminated string at \<open>s\<close> holds the bytes \<open>xs\<close>.\<close>

fun cstr :: "mem \<Rightarrow> u64 \<Rightarrow> u8 list \<Rightarrow> bool" where
  "cstr m s [] \<longleftrightarrow> m s = 0"
| "cstr m s (x # xs) \<longleftrightarrow> m s = x \<and> x \<noteq> 0 \<and> cstr m (s + 1) xs"

text \<open>\<open>apart s n t k\<close>: the \<open>n\<close> bytes at \<open>s\<close> and the \<open>k\<close> bytes at \<open>t\<close> are disjoint.\<close>

definition apart :: "u64 \<Rightarrow> nat \<Rightarrow> u64 \<Rightarrow> nat \<Rightarrow> bool" where
  "apart s n t k \<longleftrightarrow> (\<forall>i<n. \<forall>j<k. s + of_nat i \<noteq> t + of_nat j)"

lemma bytes_at_0 [simp]: "bytes_at m a 0 = []"
  by (simp add: bytes_at_def)

lemma bytes_at_Suc: "bytes_at m a (Suc n) = m a # bytes_at m (a + 1) n"
  by (simp add: bytes_at_def upt_conv_Cons map_Suc_upt [symmetric] comp_def algebra_simps
      del: upt_Suc)

lemma bytes_at_cong:
  "(\<And>i. i < n \<Longrightarrow> m (a + of_nat i) = m' (a + of_nat i)) \<Longrightarrow> bytes_at m a n = bytes_at m' a n"
  by (simp add: bytes_at_def)

lemma unat_diff_add1:
  "a \<noteq> d \<Longrightarrow> unat (a - d :: u64) = Suc (unat (a - (d + 1)))"
proof -
  assume "a \<noteq> d"
  then have "a - d \<noteq> 0" by simp
  then have "unat (a - d - 1) = unat (a - d) - 1" and "0 < unat (a - d)"
    by (simp_all add: unat_minus_one unat_gt_0)
  then show ?thesis by (simp add: algebra_simps)
qed

section \<open>Memory routines\<close>

lemma memset_eq:
  assumes "n \<le> 2 ^ 64"
  shows "memset m dst c n = (\<lambda>a. if in_range dst n a then word_of_int c else m a)"
  using assms
proof (induction n)
  case 0
  then show ?case by (simp add: memset_def in_range_def)
next
  case (Suc n)
  then have IH: "fold (\<lambda>i m. m(dst + of_nat i := word_of_int c)) [0..<n] m =
      (\<lambda>a. if in_range dst n a then word_of_int c else m a)"
    by (simp add: memset_def)
  have "a = dst + of_nat n \<longleftrightarrow> unat (a - dst) = n" for a
    using Suc.prems by (auto simp: unat_of_nat)
  then show ?case
    by (auto simp: memset_def IH in_range_def fun_eq_iff less_Suc_eq)
qed

lemma memcmp_eq_0_iff: "memcmp m s1 s2 n = 0 \<longleftrightarrow> bytes_at m s1 n = bytes_at m s2 n"
  by (induction m s1 s2 n rule: memcmp.induct) (auto simp: bytes_at_Suc word_uint_eq_iff)

lemma copy_fwd_eq:
  assumes "n \<le> 2 ^ 64" and "\<And>i j. j < i \<Longrightarrow> i < n \<Longrightarrow> s + of_nat i \<noteq> d + of_nat j"
  shows "copy_fwd m d s n = (\<lambda>a. if in_range d n a then m (s + (a - d)) else m a)"
  using assms
proof (induction n arbitrary: m d s)
  case 0
  then show ?case by (simp add: in_range_def)
next
  case (Suc n)
  let ?m = "m(d := m s)"
  have "s + 1 + of_nat i \<noteq> d + 1 + of_nat j" if "j < i" "i < n" for i j
    using Suc.prems(2) [of "Suc j" "Suc i"] that by (simp add: algebra_simps)
  then have IH: "copy_fwd ?m (d + 1) (s + 1) n =
      (\<lambda>a. if in_range (d + 1) n a then ?m (s + 1 + (a - (d + 1))) else ?m a)"
    using Suc.prems(1) by (intro Suc.IH) auto
  show ?case
  proof
    fix a
    show "copy_fwd m d s (Suc n) a = (if in_range d (Suc n) a then m (s + (a - d)) else m a)"
    proof (cases "a = d")
      case True
      have "unat (- 1 :: u64) = 2 ^ 64 - 1" by (simp add: unsigned_minus_1_eq_mask mask_eq_exp_minus_1)
      with True Suc.prems(1) show ?thesis by (simp add: IH in_range_def)
    next
      case False
      have "s + (a - d) \<noteq> d" if "unat (a - d) < Suc n"
        using Suc.prems(2) [of 0 "unat (a - d)"] that False by (simp add: unat_gt_0)
      moreover have "s + 1 + (a - (d + 1)) = s + (a - d)" by simp
      ultimately show ?thesis
        using False unat_diff_add1 [OF False]
        unfolding copy_fwd.simps IH in_range_def by auto
    qed
  qed
qed

lemma copy_bwd_eq:
  assumes "n \<le> 2 ^ 64" and "\<And>i j. i < j \<Longrightarrow> j < n \<Longrightarrow> s + of_nat i \<noteq> d + of_nat j"
  shows "copy_bwd m (d + of_nat n) (s + of_nat n) n =
    (\<lambda>a. if in_range d n a then m (s + (a - d)) else m a)"
  using assms
proof (induction n arbitrary: m)
  case 0
  then show ?case by (simp add: in_range_def)
next
  case (Suc n)
  let ?m = "m(d + of_nat n := m (s + of_nat n))"
  have IH: "copy_bwd ?m (d + of_nat n) (s + of_nat n) n =
      (\<lambda>a. if in_range d n a then ?m (s + (a - d)) else ?m a)"
    using Suc.prems by (intro Suc.IH) auto
  have step: "copy_bwd m (d + of_nat (Suc n)) (s + of_nat (Suc n)) (Suc n) =
      copy_bwd ?m (d + of_nat n) (s + of_nat n) n"
    by (simp add: algebra_simps)
  have eq: "a = d + of_nat n \<longleftrightarrow> unat (a - d) = n" for a
    using Suc.prems(1) by (auto simp: unat_of_nat)
  have ne: "s + (a - d) \<noteq> d + of_nat n" if "unat (a - d) < n" for a
    using Suc.prems(2) [of "unat (a - d)" n] that by simp
  show ?case
    unfolding step IH using eq ne by (auto simp: in_range_def fun_eq_iff less_Suc_eq)
qed

lemma memmove_eq:
  assumes "unat src + n \<le> 2 ^ 64" and "unat dst + n \<le> 2 ^ 64"
  shows "memmove m dst src n = (\<lambda>a. if in_range dst n a then m (src + (a - dst)) else m a)"
proof (cases "n = 0")
  case True
  then show ?thesis by (simp add: memmove_def in_range_def)
next
  case n: False
  have src: "unat (src + of_nat i) = unat src + i" and dst: "unat (dst + of_nat i) = unat dst + i"
    if "i < n" for i
    using assms that by (simp_all add: unat_add_of_nat)
  show ?thesis
  proof (cases "src < dst \<and> src + of_nat n > dst")
    case True
    then have lt: "unat src < unat dst" by (simp add: word_less_nat_alt)
    have "src + of_nat i \<noteq> dst + of_nat j" if "i < j" "j < n" for i j
    proof
      assume "src + of_nat i = dst + of_nat j"
      then have "unat src + i = unat dst + j" using src [of i] dst [of j] that by simp
      with lt that show False by linarith
    qed
    then show ?thesis
      using True n assms copy_bwd_eq [of n src dst m] by (simp add: memmove_def)
  next
    case False
    have "unat dst \<le> unat src \<or> unat src + n \<le> unat dst"
    proof (cases "unat src + n = 2 ^ 64")
      case True
      with assms(2) show ?thesis by linarith
    next
      case ne: False
      then have "unat (src + of_nat n) = unat src + n"
        using assms(1) by (intro unat_add_of_nat) linarith
      then show ?thesis using False by (auto simp: word_less_nat_alt)
    qed
    note le = this
    have "src + of_nat i \<noteq> dst + of_nat j" if "j < i" "i < n" for i j
    proof
      assume "src + of_nat i = dst + of_nat j"
      then have "unat src + i = unat dst + j" using src [of i] dst [of j] that by simp
      with le that show False by linarith
    qed
    then show ?thesis
      using False n assms copy_fwd_eq [of n src dst m] by (auto simp: memmove_def)
  qed
qed

section \<open>String routines\<close>

lemma strlen_loop_cstr:
  "cstr m (s + of_nat k) xs \<Longrightarrow> strlen_loop m s k = Some (k + length xs)"
proof (induction xs arbitrary: k)
  case Nil
  then show ?case by (simp add: strlen_loop.simps)
next
  case (Cons x xs)
  then have "cstr m (s + of_nat (Suc k)) xs" by (simp add: algebra_simps)
  then have "strlen_loop m s (Suc k) = Some (Suc k + length xs)" by (rule Cons.IH)
  with Cons.prems show ?case by (simp add: strlen_loop.simps [of m s k])
qed

lemma strlen_cstr: "cstr m s xs \<Longrightarrow> strlen m s = Some (length xs)"
  using strlen_loop_cstr [of m s 0 xs] by (simp add: strlen_def)

lemma cstr_nonzero: "cstr m s xs \<Longrightarrow> 0 \<notin> set xs"
  by (induction m s xs rule: cstr.induct) auto

lemma cstr_unique: "cstr m s xs \<Longrightarrow> cstr m s ys \<Longrightarrow> xs = ys"
proof (induction xs arbitrary: s ys)
  case Nil
  then show ?case by (cases ys) auto
next
  case (Cons x xs)
  then show ?case by (cases ys) auto
qed

lemma strncmp_eq_0_iff:
  "cstr m p xs \<Longrightarrow> cstr m q ys \<Longrightarrow> strncmp m p q n = 0 \<longleftrightarrow> take n xs = take n ys"
proof (induction m p q n arbitrary: xs ys rule: strncmp.induct)
  case (2 m p q n)
  then show ?case
    by (cases xs; cases ys) (auto simp: word_uint_eq_iff)
qed simp

lemma apartD: "apart s n t k \<Longrightarrow> i < n \<Longrightarrow> j < k \<Longrightarrow> s + of_nat i \<noteq> t + of_nat j"
  by (simp add: apart_def)

lemma apart_Suc:
  assumes "apart s (Suc n) t (Suc k)"
  shows "apart (s + 1) n (t + 1) k" and "j \<le> k \<Longrightarrow> s \<noteq> t + of_nat j"
proof -
  show "apart (s + 1) n (t + 1) k"
    unfolding apart_def
  proof (intro allI impI)
    fix i j assume "i < n" "j < k"
    then show "s + 1 + of_nat i \<noteq> t + 1 + of_nat j"
      using apartD [OF assms, of "Suc i" "Suc j"] by (simp add: algebra_simps)
  qed
  show "s \<noteq> t + of_nat j" if "j \<le> k"
    using apartD [OF assms, of 0 j] that by simp
qed

lemma cstr_upd:
  "(\<forall>j\<le>length xs. a \<noteq> s + of_nat j) \<Longrightarrow> cstr (m(a := v)) s xs = cstr m s xs"
proof (induction xs arbitrary: s)
  case (Cons x xs)
  have "a \<noteq> s + 1 + of_nat j" if "j \<le> length xs" for j
    using Cons.prems [rule_format, of "Suc j"] that by (simp add: algebra_simps)
  moreover have "a \<noteq> s" using Cons.prems [rule_format, of 0] by simp
  ultimately show ?case using Cons.IH [of "s + 1"] by simp
qed auto

lemma in_range_Suc:
  assumes "n < 2 ^ 64"
  shows "in_range s (Suc n) a \<longleftrightarrow> a = s \<or> in_range (s + 1) n a"
    and "\<not> in_range (s + 1) n s"
proof -
  have "unat (- 1 :: u64) = 2 ^ 64 - 1" by (simp add: unsigned_minus_1_eq_mask mask_eq_exp_minus_1)
  then show "\<not> in_range (s + 1) n s" using assms by (simp add: in_range_def)
  then show "in_range s (Suc n) a \<longleftrightarrow> a = s \<or> in_range (s + 1) n a"
    using unat_diff_add1 [of a s] by (cases "a = s") (auto simp: in_range_def)
qed

lemma zero_fill_frame: "n \<le> 2 ^ 64 \<Longrightarrow> \<not> in_range s n a \<Longrightarrow> zero_fill m s n a = m a"
  by (induction m s n rule: zero_fill.induct) (auto simp: in_range_Suc)

lemma zero_fill_bytes: "n \<le> 2 ^ 64 \<Longrightarrow> bytes_at (zero_fill m s n) s n = replicate n 0"
  by (induction m s n rule: zero_fill.induct)
     (auto simp: bytes_at_Suc zero_fill_frame in_range_Suc)

lemma strncpy_loop_frame:
  "n \<le> 2 ^ 64 \<Longrightarrow> \<not> in_range s n a \<Longrightarrow> strncpy_loop m s t n a = m a"
  by (induction m s t n rule: strncpy_loop.induct)
     (auto simp: in_range_Suc zero_fill_frame)

lemma strncpy_loop_bytes:
  assumes "cstr m t xs" and "apart s n t (Suc (length xs))" and "n \<le> 2 ^ 64"
  shows "bytes_at (strncpy_loop m s t n) s n = take n (xs @ replicate n 0)"
  using assms
proof (induction n arbitrary: m s t xs)
  case (Suc n)
  let ?m = "m(s := m t)"
  show ?case
  proof (cases xs)
    case Nil
    with Suc.prems show ?thesis
      by (simp add: bytes_at_Suc zero_fill_frame zero_fill_bytes in_range_Suc)
  next
    case (Cons y ys)
    note ap = apart_Suc [OF Suc.prems(2)]
    have "s \<noteq> t + 1 + of_nat j" if "j \<le> length ys" for j
      using ap(2) [of "Suc j"] that Cons by (simp add: algebra_simps)
    then have "cstr ?m (t + 1) ys" using Suc.prems(1) Cons by (simp add: cstr_upd)
    then have "bytes_at (strncpy_loop ?m (s + 1) (t + 1) n) (s + 1) n = take n (ys @ replicate n 0)"
      using Suc.prems Cons ap(1) by (intro Suc.IH) (simp_all del: fun_upd_apply)
    moreover have "strncpy_loop ?m (s + 1) (t + 1) n s = y"
      using Suc.prems Cons by (simp add: strncpy_loop_frame in_range_Suc)
    moreover have "take n (ys @ replicate (Suc n) 0) = take n (ys @ replicate n 0)"
      by (simp del: replicate_Suc)
    ultimately show ?thesis using Suc.prems(1) Cons by (simp add: bytes_at_Suc)
  qed
qed simp

lemma safestrcpy_loop_frame:
  "k < 2 ^ 64 \<Longrightarrow> \<not> in_range s (Suc k) a \<Longrightarrow> safestrcpy_loop m s t k a = m a"
proof (induction k arbitrary: m s t)
  case 0
  then show ?case by (auto simp: in_range_def)
next
  case (Suc k)
  have ne: "a \<noteq> s" "\<not> in_range (s + 1) (Suc k) a"
    using Suc.prems in_range_Suc(1) [of "Suc k" s a] by simp_all
  then have "a \<noteq> s + 1" by (auto simp: in_range_def)
  moreover have "safestrcpy_loop (m(s := m t)) (s + 1) (t + 1) k a = m a" if "m t \<noteq> 0"
    using Suc.IH [of "s + 1" "m(s := m t)" "t + 1"] Suc.prems(1) ne
    by (simp del: fun_upd_apply) simp
  ultimately show ?case using ne by simp
qed

lemma safestrcpy_loop_cstr:
  assumes "cstr m t xs" and "apart s (Suc k) t (Suc (length xs))" and "k < 2 ^ 64"
  shows "cstr (safestrcpy_loop m s t k) s (take k xs)"
  using assms
proof (induction k arbitrary: m s t xs)
  case (Suc k)
  let ?m = "m(s := m t)"
  show ?case
  proof (cases xs)
    case Nil
    with Suc.prems show ?thesis by simp
  next
    case (Cons y ys)
    note ap = apart_Suc [OF Suc.prems(2)]
    have "s \<noteq> t + 1 + of_nat j" if "j \<le> length ys" for j
      using ap(2) [of "Suc j"] that Cons by (simp add: algebra_simps)
    then have "cstr ?m (t + 1) ys" using Suc.prems(1) Cons by (simp add: cstr_upd)
    then have "cstr (safestrcpy_loop ?m (s + 1) (t + 1) k) (s + 1) (take k ys)"
      using Suc.prems Cons ap(1) by (intro Suc.IH) (simp_all del: fun_upd_apply)
    moreover have "safestrcpy_loop ?m (s + 1) (t + 1) k s = y"
      using Suc.prems Cons in_range_Suc(2) [of "Suc k" s]
      by (simp add: safestrcpy_loop_frame)
    ultimately show ?thesis using Suc.prems(1) Cons by simp
  qed
qed simp

section \<open>Copying\<close>

text \<open>C32. Both loops of \<open>memmove\<close> give the result of copying from a snapshot of memory, however the two regions
  overlap: every destination byte is the byte the source had before the call, and no other byte changes.
  \<open>memcpy\<close> is the same function.\<close>

theorem memmove_snapshot:
  assumes "unat src + n \<le> 2 ^ 64" "unat dst + n \<le> 2 ^ 64"
  shows "bytes_at (memmove m dst src n) dst n = bytes_at m src n \<and> (\<forall>a. in_range dst n a \<or> memmove m dst src n a = m a) \<and>
    memcpy m dst src n = memmove m dst src n"
proof -
  have "in_range dst n (dst + of_nat i)" if "i < n" for i
    using that assms(2) unat_add_of_nat [of dst i] by (simp add: in_range_def unat_of_nat)
  then show ?thesis by (simp add: bytes_at_def memcpy_def memmove_eq [OF assms])
qed

theorem memmove_snapshot_witness:
  "bytes_at (memmove (\<lambda>a. ucast a) 101 100 3) 101 3 = [100, 101, 102] \<and> memmove (\<lambda>a. ucast a) 101 100 3 104 = 104"
proof -
  have s: "bytes_at (memmove ucast 101 100 3) 101 3 = bytes_at ucast 100 3"
    "\<forall>a. in_range 101 3 a \<or> memmove ucast 101 100 3 a = ucast a"
    using memmove_snapshot [of 100 3 101 ucast] by simp_all
  have "bytes_at (\<lambda>a. ucast a) 100 3 = [100, 101, 102 :: u8]" by (simp add: bytes_at_def numeral_3_eq_3)
  then show ?thesis using s(1) s(2) [rule_format, of 104] by (simp add: in_range_def)
qed

text \<open>C33. \<open>safestrcpy\<close> always leaves a NUL-terminated string: the source cut to \<open>n - 1\<close> bytes, whose \<open>strlen\<close> is then
  below \<open>n\<close>; it changes no byte outside the \<open>n\<close> bytes of its destination.\<close>

theorem safestrcpy_terminates:
  assumes "0 < n" "n \<le> 2 ^ 31" "cstr m t xs" "apart s (nat n) t (Suc (length xs))"
  shows "cstr (safestrcpy m s t n) s (take (nat n - 1) xs) \<and>
    strlen (safestrcpy m s t n) s = Some (min (nat n - 1) (length xs)) \<and>
    (\<forall>a. in_range s (nat n) a \<or> safestrcpy m s t n a = m a)"
proof -
  have k: "nat n = Suc (nat n - 1)" "nat n - 1 < 2 ^ 64" "nat (n - 1) = nat n - 1" using assms(1,2) by simp_all
  have e: "safestrcpy m s t n = safestrcpy_loop m s t (nat n - 1)" using assms(1) k(3) by (simp add: safestrcpy_def)
  have c: "cstr (safestrcpy m s t n) s (take (nat n - 1) xs)"
    unfolding e using assms(3,4) k by (intro safestrcpy_loop_cstr) simp_all
  then have "strlen (safestrcpy m s t n) s = Some (min (nat n - 1) (length xs))" by (simp add: strlen_cstr min.commute)
  moreover have "in_range s (nat n) a \<or> safestrcpy m s t n a = m a" for a
    unfolding e using safestrcpy_loop_frame [OF k(2), of s a m t] k(1) by auto
  ultimately show ?thesis using c by blast
qed

theorem safestrcpy_terminates_witness:
  "strlen (safestrcpy (\<lambda>a. if a < 205 then 97 else 0) 100 200 3) 100 = Some 2"
proof -
  have c: "cstr (\<lambda>a. if a < 205 then 97 else 0) 200 [97, 97, 97, 97, 97]" by simp
  have "apart 100 (nat 3) 200 (Suc (length [97, 97, 97, 97, 97 :: u8]))"
  proof (unfold apart_def, intro allI impI)
    fix i j :: nat assume ij: "i < nat 3" "j < Suc (length [97, 97, 97, 97, 97 :: u8])"
    have "unat (100 + of_nat i :: u64) = 100 + i" "unat (200 + of_nat j :: u64) = 200 + j"
      using unat_add_of_nat [of 100 i] unat_add_of_nat [of 200 j] ij by simp_all
    then have "unat (100 + of_nat i :: u64) \<noteq> unat (200 + of_nat j :: u64)" using ij(1) by simp
    then show "(100 :: u64) + of_nat i \<noteq> 200 + of_nat j" by metis
  qed
  from safestrcpy_terminates [OF _ _ c this] show ?thesis by simp
qed

end
