(* ===== verification/Spinlock.thy ===== *)
theory Spinlock
  imports Xv6_Prelude
begin

text \<open>
  Mutual exclusion locks, \<^verbatim>\<open>kernel/spinlock.c\<close>, with the per-CPU interrupt
  bookkeeping they rely on. The machine part of the kernel state holds the hart the
  code runs on (\<open>tp\<close>), each hart's interrupt-enable bit, the \<open>cpus\<close> array and every
  \<open>struct spinlock\<close> of the kernel, named by a \<open>lock\<close>. The first part models the
  routines as they run on one hart and shows that a matched \<open>acquire\<close>/\<open>release\<close> pair
  restores the interrupt state; the second is a step relation in which several harts
  run \<open>acquire\<close> and \<open>release\<close> concurrently, one atomic memory access per step, and shows
  mutual exclusion.
\<close>

section \<open>State\<close>

text \<open>The spin locks of the kernel: the global ones and the families of per-object ones.\<close>

datatype lock =
  KmemLock | PidLock | WaitLock | ProcLock nat | BcacheLock | LogLock | ItableLock | FtableLock
  | PipeLock u64 | ConsLock | TxLock | PrLock | VdiskLock | TicksLock | BufLk nat | InodeLk nat

record spinlock =
  locked :: bool
  lk_name :: string
  lk_cpu :: "nat option"

record cpu =
  cpu_proc :: "nat option"
  noff :: int
  intena :: bool

record machine =
  tp :: nat
  sie :: "nat \<Rightarrow> bool"
  cpus :: "nat \<Rightarrow> cpu"
  locks :: "lock \<Rightarrow> spinlock"

section \<open>Interrupt state of the current hart\<close>

definition cpuid :: "machine \<Rightarrow> nat" where
  "cpuid m = tp m"

definition mycpu :: "machine \<Rightarrow> cpu" where
  "mycpu m = cpus m (cpuid m)"

definition intr_on :: "machine \<Rightarrow> machine" where
  "intr_on m = m\<lparr>sie := (sie m)(tp m := True)\<rparr>"

definition intr_off :: "machine \<Rightarrow> machine" where
  "intr_off m = m\<lparr>sie := (sie m)(tp m := False)\<rparr>"

definition intr_get :: "machine \<Rightarrow> bool" where
  "intr_get m = sie m (tp m)"

definition upd_cpu :: "(cpu \<Rightarrow> cpu) \<Rightarrow> machine \<Rightarrow> machine" where
  "upd_cpu f m = m\<lparr>cpus := (cpus m)(tp m := f (cpus m (tp m)))\<rparr>"

definition push_off :: "machine \<Rightarrow> machine" where
  "push_off m =
     (let old = intr_get m;
          m1 = intr_off m;
          m2 = (if noff (mycpu m1) = 0 then upd_cpu (\<lambda>c. c\<lparr>intena := old\<rparr>) m1 else m1)
      in upd_cpu (\<lambda>c. c\<lparr>noff := noff c + 1\<rparr>) m2)"

definition pop_off :: "machine \<Rightarrow> machine res" where
  "pop_off m =
     (if intr_get m then Panic ''pop_off - interruptible''
      else if noff (mycpu m) < 1 then Panic ''pop_off''
      else let m1 = upd_cpu (\<lambda>c. c\<lparr>noff := noff c - 1\<rparr>) m
           in Ok (if noff (mycpu m1) = 0 \<and> intena (mycpu m1) then intr_on m1 else m1))"

section \<open>Locks\<close>

definition upd_lock :: "lock \<Rightarrow> (spinlock \<Rightarrow> spinlock) \<Rightarrow> machine \<Rightarrow> machine" where
  "upd_lock lk f m = m\<lparr>locks := (locks m)(lk := f (locks m lk))\<rparr>"

definition initlock :: "lock \<Rightarrow> string \<Rightarrow> machine \<Rightarrow> machine" where
  "initlock lk name = upd_lock lk (\<lambda>_. \<lparr>locked = False, lk_name = name, lk_cpu = None\<rparr>)"

definition holding :: "lock \<Rightarrow> machine \<Rightarrow> bool" where
  "holding lk m \<longleftrightarrow> locked (locks m lk) \<and> lk_cpu (locks m lk) = Some (cpuid m)"

text \<open>On one hart, the spin of \<open>acquire\<close> on a lock that another hart holds does not end:
  the outcome is \<open>Blocked\<close>. What happens when the other hart releases the lock is the
  subject of the step relation below.\<close>

definition acquire :: "lock \<Rightarrow> machine \<Rightarrow> machine res" where
  "acquire lk m =
     (let m1 = push_off m
      in if holding lk m1 then Panic ''acquire''
         else if locked (locks m1 lk) then Blocked
         else Ok (upd_lock lk (\<lambda>l. l\<lparr>locked := True, lk_cpu := Some (cpuid m1)\<rparr>) m1))"

definition release :: "lock \<Rightarrow> machine \<Rightarrow> machine res" where
  "release lk m =
     (if \<not> holding lk m then Panic ''release''
      else pop_off (upd_lock lk (\<lambda>l. l\<lparr>lk_cpu := None, locked := False\<rparr>) m))"

lemmas machine_defs = cpuid_def mycpu_def intr_on_def intr_off_def intr_get_def upd_cpu_def
  upd_lock_def holding_def

section \<open>Running a critical section\<close>

text \<open>
  \<open>mach_ok\<close> is what \<open>push_off\<close>/\<open>pop_off\<close> keep true of the current hart: the nesting
  depth is not negative, and interrupts are off while it is positive. \<open>sync m\<close> is the
  state that a matched pair leaves: it differs from \<open>m\<close> at most in the saved
  \<open>intena\<close> bit, and only at depth 0, where the next \<open>push_off\<close> overwrites that bit.
\<close>

definition mach_ok :: "machine \<Rightarrow> bool" where
  "mach_ok m \<longleftrightarrow> 0 \<le> noff (mycpu m) \<and> (0 < noff (mycpu m) \<longrightarrow> \<not> intr_get m)"

definition lock_free :: "lock \<Rightarrow> machine \<Rightarrow> bool" where
  "lock_free lk m \<longleftrightarrow> \<not> locked (locks m lk) \<and> lk_cpu (locks m lk) = None"

definition sync :: "machine \<Rightarrow> machine" where
  "sync m = (if noff (mycpu m) = 0 then upd_cpu (\<lambda>c. c\<lparr>intena := intr_get m\<rparr>) m else m)"

text \<open>\<open>lockd lk m\<close>: the state in which \<open>acquire lk\<close> returns.\<close>

definition lockd :: "lock \<Rightarrow> machine \<Rightarrow> machine" where
  "lockd lk m = upd_lock lk (\<lambda>l. l\<lparr>locked := True, lk_cpu := Some (cpuid m)\<rparr>) (push_off m)"

lemma locks_push_off [simp]: "locks (push_off m) = locks m"
  by (simp add: push_off_def machine_defs Let_def)

lemma tp_push_off [simp]: "tp (push_off m) = tp m"
  by (simp add: push_off_def machine_defs Let_def)

lemma tp_sync [simp]: "tp (sync m) = tp m"
  by (simp add: sync_def upd_cpu_def)

lemma locks_sync [simp]: "locks (sync m) = locks m"
  by (simp add: sync_def upd_cpu_def)

lemma tp_lockd [simp]: "tp (lockd lk m) = tp m"
  by (simp add: lockd_def upd_lock_def)

lemma locks_lockd [simp]:
  "locks (lockd lk m) = (locks m)(lk := (locks m lk)\<lparr>locked := True, lk_cpu := Some (tp m)\<rparr>)"
  by (simp add: lockd_def upd_lock_def cpuid_def)

lemma cpu_proc_sync [simp]: "cpu_proc (cpus (sync m) c) = cpu_proc (cpus m c)"
  by (simp add: sync_def upd_cpu_def)

lemma cpu_proc_lockd [simp]: "cpu_proc (cpus (lockd lk m) c) = cpu_proc (cpus m c)"
  by (simp add: lockd_def push_off_def machine_defs Let_def)

lemma mach_ok_sync [simp]: "mach_ok (sync m) = mach_ok m"
  by (simp add: sync_def mach_ok_def machine_defs)

lemma mach_ok_lockd [simp]: "mach_ok m \<Longrightarrow> mach_ok (lockd lk m)"
  by (simp add: lockd_def push_off_def mach_ok_def machine_defs Let_def)

lemma sync_sync [simp]: "sync (sync m) = sync m"
  by (simp add: sync_def machine_defs)

lemma sync_lockd [simp]: "mach_ok m \<Longrightarrow> sync (lockd lk m) = lockd lk m"
  by (simp add: sync_def lockd_def push_off_def mach_ok_def machine_defs Let_def)

lemma lockd_sync [simp]: "lockd lk (sync m) = lockd lk m"
  by (simp add: sync_def lockd_def push_off_def machine_defs Let_def)

lemma lock_free_sync [simp]: "lock_free lk (sync m) = lock_free lk m"
  by (simp add: lock_free_def)

lemma lock_free_lockd [simp]: "lk \<noteq> lk' \<Longrightarrow> lock_free lk (lockd lk' m) = lock_free lk m"
  by (simp add: lock_free_def)

lemma holding_lockd [simp]: "holding lk (lockd lk m)"
  by (simp add: holding_def cpuid_def)

lemma acquire_free [res_simps]: "lock_free lk m \<Longrightarrow> acquire lk m = Ok (lockd lk m)"
  by (simp add: acquire_def lock_free_def lockd_def holding_def cpuid_def Let_def)

lemma acquire_held: "holding lk m \<Longrightarrow> acquire lk m = Panic ''acquire''"
  by (simp add: acquire_def holding_def cpuid_def Let_def)

lemma release_not_held: "\<not> holding lk m \<Longrightarrow> release lk m = Panic ''release''"
  by (simp add: release_def)

lemma machine_eqI:
  "tp m = tp m' \<Longrightarrow> sie m = sie m' \<Longrightarrow> cpus m = cpus m' \<Longrightarrow> locks m = locks m' \<Longrightarrow> m = (m' :: machine)"
  by simp

lemma lock_free_eq: "lock_free lk m \<Longrightarrow> (locks m lk)\<lparr>lk_cpu := None, locked := False\<rparr> = locks m lk"
  by (simp add: lock_free_def)

lemma release_lockd [res_simps]:
  assumes "mach_ok m" and "lock_free lk m"
  shows "release lk (lockd lk m) = Ok (sync m)"
  using assms(1) lock_free_eq [OF assms(2)]
  by (auto simp: release_def pop_off_def lockd_def push_off_def sync_def mach_ok_def
      machine_defs Let_def fun_eq_iff intro!: machine_eqI)

text \<open>Locks need not be released in the order opposite to acquisition; \<open>sleep\<close> is such a case.\<close>

lemma release_lockd_swap [res_simps]:
  assumes "mach_ok m" and "lock_free lk m" and "lk \<noteq> lk'"
  shows "release lk (lockd lk' (lockd lk m)) = Ok (lockd lk' m)"
  using assms(1,3) lock_free_eq [OF assms(2)]
  by (auto simp: release_def pop_off_def lockd_def push_off_def mach_ok_def
      machine_defs Let_def fun_eq_iff intro!: machine_eqI)

text \<open>\<open>pops n\<close>: \<open>n\<close> calls of \<open>pop_off\<close> in a row.\<close>

fun pops :: "nat \<Rightarrow> machine \<Rightarrow> machine res" where
  "pops 0 m = Ok m"
| "pops (Suc n) m = rbind (pop_off m) (pops n)"

lemma mach_ok_push_off [simp]: "mach_ok m \<Longrightarrow> mach_ok (push_off m)"
  by (simp add: push_off_def mach_ok_def machine_defs Let_def)

lemma mach_ok_push_offs: "mach_ok m \<Longrightarrow> mach_ok ((push_off ^^ n) m)"
  by (induction n) simp_all

lemma sync_push_off [simp]: "mach_ok m \<Longrightarrow> sync (push_off m) = push_off m"
  by (simp add: sync_def push_off_def mach_ok_def machine_defs Let_def)

lemma pop_off_push_off: "mach_ok m \<Longrightarrow> pop_off (push_off m) = Ok (sync m)"
  by (auto simp: pop_off_def push_off_def sync_def mach_ok_def machine_defs Let_def fun_eq_iff
      intro!: machine_eqI)

lemma pops_push_offs:
  "mach_ok m \<Longrightarrow> pops (Suc n) ((push_off ^^ Suc n) m) = Ok (sync m)"
proof (induction n)
  case 0
  then show ?case by (simp add: pop_off_push_off)
next
  case (Suc n)
  have "sync ((push_off ^^ Suc n) m) = (push_off ^^ Suc n) m"
    using Suc.prems mach_ok_push_offs [of m n] by simp
  then have "pops (Suc (Suc n)) ((push_off ^^ Suc (Suc n)) m) = pops (Suc n) ((push_off ^^ Suc n) m)"
    using Suc.prems mach_ok_push_offs [of m "Suc n"] pop_off_push_off [of "(push_off ^^ Suc n) m"]
    by simp
  with Suc show ?case by simp
qed

lemma intr_get_push_off [simp]: "\<not> intr_get (push_off m)"
  by (simp add: push_off_def machine_defs Let_def)

section \<open>Several harts\<close>

text \<open>
  Where a hart is in the lock routines: in other kernel code, in the test-and-set loop
  of \<open>acquire\<close>, between the successful \<open>amoswap\<close> and the write of \<open>lk->cpu\<close>, or in
  \<open>release\<close> between the write of \<open>lk->cpu\<close> and the store to \<open>lk->locked\<close>. \<open>held c\<close> is
  the set of locks whose critical section hart \<open>c\<close> is in.
\<close>

datatype pc = Kernel | Spin lock | Got lock | Rel lock

record smp =
  mch :: machine
  pcs :: "nat \<Rightarrow> pc"
  held :: "nat \<Rightarrow> lock set"

abbreviation on_hart :: "nat \<Rightarrow> machine \<Rightarrow> machine" where
  "on_hart c m \<equiv> m\<lparr>tp := c\<rparr>"

inductive lock_step :: "smp \<Rightarrow> smp \<Rightarrow> bool" where
  acq_enter: "pcs s c = Kernel \<Longrightarrow> m1 = push_off (on_hart c (mch s)) \<Longrightarrow> \<not> holding lk m1 \<Longrightarrow>
    lock_step s (s\<lparr>mch := m1, pcs := (pcs s)(c := Spin lk)\<rparr>)"
| acq_spin: "pcs s c = Spin lk \<Longrightarrow> locked (locks (mch s) lk) \<Longrightarrow> lock_step s s"
| acq_swap: "pcs s c = Spin lk \<Longrightarrow> \<not> locked (locks (mch s) lk) \<Longrightarrow>
    lock_step s (s\<lparr>mch := upd_lock lk (\<lambda>l. l\<lparr>locked := True\<rparr>) (on_hart c (mch s)),
      pcs := (pcs s)(c := Got lk)\<rparr>)"
| acq_exit: "pcs s c = Got lk \<Longrightarrow>
    lock_step s (s\<lparr>mch := upd_lock lk (\<lambda>l. l\<lparr>lk_cpu := Some c\<rparr>) (on_hart c (mch s)),
      pcs := (pcs s)(c := Kernel), held := (held s)(c := insert lk (held s c))\<rparr>)"
| rel_enter: "pcs s c = Kernel \<Longrightarrow> holding lk (on_hart c (mch s)) \<Longrightarrow>
    lock_step s (s\<lparr>mch := upd_lock lk (\<lambda>l. l\<lparr>lk_cpu := None\<rparr>) (on_hart c (mch s)),
      pcs := (pcs s)(c := Rel lk)\<rparr>)"
| rel_exit: "pcs s c = Rel lk \<Longrightarrow>
    pop_off (upd_lock lk (\<lambda>l. l\<lparr>locked := False\<rparr>) (on_hart c (mch s))) = Ok m1 \<Longrightarrow>
    lock_step s (s\<lparr>mch := m1, pcs := (pcs s)(c := Kernel), held := (held s)(c := held s c - {lk})\<rparr>)"
| intr_change: "pcs s c = Kernel \<Longrightarrow> noff (cpus (mch s) c) = 0 \<Longrightarrow>
    lock_step s (s\<lparr>mch := (mch s)\<lparr>sie := (sie (mch s))(c := b)\<rparr>\<rparr>)"

text \<open>At boot no lock is held, every hart runs with depth 0.\<close>

definition boot :: "smp \<Rightarrow> bool" where
  "boot s \<longleftrightarrow> (\<forall>c. pcs s c = Kernel \<and> held s c = {} \<and> noff (cpus (mch s) c) = 0) \<and>
    (\<forall>lk. lock_free lk (mch s))"

inductive lock_reach :: "smp \<Rightarrow> bool" where
  init: "boot s \<Longrightarrow> lock_reach s"
| step: "lock_reach s \<Longrightarrow> lock_step s t \<Longrightarrow> lock_reach t"

definition owns :: "smp \<Rightarrow> nat \<Rightarrow> lock \<Rightarrow> bool" where
  "owns s c lk \<longleftrightarrow> lk \<in> held s c \<or> pcs s c = Got lk"

definition depth :: "smp \<Rightarrow> nat \<Rightarrow> int" where
  "depth s c = int (card (held s c)) +
     (case pcs s c of Spin _ \<Rightarrow> 1 | Got _ \<Rightarrow> 1 | _ \<Rightarrow> 0)"

text \<open>
  The invariant, in three parts: a lock's \<open>locked\<close> word says whether some hart owns it and
  at most one does; \<open>lk->cpu\<close> names the hart in the critical section; the nesting depth
  counts the locks a hart has or waits for, and interrupts are off while it is positive.
\<close>

definition inv_own :: "smp \<Rightarrow> bool" where
  "inv_own s \<longleftrightarrow> (\<forall>lk. locked (locks (mch s) lk) \<longleftrightarrow> (\<exists>c. owns s c lk)) \<and>
     (\<forall>lk c c'. owns s c lk \<longrightarrow> owns s c' lk \<longrightarrow> c = c')"

definition inv_cpu :: "smp \<Rightarrow> bool" where
  "inv_cpu s \<longleftrightarrow>
     (\<forall>lk c. lk_cpu (locks (mch s) lk) = Some c \<longleftrightarrow> lk \<in> held s c \<and> pcs s c \<noteq> Rel lk) \<and>
     (\<forall>lk c. pcs s c = Rel lk \<longrightarrow> lk \<in> held s c) \<and>
     (\<forall>lk c. pcs s c = Got lk \<longrightarrow> lk \<notin> held s c) \<and>
     (\<forall>lk c. pcs s c = Spin lk \<longrightarrow> lk \<notin> held s c)"

definition inv_depth :: "smp \<Rightarrow> bool" where
  "inv_depth s \<longleftrightarrow> (\<forall>c. finite (held s c)) \<and>
     (\<forall>c. noff (cpus (mch s) c) = depth s c) \<and>
     (\<forall>c. 0 < noff (cpus (mch s) c) \<longrightarrow> \<not> sie (mch s) c)"

definition lock_inv :: "smp \<Rightarrow> bool" where
  "lock_inv s \<longleftrightarrow> inv_own s \<and> inv_cpu s \<and> inv_depth s"

lemma lock_inv_boot: "boot s \<Longrightarrow> lock_inv s"
  by (auto simp: boot_def lock_inv_def inv_own_def inv_cpu_def inv_depth_def lock_free_def
      owns_def depth_def)

lemma cpus_push_off:
  "cpus (push_off m) c =
     (if c = tp m
      then (cpus m c)\<lparr>noff := noff (cpus m c) + 1,
        intena := (if noff (cpus m c) = 0 then sie m c else intena (cpus m c))\<rparr>
      else cpus m c)"
  by (auto simp add: push_off_def machine_defs Let_def)

lemma sie_push_off: "sie (push_off m) = (sie m)(tp m := False)"
  by (simp add: push_off_def machine_defs Let_def)

lemma pop_off_Ok:
  assumes "pop_off m = Ok m'"
  shows "locks m' = locks m"
    and "noff (cpus m' c) = (if c = tp m then noff (cpus m c) - 1 else noff (cpus m c))"
    and "sie m' c = (if c = tp m \<and> noff (cpus m c) = 1 \<and> intena (cpus m c) then True else sie m c)"
  using assms by (auto simp: pop_off_def machine_defs Let_def split: if_splits)

lemma inv_own_locked: "inv_own s \<Longrightarrow> locked (locks (mch s) lk) \<longleftrightarrow> (\<exists>c. owns s c lk)"
  by (simp add: inv_own_def)
lemma inv_own_unique: "inv_own s \<Longrightarrow> owns s c lk \<Longrightarrow> owns s c' lk \<Longrightarrow> c = c'"
  by (auto simp add: inv_own_def)

lemma inv_own_gain:
  assumes "inv_own s" and "\<not> locked (locks (mch s) lk)"
    and "\<And>c' lk'. owns t c' lk' \<longleftrightarrow> owns s c' lk' \<or> c' = c \<and> lk' = lk"
    and "\<And>lk'. locked (locks (mch t) lk') \<longleftrightarrow> locked (locks (mch s) lk') \<or> lk' = lk"
  shows "inv_own t"
proof -
  have "\<not> owns s d lk" for d using assms(1,2) by (auto simp: inv_own_def)
  with assms show ?thesis by (auto simp: inv_own_def)
qed

lemma inv_own_lose:
  assumes "inv_own s" and "owns s c lk"
    and "\<And>c' lk'. owns t c' lk' \<longleftrightarrow> owns s c' lk' \<and> \<not> (c' = c \<and> lk' = lk)"
    and "\<And>lk'. locked (locks (mch t) lk') \<longleftrightarrow> locked (locks (mch s) lk') \<and> lk' \<noteq> lk"
  shows "inv_own t"
proof -
  have "owns s d lk \<Longrightarrow> d = c" for d using inv_own_unique [OF assms(1)] assms(2) by blast
  then have "(\<exists>d. owns t d l) \<longleftrightarrow> (\<exists>d. owns s d l) \<and> l \<noteq> lk" for l
    using assms(3) by blast
  moreover have "owns t d l \<Longrightarrow> owns t e l \<Longrightarrow> d = e" for d e l
    using inv_own_unique [OF assms(1)] assms(3) by blast
  ultimately show ?thesis
    using inv_own_locked [OF assms(1)] assms(4) by (simp add: inv_own_def)
qed

lemma inv_own_same:
  assumes "inv_own s" and "\<And>c' lk'. owns t c' lk' \<longleftrightarrow> owns s c' lk'"
    and "\<And>lk'. locked (locks (mch t) lk') \<longleftrightarrow> locked (locks (mch s) lk')"
  shows "inv_own t"
  using assms unfolding inv_own_def by simp

lemma step_own: "lock_step s t \<Longrightarrow> inv_own s \<Longrightarrow> inv_cpu s \<Longrightarrow> inv_own t"
proof (induction rule: lock_step.induct)
  case (acq_swap s c lk)
  from acq_swap(3,2) show ?case
    by (rule inv_own_gain [where c = c]) (use acq_swap in \<open>auto simp: owns_def upd_lock_def\<close>)
next
  case (acq_exit s c lk)
  from acq_exit(2) show ?case
    by (rule inv_own_same) (use acq_exit in \<open>auto simp: owns_def upd_lock_def\<close>)
next
  case (rel_enter s c lk)
  from rel_enter(3) show ?case
    by (rule inv_own_same) (use rel_enter in \<open>auto simp: owns_def upd_lock_def\<close>)
next
  case (rel_exit s c lk m1)
  have "owns s c lk" using rel_exit by (simp add: owns_def inv_cpu_def)
  from rel_exit(3) this show ?case
    by (rule inv_own_lose)
       (use rel_exit pop_off_Ok [OF rel_exit(2)] in \<open>auto simp: owns_def upd_lock_def\<close>)
next
  case (acq_enter s c m1 lk)
  from acq_enter(4) show ?case
    by (rule inv_own_same) (use acq_enter in \<open>auto simp: owns_def\<close>)
qed (simp_all add: inv_own_def owns_def)

lemma inv_cpuI:
  assumes "\<And>l d. lk_cpu (locks (mch s) l) = Some d \<longleftrightarrow> l \<in> held s d \<and> pcs s d \<noteq> Rel l"
    and "\<And>l d. pcs s d = Rel l \<Longrightarrow> l \<in> held s d"
    and "\<And>l d. pcs s d = Got l \<Longrightarrow> l \<notin> held s d"
    and "\<And>l d. pcs s d = Spin l \<Longrightarrow> l \<notin> held s d"
  shows "inv_cpu s"
  using assms by (simp add: inv_cpu_def)

lemma inv_cpuD:
  assumes "inv_cpu s"
  shows "lk_cpu (locks (mch s) l) = Some d \<longleftrightarrow> l \<in> held s d \<and> pcs s d \<noteq> Rel l"
    and "pcs s d = Rel l \<Longrightarrow> l \<in> held s d"
    and "pcs s d = Got l \<Longrightarrow> l \<notin> held s d"
    and "pcs s d = Spin l \<Longrightarrow> l \<notin> held s d"
  using assms by (simp_all add: inv_cpu_def)

lemma step_cpu: "lock_step s t \<Longrightarrow> inv_own s \<Longrightarrow> inv_cpu s \<Longrightarrow> inv_cpu t"
proof (induction rule: lock_step.induct)
  case (acq_enter s c m1 lk)
  then show ?case
    by (auto simp: inv_cpu_def holding_def cpuid_def inv_own_def owns_def)
next
  case (acq_swap s c lk)
  then show ?case by (auto simp: inv_cpu_def upd_lock_def) 
next
  case (acq_exit s c lk)
  then show ?case by (auto simp: inv_cpu_def inv_own_def owns_def upd_lock_def)
next
  case (rel_enter s c lk)
  note inv = inv_cpuD [OF rel_enter(4)]
  have hc: "lk_cpu (locks (mch s) lk) = Some c"
    using rel_enter(2) by (simp add: holding_def cpuid_def)
  have mine: "lk \<in> held s c" using inv(1) [of lk c] hc by simp
  have others: "pcs s d = Rel lk" if "lk \<in> held s d" "d \<noteq> c" for d
    using inv(1) [of lk d] hc that by auto
  show ?case
  proof (rule inv_cpuI, goal_cases)
    case (1 l d)
    show ?case
      using inv(1) [of l d] rel_enter(1) others [of d] by (auto simp: upd_lock_def)
  next
    case (2 l d)
    then show ?case using inv(2) [of d l] mine by (auto split: if_splits)
  next
    case (3 l d)
    then show ?case using inv(3) [of d l] by (auto split: if_splits)
  next
    case (4 l d)
    then show ?case using inv(4) [of d l] by (auto split: if_splits)
  qed
next
  case (rel_exit s c lk m1)
  note inv = inv_cpuD [OF rel_exit(4)] and m1 = pop_off_Ok [OF rel_exit(2)]
  have mine: "lk \<in> held s c" using inv(2) rel_exit(1) by simp
  have only: "lk \<notin> held s d" if "d \<noteq> c" for d
    using inv_own_unique [OF rel_exit(3), of d lk c] mine that by (auto simp: owns_def)
  show ?case
  proof (rule inv_cpuI, goal_cases)
    case (1 l d)
    show ?case
      using inv(1) [of l d] rel_exit(1) only [of d] m1(1) mine by (auto simp: upd_lock_def)
  next
    case (2 l d)
    then show ?case using inv(2) [of d l] only [of d] by (auto split: if_splits)
  next
    case (3 l d)
    then show ?case using inv(3) [of d l] by (auto split: if_splits)
  next
    case (4 l d)
    then show ?case using inv(4) [of d l] by (auto split: if_splits)
  qed
qed (simp_all add: inv_cpu_def)

lemma step_depth: "lock_step s t \<Longrightarrow> inv_cpu s \<Longrightarrow> inv_depth s \<Longrightarrow> inv_depth t"
proof (induction rule: lock_step.induct)
  case (acq_enter s c m1 lk)
  then show ?case
    by (auto simp: inv_depth_def depth_def cpus_push_off sie_push_off)
next
  case (acq_swap s c lk)
  then show ?case by (auto simp: inv_depth_def depth_def upd_lock_def) 
next
  case (acq_exit s c lk)
  then show ?case by (auto simp: inv_depth_def inv_cpu_def depth_def upd_lock_def)
next
  case (rel_enter s c lk)
  then show ?case by (auto simp: inv_depth_def depth_def upd_lock_def)
next
  case (rel_exit s c lk m1)
  note m1 = pop_off_Ok [OF rel_exit(2)]
  have mine: "lk \<in> held s c" using inv_cpuD(2) [OF rel_exit(3)] rel_exit(1) by simp
  with rel_exit(4) have "0 < card (held s c)" by (auto simp: inv_depth_def card_gt_0_iff)
  then have "int (card (held s c - {lk})) = int (card (held s c)) - 1"
    using mine by (simp add: card_Diff_singleton)
  with m1 rel_exit(1,4) show ?case
    by (auto simp: inv_depth_def depth_def upd_lock_def split: if_splits)
qed (simp_all add: inv_depth_def depth_def)

lemma lock_reach_inv: "lock_reach s \<Longrightarrow> lock_inv s"
proof (induction rule: lock_reach.induct)
  case (init s)
  then show ?case by (rule lock_inv_boot)
next
  case (step s t)
  then show ?case by (simp add: lock_inv_def step_own step_cpu step_depth)
qed

section \<open>Properties\<close>

text \<open>C2. Mutual exclusion of spin locks: in every state that several harts reach by running
  \<open>acquire\<close> and \<open>release\<close> concurrently, at most one hart is in the critical section of a
  lock, the lock is marked as locked by that hart, and that hart has interrupts off.\<close>

theorem spin_mutual_exclusion:
  assumes "lock_reach s" and "lk \<in> held s c"
  shows "(lk \<in> held s d \<longrightarrow> d = c) \<and> locked (locks (mch s) lk) \<and> \<not> sie (mch s) c"
proof -
  have inv: "inv_own s" "inv_depth s" using lock_reach_inv [OF assms(1)] by (simp_all add: lock_inv_def)
  have own: "owns s c lk" using assms(2) by (simp add: owns_def)
  have "0 < card (held s c)" using assms(2) inv(2) by (auto simp: inv_depth_def card_gt_0_iff)
  then have "0 < noff (cpus (mch s) c)"
    using inv(2) by (auto simp: inv_depth_def depth_def split: pc.splits)
  then have "\<not> sie (mch s) c" using inv(2) by (simp add: inv_depth_def)
  moreover have "lk \<in> held s d \<longrightarrow> d = c"
    using inv_own_unique [OF inv(1) _ own, of d] by (simp add: owns_def)
  ultimately show ?thesis using inv_own_locked [OF inv(1)] own by blast
qed

definition smp_ex :: smp where
  "smp_ex = \<lparr>mch = \<lparr>tp = 0, sie = (\<lambda>_. True),
     cpus = (\<lambda>_. \<lparr>cpu_proc = None, noff = 0, intena = False\<rparr>),
     locks = (\<lambda>_. \<lparr>locked = False, lk_name = [], lk_cpu = None\<rparr>)\<rparr>,
     pcs = (\<lambda>_. Kernel), held = (\<lambda>_. {})\<rparr>"

definition smp_ex_held :: smp where
  "smp_ex_held = smp_ex\<lparr>mch := lockd KmemLock (on_hart 1 (mch smp_ex)),
     pcs := (\<lambda>_. Kernel)(1 := Kernel), held := (\<lambda>_. {})(1 := {KmemLock})\<rparr>"

lemma smp_ex_held_reach: "lock_reach smp_ex_held"
proof -
  let ?m = "push_off (on_hart 1 (mch smp_ex))"
  let ?s1 = "smp_ex\<lparr>mch := ?m, pcs := (pcs smp_ex)(1 := Spin KmemLock)\<rparr>"
  let ?s2 = "?s1\<lparr>mch := upd_lock KmemLock (\<lambda>l. l\<lparr>locked := True\<rparr>) (on_hart 1 ?m),
    pcs := (pcs ?s1)(1 := Got KmemLock)\<rparr>"
  let ?s3 = "?s2\<lparr>mch := upd_lock KmemLock (\<lambda>l. l\<lparr>lk_cpu := Some 1\<rparr>) (on_hart 1 (mch ?s2)),
    pcs := (pcs ?s2)(1 := Kernel), held := (held ?s2)(1 := insert KmemLock (held ?s2 1))\<rparr>"
  have "lock_reach smp_ex"
    by (rule lock_reach.init) (simp add: boot_def smp_ex_def lock_free_def)
  moreover have "lock_step smp_ex ?s1"
    by (rule lock_step.acq_enter) (simp_all add: smp_ex_def holding_def)
  moreover have "lock_step ?s1 ?s2"
    using lock_step.acq_swap [of ?s1 1 KmemLock] by (simp add: smp_ex_def)
  moreover have "lock_step ?s2 ?s3"
    by (rule lock_step.acq_exit) simp
  ultimately have "lock_reach ?s3" by (blast intro: lock_reach.step)
  moreover have "?s3 = smp_ex_held"
    by (simp add: smp_ex_held_def lockd_def upd_lock_def smp_ex_def cpuid_def push_off_def
        intr_off_def upd_cpu_def mycpu_def)
  ultimately show ?thesis by simp
qed

theorem spin_mutual_exclusion_witness:
  "KmemLock \<notin> held smp_ex_held 2 \<and> locked (locks (mch smp_ex_held) KmemLock) \<and>
   \<not> sie (mch smp_ex_held) 1"
  using spin_mutual_exclusion [OF smp_ex_held_reach, of KmemLock 1 2]
  by (simp add: smp_ex_held_def)

text \<open>C22. Matched interrupt disabling: from every state in which the nesting depth is not negative and interrupts are
  off while it is positive (\<open>mach_ok\<close>), after any number \<open>n + 1\<close> of \<open>push_off\<close> calls interrupts are off, the same
  number of \<open>pop_off\<close> calls does not panic, and it restores the hart's interrupt-enable bit, its nesting depth and every
  lock.\<close>

theorem push_pop_matched:
  assumes "mach_ok m"
  shows "\<not> intr_get ((push_off ^^ Suc n) m) \<and>
    (\<exists>m'. pops (Suc n) ((push_off ^^ Suc n) m) = Ok m' \<and> sie m' = sie m \<and> locks m' = locks m \<and>
      noff (mycpu m') = noff (mycpu m))"
proof -
  have "pops (Suc n) ((push_off ^^ Suc n) m) = Ok (sync m)" by (rule pops_push_offs [OF assms])
  moreover have "sie (sync m) = sie m" "locks (sync m) = locks m" "noff (mycpu (sync m)) = noff (mycpu m)"
    by (simp_all add: sync_def machine_defs)
  ultimately show ?thesis
    by (intro conjI exI [of _ "sync m"]) (simp_all del: pops.simps)
qed

theorem push_pop_matched_witness:
  "\<exists>m'. pops 2 ((push_off ^^ 2) (mch smp_ex)) = Ok m' \<and> sie m' 0 \<and> noff (mycpu m') = 0"
proof -
  have ok: "mach_ok (mch smp_ex)" by (simp add: mach_ok_def smp_ex_def machine_defs)
  from push_pop_matched [OF ok, of 1] show ?thesis
    by (auto simp: numeral_2_eq_2 smp_ex_def machine_defs simp del: pops.simps)
qed

end
