(* ===== verification/Kalloc.thy ===== *)
theory Kalloc
  imports Cstring Spinlock Riscv
begin

text \<open>
  The physical page allocator, \<^verbatim>\<open>kernel/kalloc.c\<close>. Free pages form a list linked through
  their own first eight bytes (\<open>struct run\<close>), so the model keeps physical memory as bytes
  and follows the \<open>next\<close> pointers there. The refinement lemmas relate the pointer
  structure to the list of free pages: \<open>kfree\<close> adds a page in front, \<open>kalloc\<close> takes the
  first one, and both keep the list well-formed.
\<close>

section \<open>Kernel memory state\<close>

text \<open>\<open>kend\<close> is the linker symbol \<open>end\<close>, the first address after the kernel; no operation
  changes it.\<close>

record kmem =
  mach :: machine
  mem :: mem
  freelist :: u64
  kend :: u64

definition kacquire :: "lock \<Rightarrow> 'a kmem_scheme \<Rightarrow> 'a kmem_scheme res" where
  "kacquire lk s = rbind (acquire lk (mach s)) (\<lambda>m. Ok (s\<lparr>mach := m\<rparr>))"

definition krelease :: "lock \<Rightarrow> 'a kmem_scheme \<Rightarrow> 'a kmem_scheme res" where
  "krelease lk s = rbind (release lk (mach s)) (\<lambda>m. Ok (s\<lparr>mach := m\<rparr>))"

lemma kacquire_free [res_simps]:
  "lock_free lk (mach s) \<Longrightarrow> kacquire lk s = Ok (s\<lparr>mach := lockd lk (mach s)\<rparr>)"
  by (simp add: kacquire_def acquire_free)

lemma krelease_lockd [res_simps]:
  "mach s = lockd lk m \<Longrightarrow> mach_ok m \<Longrightarrow> lock_free lk m \<Longrightarrow>
    krelease lk s = Ok (s\<lparr>mach := sync m\<rparr>)"
  by (simp add: krelease_def release_lockd)

section \<open>The allocator\<close>

definition kfree :: "u64 \<Rightarrow> 'a kmem_scheme \<Rightarrow> 'a kmem_scheme res" where
  "kfree pa s =
     (if pa mod PGSIZE \<noteq> 0 \<or> pa < kend s \<or> pa \<ge> PHYSTOP then Panic ''kfree''
      else let s1 = s\<lparr>mem := memset (mem s) pa 1 4096\<rparr>
           in rbind (kacquire KmemLock s1) (\<lambda>s2.
              krelease KmemLock (s2\<lparr>mem := store64 (mem s2) pa (freelist s2), freelist := pa\<rparr>)))"

definition kalloc :: "'a kmem_scheme \<Rightarrow> (u64 \<times> 'a kmem_scheme) res" where
  "kalloc s =
     rbind (kacquire KmemLock s) (\<lambda>s1.
       let r = freelist s1;
           s2 = (if r \<noteq> 0 then s1\<lparr>freelist := load64 (mem s1) r\<rparr> else s1)
       in rbind (krelease KmemLock s2) (\<lambda>s3.
            Ok (r, if r \<noteq> 0 then s3\<lparr>mem := memset (mem s3) r 5 4096\<rparr> else s3)))"

lemma kfree_Ok_below: "kfree pa s = Ok s' \<Longrightarrow> pa < PHYSTOP"
  by (auto simp: kfree_def split: if_splits)

text \<open>The loop of \<open>freerange\<close>. It ends because \<open>kfree\<close> panics at \<open>PHYSTOP\<close>, far below the
  top of the address space, so \<open>p + PGSIZE\<close> does not wrap around before that.\<close>

function freerange_loop :: "u64 \<Rightarrow> u64 \<Rightarrow> 'a kmem_scheme \<Rightarrow> 'a kmem_scheme res" where
  "freerange_loop p pa_end s =
     (if p + PGSIZE \<le> pa_end
      then rbind (kfree p s) (freerange_loop (p + PGSIZE) pa_end)
      else Ok s)"
  by pat_completeness auto
termination
proof (relation "measure (\<lambda>(p, pa_end, s). 2 ^ 64 - unat p)", goal_cases)
  case (2 p pa_end s s')
  then have "unat p < unat PHYSTOP" using kfree_Ok_below word_less_nat_alt by blast
  then have p: "unat p < 2281701376" by (simp add: layout_simps)
  then have "unat (p + PGSIZE) = unat p + 4096"
    using unat_add_of_nat [of p 4096] by (simp add: PGSIZE_def)
  with p show ?case by simp
qed simp

declare freerange_loop.simps [simp del]

definition freerange :: "u64 \<Rightarrow> u64 \<Rightarrow> 'a kmem_scheme \<Rightarrow> 'a kmem_scheme res" where
  "freerange pa_start pa_end = freerange_loop (PGROUNDUP pa_start) pa_end"

definition kinit :: "'a kmem_scheme \<Rightarrow> 'a kmem_scheme res" where
  "kinit s = freerange (kend s) PHYSTOP (s\<lparr>mach := initlock KmemLock ''kmem'' (mach s)\<rparr>)"

section \<open>The free list in memory\<close>

text \<open>\<open>runs m p xs\<close>: following \<open>next\<close> pointers from \<open>p\<close> visits the pages \<open>xs\<close> and ends at 0.\<close>

fun runs :: "mem \<Rightarrow> u64 \<Rightarrow> u64 list \<Rightarrow> bool" where
  "runs m p [] \<longleftrightarrow> p = 0"
| "runs m p (x # xs) \<longleftrightarrow> p = x \<and> x \<noteq> 0 \<and> runs m (load64 m x) xs"

text \<open>A page the allocator may hand out.\<close>

definition ram_page :: "'a kmem_scheme \<Rightarrow> u64 \<Rightarrow> bool" where
  "ram_page s pa \<longleftrightarrow> page_aligned pa \<and> kend s \<le> pa \<and> pa < PHYSTOP \<and> pa \<noteq> 0"

definition free_list :: "'a kmem_scheme \<Rightarrow> u64 list \<Rightarrow> bool" where
  "free_list s xs \<longleftrightarrow> runs (mem s) (freelist s) xs \<and> distinct xs \<and> (\<forall>x \<in> set xs. ram_page s x)"

lemma runs_unique: "runs m p xs \<Longrightarrow> runs m p ys \<Longrightarrow> xs = ys"
proof (induction xs arbitrary: p ys)
  case Nil
  then show ?case by (cases ys) auto
next
  case (Cons x xs)
  then show ?case by (cases ys) auto
qed

lemma runs_cong:
  "(\<And>x. x \<in> set xs \<Longrightarrow> load64 m' x = load64 m x) \<Longrightarrow> runs m' p xs = runs m p xs"
  by (induction xs arbitrary: p) auto

lemma in_page_offset:
  assumes "page_aligned p" and "i < 4096"
  shows "in_range p 4096 (p + of_nat i)"
  using assms by (simp add: in_range_def unat_of_nat)

text \<open>Writing inside one page leaves the words of every other page alone.\<close>

lemma load64_frame:
  assumes "page_aligned p" "page_aligned q" "p \<noteq> q" "k \<le> 4088"
    and "\<And>a. \<not> in_range p 4096 a \<Longrightarrow> m' a = m a"
  shows "load64 m' (q + of_nat k) = load64 m (q + of_nat k)"
proof (rule load64_cong)
  fix i :: nat assume "i < 8"
  then have "in_range q 4096 (q + of_nat (k + i))"
    using assms(2,4) by (intro in_page_offset) auto
  then have "\<not> in_range p 4096 (q + of_nat (k + i))"
    using pages_disjoint assms(1-3) by blast
  then show "m' (q + of_nat k + of_nat i) = m (q + of_nat k + of_nat i)"
    using assms(5) by (simp add: algebra_simps)
qed

lemma runs_frame:
  assumes "page_aligned p" "\<forall>x \<in> set xs. page_aligned x" "p \<notin> set xs"
    and "\<And>a. \<not> in_range p 4096 a \<Longrightarrow> m' a = m a"
  shows "runs m' q xs = runs m q xs"
proof (rule runs_cong)
  fix x assume "x \<in> set xs"
  with assms show "load64 m' x = load64 m x"
    using load64_frame [of p x 0 m' m] by auto
qed

lemma store64_in_page: "\<not> in_range p 4096 a \<Longrightarrow> store64 m p v a = m a"
  by (rule store64_other) (simp add: in_range_def)

lemma memset_page:
  "memset m p c 4096 = (\<lambda>a. if in_range p 4096 a then word_of_int c else m a)"
  by (rule memset_eq) simp

section \<open>Correctness\<close>

definition kmem_ok :: "'a kmem_scheme \<Rightarrow> bool" where
  "kmem_ok s \<longleftrightarrow> mach_ok (mach s) \<and> lock_free KmemLock (mach s)"

lemma kfree_ok:
  assumes "kmem_ok s" and "ram_page s pa"
  shows "kfree pa s = Ok (s\<lparr>mach := sync (mach s),
    mem := store64 (memset (mem s) pa 1 4096) pa (freelist s), freelist := pa\<rparr>)"
  using assms
  by (simp add: kfree_def ram_page_def kmem_ok_def kacquire_free krelease_lockd page_aligned_iff
      linorder_not_le linorder_not_less Let_def)

lemma kfree_free_list:
  assumes "free_list s xs" "ram_page s pa" "pa \<notin> set xs"
  shows "free_list (s\<lparr>mach := m, mem := store64 (memset (mem s) pa 1 4096) pa (freelist s),
    freelist := pa\<rparr>) (pa # xs)"
proof -
  let ?m = "store64 (memset (mem s) pa 1 4096) pa (freelist s)"
  have "?m a = mem s a" if "\<not> in_range pa 4096 a" for a
    using that by (simp add: store64_in_page memset_page)
  then have "runs ?m (freelist s) xs = runs (mem s) (freelist s) xs"
    using assms by (intro runs_frame) (auto simp: free_list_def ram_page_def)
  then show ?thesis
    using assms by (auto simp: free_list_def ram_page_def)
qed

lemma kalloc_empty:
  assumes "kmem_ok s" and "free_list s []"
  shows "kalloc s = Ok (0, s\<lparr>mach := sync (mach s)\<rparr>)"
  using assms
  by (simp add: kalloc_def kmem_ok_def kacquire_free krelease_lockd free_list_def Let_def)

lemma kalloc_cons:
  assumes "kmem_ok s" and "free_list s (x # xs)"
  shows "kalloc s = Ok (x, s\<lparr>mach := sync (mach s), mem := memset (mem s) x 5 4096,
    freelist := load64 (mem s) x\<rparr>)"
  using assms
  by (simp add: kalloc_def kmem_ok_def kacquire_free krelease_lockd free_list_def Let_def)

lemma kalloc_free_list:
  assumes "free_list s (x # xs)"
  shows "free_list (s\<lparr>mach := m, mem := memset (mem s) x 5 4096,
    freelist := load64 (mem s) x\<rparr>) xs"
proof -
  have "runs (memset (mem s) x 5 4096) (load64 (mem s) x) xs = runs (mem s) (load64 (mem s) x) xs"
    using assms by (intro runs_frame) (auto simp: free_list_def ram_page_def memset_page)
  with assms show ?thesis by (auto simp: free_list_def ram_page_def)
qed

section \<open>What the allocator promises its clients\<close>

text \<open>
  The interface the rest of the kernel relies on: the pool state \<open>inv s xs\<close> with the free
  pages \<open>xs\<close>, allocation from it, and return of a page that is not free. \<open>take_pages\<close> is
  a client that allocates several pages in a row.
\<close>

fun take_pages :: "('s \<Rightarrow> (u64 \<times> 's) res) \<Rightarrow> nat \<Rightarrow> 's \<Rightarrow> (u64 list \<times> 's) res" where
  "take_pages alloc 0 s = Ok ([], s)"
| "take_pages alloc (Suc n) s =
     rbind (alloc s) (\<lambda>(p, s1). rbind (take_pages alloc n s1) (\<lambda>(ps, s2). Ok (p # ps, s2)))"

locale page_pool =
  fixes alloc :: "'s \<Rightarrow> (u64 \<times> 's) res"
    and free :: "u64 \<Rightarrow> 's \<Rightarrow> 's res"
    and inv :: "'s \<Rightarrow> u64 list \<Rightarrow> bool"
    and usable :: "'s \<Rightarrow> u64 \<Rightarrow> bool"
  assumes alloc_nil: "inv s [] \<Longrightarrow> \<exists>s'. alloc s = Ok (0, s') \<and> inv s' []"
    and alloc_cons: "inv s (x # xs) \<Longrightarrow>
      \<exists>s'. alloc s = Ok (x, s') \<and> inv s' xs \<and> usable s' = usable s"
    and free_page: "inv s xs \<Longrightarrow> usable s p \<Longrightarrow> p \<notin> set xs \<Longrightarrow>
      \<exists>s'. free p s = Ok s' \<and> inv s' (p # xs) \<and> usable s' = usable s"
    and inv_distinct: "inv s xs \<Longrightarrow> distinct xs"
    and inv_usable: "inv s xs \<Longrightarrow> x \<in> set xs \<Longrightarrow> usable s x \<and> x \<noteq> 0"
begin

lemma take_pages_prefix:
  "inv s (xs @ ys) \<Longrightarrow>
    \<exists>s'. take_pages alloc (length xs) s = Ok (xs, s') \<and> inv s' ys \<and> usable s' = usable s"
proof (induction xs arbitrary: s)
  case Nil
  then show ?case by simp
next
  case (Cons x xs)
  then obtain s1 where s1: "alloc s = Ok (x, s1)" "inv s1 (xs @ ys)" "usable s1 = usable s"
    using alloc_cons [of s x "xs @ ys"] by auto
  with Cons.IH [of s1] show ?case by fastforce
qed

lemma take_pages_distinct:
  assumes "inv s xs" and "n \<le> length xs"
  shows "\<exists>ps s'. take_pages alloc n s = Ok (ps, s') \<and> length ps = n \<and> distinct ps \<and>
    set ps \<subseteq> set xs \<and> 0 \<notin> set ps \<and> inv s' (drop n xs) \<and> set ps \<inter> set (drop n xs) = {}"
proof -
  have split: "inv s (take n xs @ drop n xs)" using assms(1) by simp
  obtain s' where "take_pages alloc n s = Ok (take n xs, s')" "inv s' (drop n xs)"
    using take_pages_prefix [OF split] assms(2) by (auto simp: min_absorb2)
  moreover have "distinct (take n xs)" "set (take n xs) \<inter> set (drop n xs) = {}"
    using inv_distinct [OF assms(1)] by (simp_all add: set_take_disj_set_drop_if_distinct)
  moreover have "0 \<notin> set (take n xs)"
    using inv_usable [OF assms(1)] by (auto dest: in_set_takeD)
  ultimately show ?thesis
    using assms(2) set_take_subset [of n xs] by (intro exI [of _ "take n xs"] exI [of _ s']) auto
qed

lemma alloc_free:
  assumes "inv s (x # xs)"
  shows "\<exists>s1 s2. alloc s = Ok (x, s1) \<and> free x s1 = Ok s2 \<and> inv s2 (x # xs)"
proof -
  obtain s1 where s1: "alloc s = Ok (x, s1)" "inv s1 xs" "usable s1 = usable s"
    using alloc_cons [OF assms] by blast
  moreover have "x \<notin> set xs" using inv_distinct [OF assms] by simp
  moreover have "usable s1 x" using inv_usable [OF assms, of x] s1(3) by simp
  ultimately show ?thesis using free_page [of s1 xs x] by blast
qed

end

definition pool :: "'a kmem_scheme \<Rightarrow> u64 list \<Rightarrow> bool" where
  "pool s xs \<longleftrightarrow> kmem_ok s \<and> free_list s xs"

lemma kmem_ok_upd [simp]:
  "kmem_ok (s\<lparr>mach := sync (mach s), mem := m, freelist := f\<rparr>) = kmem_ok s"
  "kmem_ok (s\<lparr>mach := sync (mach s)\<rparr>) = kmem_ok s"
  by (simp_all add: kmem_ok_def)

interpretation kpool: page_pool kalloc kfree pool ram_page
proof (unfold_locales, goal_cases)
  case (1 s)
  then have "free_list (s\<lparr>mach := sync (mach s)\<rparr>) []" by (simp add: pool_def free_list_def)
  with 1 show ?case by (auto simp: pool_def kalloc_empty)
next
  case (2 s x xs)
  then show ?case
    using kalloc_free_list [of s x xs "sync (mach s)"]
    by (auto simp: pool_def kalloc_cons ram_page_def fun_eq_iff)
next
  case (3 s xs p)
  then show ?case
    using kfree_free_list [of s xs p "sync (mach s)"]
    by (auto simp: pool_def kfree_ok ram_page_def fun_eq_iff)
next
  case (4 s xs)
  then show ?case by (simp add: pool_def free_list_def)
next
  case (5 s xs x)
  then show ?case by (auto simp: pool_def free_list_def ram_page_def)
qed

section \<open>Initialisation\<close>

definition page_list :: "u64 \<Rightarrow> nat \<Rightarrow> u64 list" where
  "page_list p n = map (\<lambda>i. p + of_nat (4096 * i)) [0..<n]"

lemma page_list_Suc: "page_list p (Suc n) = p # page_list (p + PGSIZE) n"
  by (simp add: page_list_def upt_conv_Cons map_Suc_upt [symmetric] comp_def PGSIZE_def
      algebra_simps del: upt_Suc)

lemma freerange_kfree:
  assumes "pool s xs" "ram_page s p" "p \<notin> set xs"
  shows "\<exists>s1. kfree p s = Ok s1 \<and> pool s1 (p # xs) \<and> kend s1 = kend s"
  using kpool.free_page [OF assms] assms kfree_ok [of s p] by (auto simp: pool_def)

lemma freerange_loop_ok:
  assumes "pool s xs" "page_aligned p" "kend s \<le> p" "p \<noteq> 0"
    and "unat p + 4096 * n = unat PHYSTOP" "\<forall>x \<in> set xs. x < p"
  shows "\<exists>s'. freerange_loop p PHYSTOP s = Ok s' \<and> pool s' (rev (page_list p n) @ xs) \<and> kend s' = kend s"
  using assms
proof (induction n arbitrary: p s xs)
  case 0
  then have "p = PHYSTOP" by (simp add: word_unat_eq_iff)
  then have "\<not> p + PGSIZE \<le> PHYSTOP" by (simp add: layout_simps PGSIZE_def)
  with 0 show ?case by (simp add: freerange_loop.simps page_list_def)
next
  case (Suc n)
  have P: "unat PHYSTOP = 2281701376" by (simp add: layout_simps)
  have up: "unat (p + PGSIZE) = unat p + 4096"
    using Suc.prems(5) P unat_add_of_nat [of p 4096] by (simp add: PGSIZE_def)
  have le: "p + PGSIZE \<le> PHYSTOP" using up Suc.prems(5) by (simp add: word_le_nat_alt)
  have page: "ram_page s p"
    using Suc.prems by (simp add: ram_page_def word_less_nat_alt)
  obtain s1 where s1: "kfree p s = Ok s1" "pool s1 (p # xs)" "kend s1 = kend s"
    using freerange_kfree [OF Suc.prems(1) page] Suc.prems(6) by blast
  have "page_aligned (p + PGSIZE)"
    using Suc.prems(2) up by (simp add: page_aligned_def)
  moreover have "kend s1 \<le> p + PGSIZE" "p + PGSIZE \<noteq> 0"
    using Suc.prems(3) up s1(3) by (auto simp: word_le_nat_alt simp flip: unat_eq_zero)
  moreover have "unat (p + PGSIZE) + 4096 * n = unat PHYSTOP" using up Suc.prems(5) by simp
  moreover have "\<forall>x \<in> set (p # xs). x < p + PGSIZE"
    using Suc.prems(6) up by (auto simp: word_less_nat_alt)
  ultimately obtain s' where "freerange_loop (p + PGSIZE) PHYSTOP s1 = Ok s'"
    "pool s' (rev (page_list (p + PGSIZE) n) @ p # xs)" "kend s' = kend s1"
    using Suc.IH [OF s1(2)] by blast
  with le s1 show ?case by (simp add: freerange_loop.simps [of p] page_list_Suc)
qed

lemma set_page_list:
  assumes "page_aligned p" "unat p + 4096 * n = unat PHYSTOP"
  shows "set (page_list p n) = {q. page_aligned q \<and> p \<le> q \<and> q < PHYSTOP}"
proof (intro set_eqI iffI)
  fix q assume "q \<in> set (page_list p n)"
  then obtain i where i: "i < n" "q = p + of_nat (4096 * i)" by (auto simp: page_list_def)
  have "unat PHYSTOP = 2281701376" by (simp add: layout_simps)
  then have "unat p + 4096 * i < 2 ^ 64" using i(1) assms(2) by simp
  then have "unat q = unat p + 4096 * i" unfolding i(2) by (rule unat_add_of_nat)
  with i(1) assms show "q \<in> {q. page_aligned q \<and> p \<le> q \<and> q < PHYSTOP}"
    by (simp add: page_aligned_def word_le_nat_alt word_less_nat_alt)
next
  fix q assume "q \<in> {q. page_aligned q \<and> p \<le> q \<and> q < PHYSTOP}"
  then have q: "unat q mod 4096 = 0" "unat p \<le> unat q" "unat q < unat PHYSTOP"
    by (simp_all add: page_aligned_def word_le_nat_alt word_less_nat_alt)
  let ?i = "(unat q - unat p) div 4096"
  have "4096 dvd unat q - unat p"
    using q(1) assms(1) by (simp add: page_aligned_def mod_eq_0_iff_dvd)
  then have eq: "unat q = unat p + 4096 * ?i" using q(2) by simp
  then have "?i < n" using q(3) assms(2) by linarith
  moreover have "q = p + of_nat (4096 * ?i)"
    using arg_cong [OF eq, of "of_nat :: nat \<Rightarrow> u64"] by simp
  ultimately show "q \<in> set (page_list p n)" by (auto simp: page_list_def)
qed

lemma PGROUNDUP_least:
  assumes "unat a + 4095 < 2 ^ 64" "page_aligned q"
  shows "a \<le> q \<longleftrightarrow> PGROUNDUP a \<le> q"
proof -
  obtain k where k: "unat q = 4096 * k" using assms(2) by (auto simp: page_aligned_def)
  have "(unat a + 4095) div 4096 < Suc k \<longleftrightarrow> unat a + 4095 < Suc k * 4096"
    by (rule div_less_iff_less_mult) simp
  then show ?thesis
    unfolding word_le_nat_alt unat_PGROUNDUP [OF assms(1)] k by auto
qed

section \<open>Properties\<close>

text \<open>C11. Page allocation refines taking the head of the free list: with pages \<open>x # xs\<close> free,
  \<open>kalloc\<close> returns \<open>x\<close>, leaves exactly \<open>xs\<close> free, fills the page with 5s and changes no other
  byte of memory; with no page free it returns 0 and changes no memory. It never panics.\<close>

theorem kalloc_refines:
  assumes "pool s xs"
  shows "case xs of
      [] \<Rightarrow> \<exists>s'. kalloc s = Ok (0, s') \<and> pool s' [] \<and> mem s' = mem s
    | x # ys \<Rightarrow> \<exists>s'. kalloc s = Ok (x, s') \<and> pool s' ys \<and> ram_page s' x \<and> x \<notin> set ys \<and>
        (\<forall>a. mem s' a = (if in_range x 4096 a then 5 else mem s a))"
proof (cases xs)
  case Nil
  with assms show ?thesis
    using kpool.alloc_nil [of s] by (auto simp: pool_def kalloc_empty)
next
  case (Cons x ys)
  with assms have p: "pool s (x # ys)" by simp
  then have "kalloc s = Ok (x, s\<lparr>mach := sync (mach s), mem := memset (mem s) x 5 4096,
      freelist := load64 (mem s) x\<rparr>)"
    using kalloc_cons [of s x ys] by (simp add: pool_def)
  moreover have "pool (s\<lparr>mach := sync (mach s), mem := memset (mem s) x 5 4096,
      freelist := load64 (mem s) x\<rparr>) ys"
    using p kalloc_free_list [of s x ys] by (simp add: pool_def)
  moreover have "ram_page s x" "x \<notin> set ys"
    using kpool.inv_usable [OF p, of x] kpool.inv_distinct [OF p] by simp_all
  ultimately show ?thesis using Cons by (simp add: memset_page ram_page_def)
qed

text \<open>A pool with two free pages, as a concrete state.\<close>

definition mach_ex :: machine where
  "mach_ex = \<lparr>tp = 0, sie = (\<lambda>_. True),
     cpus = (\<lambda>_. \<lparr>cpu_proc = None, noff = 0, intena = False\<rparr>),
     locks = (\<lambda>_. \<lparr>locked = False, lk_name = [], lk_cpu = None\<rparr>)\<rparr>"

definition kmem_ex :: kmem where
  "kmem_ex = \<lparr>mach = mach_ex, mem = store64 (\<lambda>_. 0) 0x87000000 0x87001000,
     freelist = 0x87000000, kend = 0x80020000\<rparr>"

lemma mach_ex_ok: "mach_ok mach_ex" "lock_free lk mach_ex"
  by (simp_all add: mach_ok_def lock_free_def mach_ex_def machine_defs)

lemma load64_zero: "load64 (\<lambda>_. 0) a = 0"
  by (rule bit_word_eqI) (simp add: bit_load64)

lemma kmem_ex_pool: "pool kmem_ex [0x87000000, 0x87001000]"
proof -
  let ?m = "store64 (\<lambda>_. 0) 0x87000000 0x87001000"
  have "load64 ?m (0x87001000 + of_nat 0) = load64 (\<lambda>_. 0) (0x87001000 + of_nat 0)"
    by (rule load64_frame [of "0x87000000"]) (simp_all add: page_aligned_def store64_in_page)
  then have "load64 ?m 0x87001000 = 0" by (simp add: load64_zero)
  then have "free_list kmem_ex [0x87000000, 0x87001000]"
    by (simp add: free_list_def kmem_ex_def ram_page_def page_aligned_def layout_simps)
  moreover have "kmem_ok kmem_ex" by (simp add: kmem_ok_def kmem_ex_def mach_ex_ok)
  ultimately show ?thesis by (simp add: pool_def)
qed

theorem kalloc_refines_witness:
  "\<exists>s'. kalloc kmem_ex = Ok (0x87000000, s') \<and> pool s' [0x87001000] \<and> mem s' 0x87000FFF = 5"
  using kalloc_refines [OF kmem_ex_pool] by (auto simp: in_range_def)


text \<open>C16. Freeing a page: \<open>kfree\<close> panics exactly on an address that is not page-aligned or not
  between the end of the kernel and \<open>PHYSTOP\<close>; on any other page that is not free already it
  puts the page in front of the free list and changes no byte outside that page.\<close>

theorem kfree_refines:
  assumes "pool s xs" and "pa \<noteq> 0" and "pa \<notin> set xs"
  shows "if pa mod PGSIZE \<noteq> 0 \<or> pa < kend s \<or> PHYSTOP \<le> pa then kfree pa s = Panic ''kfree''
    else \<exists>s'. kfree pa s = Ok s' \<and> pool s' (pa # xs) \<and>
      (\<forall>a. \<not> in_range pa 4096 a \<longrightarrow> mem s' a = mem s a)"
proof (cases "pa mod PGSIZE \<noteq> 0 \<or> pa < kend s \<or> PHYSTOP \<le> pa")
  case True
  then show ?thesis by (auto simp: kfree_def)
next
  case False
  then have page: "ram_page s pa" using assms(2) by (auto simp: ram_page_def page_aligned_iff)
  have "kfree pa s = Ok (s\<lparr>mach := sync (mach s),
      mem := store64 (memset (mem s) pa 1 4096) pa (freelist s), freelist := pa\<rparr>)"
    using kfree_ok [of s pa] assms(1) page by (simp add: pool_def)
  moreover have "pool (s\<lparr>mach := sync (mach s),
      mem := store64 (memset (mem s) pa 1 4096) pa (freelist s), freelist := pa\<rparr>) (pa # xs)"
    using kfree_free_list [of s xs pa, OF _ page assms(3)] assms(1) by (simp add: pool_def)
  ultimately show ?thesis using False by (auto simp: store64_in_page memset_page)
qed

theorem kfree_refines_witness:
  "kfree 0x87002001 kmem_ex = Panic ''kfree'' \<and>
   (\<exists>s'. kfree 0x87002000 kmem_ex = Ok s' \<and> pool s' [0x87002000, 0x87000000, 0x87001000])"
proof -
  have "kend kmem_ex = 0x80020000" by (simp add: kmem_ex_def)
  then show ?thesis
    using kfree_refines [OF kmem_ex_pool, of "0x87002001"] kfree_refines [OF kmem_ex_pool, of "0x87002000"]
    by (auto simp: PGSIZE_def layout_simps)
qed

text \<open>C17. No page is handed out twice: as many calls of \<open>kalloc\<close> as there are free pages return
  pairwise different pages, none of them 0 and none of them still on the free list.\<close>

theorem kalloc_distinct:
  assumes "pool s xs" and "n \<le> length xs"
  shows "\<exists>ps s'. take_pages kalloc n s = Ok (ps, s') \<and> length ps = n \<and> distinct ps \<and>
    set ps \<subseteq> set xs \<and> 0 \<notin> set ps \<and> pool s' (drop n xs) \<and> set ps \<inter> set (drop n xs) = {}"
  using assms by (rule kpool.take_pages_distinct)

theorem kalloc_distinct_witness:
  "\<exists>ps s'. take_pages kalloc 2 kmem_ex = Ok (ps, s') \<and> length ps = 2 \<and> distinct ps \<and> pool s' []"
  using kalloc_distinct [OF kmem_ex_pool, of 2] by auto

text \<open>C18. Boot: \<open>kinit\<close> does not panic, and afterwards the free list holds every page of RAM
  between the end of the kernel and \<open>PHYSTOP\<close> exactly once, and nothing else.\<close>

theorem kinit_frees_ram:
  assumes "mach_ok (mach s)" and "freelist s = 0" and "kend s \<noteq> 0" and "kend s \<le> PHYSTOP"
  shows "\<exists>s' xs. kinit s = Ok s' \<and> pool s' xs \<and> set xs = {pa. ram_page s pa}"
proof -
  let ?s = "s\<lparr>mach := initlock KmemLock ''kmem'' (mach s)\<rparr>" and ?p = "PGROUNDUP (kend s)"
  let ?n = "(unat PHYSTOP - unat ?p) div 4096"
  have PH: "unat PHYSTOP = 2281701376" "page_aligned PHYSTOP"
    by (simp_all add: layout_simps page_aligned_def)
  then have small: "unat (kend s) + 4095 < 2 ^ 64" using assms(4) by (simp add: word_le_nat_alt)
  note least = PGROUNDUP_least [OF small]
  have le: "?p \<le> PHYSTOP" and ke: "kend s \<le> ?p" using least [of PHYSTOP] least [of ?p] PH(2) assms(4) by auto
  have "4096 dvd unat PHYSTOP - unat ?p"
    using PH(1) page_aligned_PGROUNDUP [of "kend s"]
    by (intro dvd_diff_nat) (auto simp: page_aligned_def mod_eq_0_iff_dvd)
  then have n: "unat ?p + 4096 * ?n = unat PHYSTOP" using le by (simp add: word_le_nat_alt)
  have "pool ?s []"
    using assms(1,2) by (simp add: pool_def kmem_ok_def free_list_def initlock_def upd_lock_def
        mach_ok_def lock_free_def mycpu_def cpuid_def intr_get_def)
  moreover have nz: "?p \<noteq> 0" using ke assms(3) by (metis word_le_0_iff)
  ultimately obtain s' where s': "freerange_loop ?p PHYSTOP ?s = Ok s'" "pool s' (rev (page_list ?p ?n) @ [])"
    using freerange_loop_ok [of ?s "[]" ?p ?n] ke n by auto
  have "set (page_list ?p ?n) = {pa. ram_page s pa}"
    using set_page_list [OF page_aligned_PGROUNDUP n] least nz by (auto simp: ram_page_def)
  with s' show ?thesis by (auto simp: kinit_def freerange_def)
qed

theorem kinit_frees_ram_witness:
  "\<exists>s' xs. kinit (kmem_ex\<lparr>freelist := 0\<rparr>) = Ok s' \<and> pool s' xs \<and> 0x87000000 \<in> set xs \<and>
     0x80020000 \<in> set xs \<and> 0x8001F000 \<notin> set xs"
proof -
  obtain s' xs where "kinit (kmem_ex\<lparr>freelist := 0\<rparr>) = Ok s'" "pool s' xs"
    "set xs = {pa. ram_page (kmem_ex\<lparr>freelist := 0\<rparr>) pa}"
    using kinit_frees_ram [of "kmem_ex\<lparr>freelist := 0\<rparr>"] by (auto simp: kmem_ex_def mach_ex_ok layout_simps)
  then show ?thesis
    by (intro exI [of _ s'] exI [of _ xs]) (auto simp: ram_page_def kmem_ex_def page_aligned_def layout_simps)
qed

end
