(* ===== verification/Proc.thy ===== *)
theory Proc
  imports Kalloc
begin

text \<open>
  The process table, \<^verbatim>\<open>kernel/proc.h\<close> and the part of \<^verbatim>\<open>kernel/proc.c\<close> that the rest of the
  kernel calls: \<open>myproc\<close>, \<open>allocpid\<close>, the sleep and wakeup protocol, \<open>kkill\<close>, \<open>yield\<close> and one
  round of \<open>scheduler\<close>. The context switch \<open>swtch\<close> is assembly; it is a parameter, a function
  from the state in which a thread gives up the hart to the state in which it runs again.
  The last section is a step relation for a sleeper and a waker that run concurrently.
\<close>

section \<open>Processes\<close>

datatype procstate = UNUSED | USED | SLEEPING | RUNNABLE | RUNNING | ZOMBIE

text \<open>The numbers C gives to the constructors of \<open>enum procstate\<close> order the states.\<close>

fun procstate_num :: "procstate \<Rightarrow> nat" where
  "procstate_num UNUSED = 0"
| "procstate_num USED = 1"
| "procstate_num SLEEPING = 2"
| "procstate_num RUNNABLE = 3"
| "procstate_num RUNNING = 4"
| "procstate_num ZOMBIE = 5"

lemma procstate_num_inj: "procstate_num a = procstate_num b \<Longrightarrow> a = b"
  by (cases a; cases b) simp_all

instantiation procstate :: linorder
begin

definition less_eq_procstate :: "procstate \<Rightarrow> procstate \<Rightarrow> bool" where
  "less_eq_procstate a b \<longleftrightarrow> procstate_num a \<le> procstate_num b"

definition less_procstate :: "procstate \<Rightarrow> procstate \<Rightarrow> bool" where
  "less_procstate a b \<longleftrightarrow> procstate_num a < procstate_num b"

instance
  by intro_classes
    (auto simp: less_eq_procstate_def less_procstate_def intro: procstate_num_inj)

end

text \<open>What a process can sleep on: the address the source passes to \<open>sleep\<close>.\<close>

datatype chan = NoChan | ChTicks | ChProc nat | ChLog | ChSleeplock lock | ChPipeRead u64
  | ChPipeWrite u64 | ChCons | ChTx | ChDiskFree | ChBuf nat

record kcontext =
  ctx_ra :: u64
  ctx_sp :: u64
  ctx_s :: "nat \<Rightarrow> u64"

text \<open>\<open>struct proc\<close>; its lock is \<open>ProcLock i\<close> of the machine. Pointers to other processes,
  open files and inodes are indices of their tables. \<open>pname\<close> is the C string in \<open>name\<close>.\<close>

record proc =
  pstate :: procstate
  pchan :: chan
  pkilled :: int
  xstate :: int
  pid :: int
  parent :: "nat option"
  kstack :: u64
  sz :: u64
  pagetable :: u64
  trapframe :: u64
  pcontext :: kcontext
  ofile :: "nat \<Rightarrow> nat option"
  cwd :: "nat option"
  pname :: "u8 list"

record ptable = kmem +
  procs :: "nat \<Rightarrow> proc"
  nextpid :: int
  initproc :: "nat option"

definition upd_proc :: "nat \<Rightarrow> (proc \<Rightarrow> proc) \<Rightarrow> 'a ptable_scheme \<Rightarrow> 'a ptable_scheme" where
  "upd_proc i f s = s\<lparr>procs := (procs s)(i := f (procs s i))\<rparr>"

lemma upd_proc_simps [simp]:
  "mach (upd_proc i f s) = mach s" "mem (upd_proc i f s) = mem s"
  "freelist (upd_proc i f s) = freelist s" "kend (upd_proc i f s) = kend s"
  "procs (upd_proc i f s) j = (if j = i then f (procs s i) else procs s j)"
  "nextpid (upd_proc i f s) = nextpid s" "initproc (upd_proc i f s) = initproc s"
  by (simp_all add: upd_proc_def)

text \<open>The offsets of \<open>struct trapframe\<close>, which lives in a page of its own; \<open>a0\<close> to \<open>a7\<close>
  follow each other.\<close>

definition TF_KERNEL_SATP :: u64 where "TF_KERNEL_SATP = 0"
definition TF_KERNEL_SP :: u64 where "TF_KERNEL_SP = 8"
definition TF_KERNEL_TRAP :: u64 where "TF_KERNEL_TRAP = 16"
definition TF_EPC :: u64 where "TF_EPC = 24"
definition TF_KERNEL_HARTID :: u64 where "TF_KERNEL_HARTID = 32"
definition TF_SP :: u64 where "TF_SP = 48"
definition TF_A0 :: u64 where "TF_A0 = 112"
definition TF_A1 :: u64 where "TF_A1 = 120"
definition TF_A7 :: u64 where "TF_A7 = 168"
definition TF_SIZE :: nat where "TF_SIZE = 288"

definition tf_get :: "u64 \<Rightarrow> nat \<Rightarrow> 'a ptable_scheme \<Rightarrow> u64" where
  "tf_get off p s = load64 (mem s) (trapframe (procs s p) + off)"

definition tf_set :: "u64 \<Rightarrow> u64 \<Rightarrow> nat \<Rightarrow> 'a ptable_scheme \<Rightarrow> 'a ptable_scheme" where
  "tf_set off v p s = s\<lparr>mem := store64 (mem s) (trapframe (procs s p) + off) v\<rparr>"

section \<open>The current process\<close>

text \<open>\<open>myproc_full\<close> is the routine with its \<open>push_off\<close> and \<open>pop_off\<close>. It returns \<open>myproc s\<close> and
  leaves the machine as a matched pair does (\<open>myproc_full_eq\<close>), so the callers below read
  \<open>myproc s\<close>.\<close>

definition myproc_full :: "'a ptable_scheme \<Rightarrow> (nat option \<times> 'a ptable_scheme) res" where
  "myproc_full s =
     (let m1 = push_off (mach s); p = cpu_proc (mycpu m1)
      in rbind (pop_off m1) (\<lambda>m2. Ok (p, s\<lparr>mach := m2\<rparr>)))"

definition myproc :: "'a ptable_scheme \<Rightarrow> nat option" where
  "myproc s = cpu_proc (mycpu (mach s))"

lemma myproc_full_eq:
  "mach_ok (mach s) \<Longrightarrow> myproc_full s = Ok (myproc s, s\<lparr>mach := sync (mach s)\<rparr>)"
  by (simp add: myproc_full_def myproc_def pop_off_push_off Let_def)
     (simp add: push_off_def machine_defs Let_def)

text \<open>Using the process pointer when there is no process dereferences address 0, which the
  kernel page table does not map: the trap handler panics.\<close>

definition with_proc :: "'a ptable_scheme \<Rightarrow> (nat \<Rightarrow> 'b res) \<Rightarrow> 'b res" where
  "with_proc s f = (case myproc s of None \<Rightarrow> Panic ''kerneltrap'' | Some p \<Rightarrow> f p)"

lemma with_proc_Some [simp]: "myproc s = Some p \<Longrightarrow> with_proc s f = f p"
  by (simp add: with_proc_def)

lemma with_proc_cong [fundef_cong]:
  "s = s' \<Longrightarrow> (\<And>p. myproc s' = Some p \<Longrightarrow> f p = g p) \<Longrightarrow> with_proc s f = with_proc s' g"
  by (auto simp: with_proc_def split: option.splits)

section \<open>Initialisation and process ids\<close>

definition procinit :: "'a ptable_scheme \<Rightarrow> 'a ptable_scheme" where
  "procinit s =
     fold (\<lambda>i s. upd_proc i (\<lambda>p. p\<lparr>pstate := UNUSED, kstack := KSTACK i\<rparr>)
                   (s\<lparr>mach := initlock (ProcLock i) ''proc'' (mach s)\<rparr>))
       [0..<NPROC]
       (s\<lparr>mach := initlock WaitLock ''wait_lock'' (initlock PidLock ''nextpid'' (mach s))\<rparr>)"

definition allocpid :: "'a ptable_scheme \<Rightarrow> (int \<times> 'a ptable_scheme) res" where
  "allocpid s =
     rbind (kacquire PidLock s) (\<lambda>s1.
       let pid = nextpid s1
       in rbind (krelease PidLock (s1\<lparr>nextpid := nextpid s1 + 1\<rparr>)) (\<lambda>s2. Ok (pid, s2)))"

section \<open>Sleep and wakeup\<close>

text \<open>The body of the loop of \<open>wakeup\<close>.\<close>

definition wakeup1 :: "chan \<Rightarrow> nat \<Rightarrow> 'a ptable_scheme \<Rightarrow> 'a ptable_scheme res" where
  "wakeup1 ch i s =
     (if Some i \<noteq> myproc s
      then rbind (kacquire (ProcLock i) s) (\<lambda>s1.
             krelease (ProcLock i)
               (if pstate (procs s1 i) = SLEEPING \<and> pchan (procs s1 i) = ch
                then upd_proc i (\<lambda>p. p\<lparr>pstate := RUNNABLE\<rparr>) s1 else s1))
      else Ok s)"

definition wakeup :: "chan \<Rightarrow> 'a ptable_scheme \<Rightarrow> 'a ptable_scheme res" where
  "wakeup ch s = rfold (wakeup1 ch) [0..<NPROC] s"

definition sched :: "('a ptable_scheme \<Rightarrow> 'a ptable_scheme) \<Rightarrow> 'a ptable_scheme \<Rightarrow> 'a ptable_scheme res" where
  "sched swtch s = with_proc s (\<lambda>p.
     if \<not> holding (ProcLock p) (mach s) then Panic ''sched p->lock''
     else if noff (mycpu (mach s)) \<noteq> 1 then Panic ''sched locks''
     else if pstate (procs s p) = RUNNING then Panic ''sched RUNNING''
     else if intr_get (mach s) then Panic ''sched interruptible''
     else let i = intena (mycpu (mach s)); s1 = swtch s
          in Ok (s1\<lparr>mach := upd_cpu (\<lambda>c. c\<lparr>intena := i\<rparr>) (mach s1)\<rparr>))"

definition yield :: "('a ptable_scheme \<Rightarrow> 'a ptable_scheme) \<Rightarrow> 'a ptable_scheme \<Rightarrow> 'a ptable_scheme res" where
  "yield swtch s = with_proc s (\<lambda>p.
     rbind (kacquire (ProcLock p) s) (\<lambda>s1.
     rbind (sched swtch (upd_proc p (\<lambda>q. q\<lparr>pstate := RUNNABLE\<rparr>) s1)) (krelease (ProcLock p))))"

definition sleep :: "('a ptable_scheme \<Rightarrow> 'a ptable_scheme) \<Rightarrow> chan \<Rightarrow> lock \<Rightarrow>
    'a ptable_scheme \<Rightarrow> 'a ptable_scheme res" where
  "sleep swtch ch lk s = with_proc s (\<lambda>p.
     rbind (kacquire (ProcLock p) s) (\<lambda>s1.
     rbind (krelease lk s1) (\<lambda>s2.
     rbind (sched swtch (upd_proc p (\<lambda>q. q\<lparr>pchan := ch, pstate := SLEEPING\<rparr>) s2)) (\<lambda>s3.
     rbind (krelease (ProcLock p) (upd_proc p (\<lambda>q. q\<lparr>pchan := NoChan\<rparr>) s3)) (kacquire lk)))))"

text \<open>What the other threads do while a process waits, one function for each time it sleeps: from the state in
  which it gives up the hart to the state in which it runs again. A waiting loop that has used up the list is
  \<open>Blocked\<close>.\<close>

type_synonym 's env = "('s \<Rightarrow> 's) list"

section \<open>Killing\<close>

fun kkill_from :: "nat list \<Rightarrow> int \<Rightarrow> 'a ptable_scheme \<Rightarrow> (int \<times> 'a ptable_scheme) res" where
  "kkill_from [] k s = Ok (-1, s)"
| "kkill_from (i # is) k s =
     rbind (kacquire (ProcLock i) s) (\<lambda>s1.
       if pid (procs s1 i) = k
       then rbind (krelease (ProcLock i)
              (upd_proc i (\<lambda>p. p\<lparr>pkilled := 1,
                 pstate := (if pstate p = SLEEPING then RUNNABLE else pstate p)\<rparr>) s1))
              (\<lambda>s2. Ok (0, s2))
       else rbind (krelease (ProcLock i) s1) (kkill_from is k))"

definition kkill :: "int \<Rightarrow> 'a ptable_scheme \<Rightarrow> (int \<times> 'a ptable_scheme) res" where
  "kkill k s = kkill_from [0..<NPROC] k s"

definition setkilled :: "nat \<Rightarrow> 'a ptable_scheme \<Rightarrow> 'a ptable_scheme res" where
  "setkilled p s = rbind (kacquire (ProcLock p) s) (\<lambda>s1.
     krelease (ProcLock p) (upd_proc p (\<lambda>q. q\<lparr>pkilled := 1\<rparr>) s1))"

definition killed :: "nat \<Rightarrow> 'a ptable_scheme \<Rightarrow> (int \<times> 'a ptable_scheme) res" where
  "killed p s = rbind (kacquire (ProcLock p) s) (\<lambda>s1.
     let k = pkilled (procs s1 p)
     in rbind (krelease (ProcLock p) s1) (\<lambda>s2. Ok (k, s2)))"

section \<open>The scheduler\<close>

text \<open>The body of the scheduler's inner loop, and one round of its outer loop; the
  boolean is the source's \<open>found\<close>.\<close>

definition sched_one :: "('a ptable_scheme \<Rightarrow> 'a ptable_scheme) \<Rightarrow> nat \<Rightarrow>
    bool \<times> 'a ptable_scheme \<Rightarrow> (bool \<times> 'a ptable_scheme) res" where
  "sched_one swtch i fs =
     rbind (kacquire (ProcLock i) (snd fs)) (\<lambda>s1.
       let (found, s2) =
         (if pstate (procs s1 i) = RUNNABLE
          then let s1' = upd_proc i (\<lambda>p. p\<lparr>pstate := RUNNING\<rparr>) s1;
                   s1'' = swtch (s1'\<lparr>mach := upd_cpu (\<lambda>c. c\<lparr>cpu_proc := Some i\<rparr>) (mach s1')\<rparr>)
               in (True, s1''\<lparr>mach := upd_cpu (\<lambda>c. c\<lparr>cpu_proc := None\<rparr>) (mach s1'')\<rparr>)
          else (fst fs, s1))
       in rbind (krelease (ProcLock i) s2) (\<lambda>s3. Ok (found, s3)))"

definition sched_round :: "('a ptable_scheme \<Rightarrow> 'a ptable_scheme) \<Rightarrow> 'a ptable_scheme \<Rightarrow>
    (bool \<times> 'a ptable_scheme) res" where
  "sched_round swtch s =
     rfold (sched_one swtch) [0..<NPROC] (False, s\<lparr>mach := intr_off (intr_on (mach s))\<rparr>)"

text \<open>\<open>n\<close> rounds of \<open>scheduler\<close>, which itself never returns; \<open>wfi\<close> has no effect on memory.\<close>

fun scheduler_rounds :: "('a ptable_scheme \<Rightarrow> 'a ptable_scheme) \<Rightarrow> nat \<Rightarrow> 'a ptable_scheme \<Rightarrow>
    'a ptable_scheme res" where
  "scheduler_rounds swtch 0 s = Ok s"
| "scheduler_rounds swtch (Suc n) s = rbind (sched_round swtch s) (\<lambda>(_, s1). scheduler_rounds swtch n s1)"

definition scheduler :: "('a ptable_scheme \<Rightarrow> 'a ptable_scheme) \<Rightarrow> nat \<Rightarrow> 'a ptable_scheme \<Rightarrow>
    'a ptable_scheme res" where
  "scheduler swtch n s =
     scheduler_rounds swtch n (s\<lparr>mach := upd_cpu (\<lambda>c. c\<lparr>cpu_proc := None\<rparr>) (mach s)\<rparr>)"

section \<open>Behaviour on a table whose process locks are free\<close>

definition proc_locks_ok :: "'a ptable_scheme \<Rightarrow> bool" where
  "proc_locks_ok s \<longleftrightarrow> mach_ok (mach s) \<and> (\<forall>i < NPROC. lock_free (ProcLock i) (mach s))"

lemma proc_locks_ok_sync [simp]:
  "proc_locks_ok (s\<lparr>mach := sync (mach s)\<rparr>) = proc_locks_ok s"
  by (simp add: proc_locks_ok_def)

lemma mycpu_proc_lockd [simp]: "cpu_proc (mycpu (lockd lk m)) = cpu_proc (mycpu m)"
  and mycpu_proc_sync [simp]: "cpu_proc (mycpu (sync m)) = cpu_proc (mycpu m)"
  by (simp_all add: mycpu_def cpuid_def)

text \<open>What \<open>wakeup\<close> does to the processes \<open>is\<close>.\<close>

definition woken :: "chan \<Rightarrow> nat option \<Rightarrow> nat set \<Rightarrow> (nat \<Rightarrow> proc) \<Rightarrow> nat \<Rightarrow> proc" where
  "woken ch me is ps = (\<lambda>i. if i \<in> is \<and> Some i \<noteq> me \<and> pstate (ps i) = SLEEPING \<and> pchan (ps i) = ch
     then (ps i)\<lparr>pstate := RUNNABLE\<rparr> else ps i)"

lemma wakeup1_ok:
  assumes "proc_locks_ok s" "i < NPROC"
  shows "wakeup1 ch i s = Ok (s\<lparr>mach := (if Some i \<noteq> myproc s then sync (mach s) else mach s),
    procs := woken ch (myproc s) {i} (procs s)\<rparr>)"
  using assms
  by (auto simp: wakeup1_def kacquire_free krelease_lockd proc_locks_ok_def upd_proc_def woken_def
      fun_eq_iff)

lemma wakeup_list_ok:
  assumes "proc_locks_ok s" "set is \<subseteq> {0..<NPROC}"
  shows "rfold (wakeup1 ch) is s = Ok (s\<lparr>
    mach := (if \<exists>i \<in> set is. Some i \<noteq> myproc s then sync (mach s) else mach s),
    procs := woken ch (myproc s) (set is) (procs s)\<rparr>)"
  using assms
proof (induction "is" arbitrary: s)
  case Nil
  then show ?case by (simp add: woken_def)
next
  case (Cons i "is")
  let ?s = "s\<lparr>mach := (if Some i \<noteq> myproc s then sync (mach s) else mach s),
    procs := woken ch (myproc s) {i} (procs s)\<rparr>"
  have me: "myproc ?s = myproc s" by (simp add: myproc_def mycpu_def cpuid_def)
  have "woken ch (myproc s) (set is) (woken ch (myproc s) {i} (procs s)) =
      woken ch (myproc s) (insert i (set is)) (procs s)"
    by (auto simp: woken_def fun_eq_iff)
  moreover have "proc_locks_ok ?s" using Cons.prems(1) by (simp add: proc_locks_ok_def)
  ultimately show ?case
    using Cons.IH [of ?s] Cons.prems wakeup1_ok [of s i ch] by (simp add: me)
qed

lemma wakeup_ok [res_simps]:
  assumes "proc_locks_ok s"
  shows "wakeup ch s = Ok (s\<lparr>mach := sync (mach s), procs := woken ch (myproc s) {0..<NPROC} (procs s)\<rparr>)"
proof -
  have "\<exists>i < NPROC. Some i \<noteq> myproc s"
  proof (cases "myproc s = Some 0")
    case True
    then show ?thesis by (intro exI [of _ 1]) (simp add: NPROC_def)
  next
    case False
    then show ?thesis by (intro exI [of _ 0]) (auto simp: NPROC_def)
  qed
  then show ?thesis
    using wakeup_list_ok [OF assms, of "[0..<NPROC]" ch] by (auto simp: wakeup_def)
qed

lemma killed_ok [res_simps]:
  "proc_locks_ok s \<Longrightarrow> p < NPROC \<Longrightarrow>
    killed p s = Ok (pkilled (procs s p), s\<lparr>mach := sync (mach s)\<rparr>)"
  by (simp add: killed_def proc_locks_ok_def kacquire_free krelease_lockd)

lemma setkilled_ok [res_simps]:
  "proc_locks_ok s \<Longrightarrow> p < NPROC \<Longrightarrow>
    setkilled p s = Ok (upd_proc p (\<lambda>q. q\<lparr>pkilled := 1\<rparr>) (s\<lparr>mach := sync (mach s)\<rparr>))"
  by (simp add: setkilled_def proc_locks_ok_def kacquire_free krelease_lockd upd_proc_def)

text \<open>What \<open>kkill\<close> does to its victim.\<close>

definition kill_proc :: "proc \<Rightarrow> proc" where
  "kill_proc p = p\<lparr>pkilled := 1, pstate := (if pstate p = SLEEPING then RUNNABLE else pstate p)\<rparr>"

lemma kkill_from_ok:
  assumes "proc_locks_ok s" "set is \<subseteq> {0..<NPROC}" "is \<noteq> []"
  shows "kkill_from is k s =
    (case find (\<lambda>i. pid (procs s i) = k) is of
       None \<Rightarrow> Ok (-1, s\<lparr>mach := sync (mach s)\<rparr>)
     | Some i \<Rightarrow> Ok (0, upd_proc i kill_proc (s\<lparr>mach := sync (mach s)\<rparr>)))"
  using assms
proof (induction "is" arbitrary: s)
  case (Cons i "is")
  have free: "mach_ok (mach s)" "lock_free (ProcLock i) (mach s)"
    using Cons.prems by (simp_all add: proc_locks_ok_def)
  show ?case
  proof (cases "pid (procs s i) = k")
    case True
    with free show ?thesis
      by (simp add: kacquire_free krelease_lockd upd_proc_def kill_proc_def)
  next
    case False
    let ?s = "s\<lparr>mach := sync (mach s)\<rparr>"
    have "kkill_from (i # is) k s = kkill_from is k ?s"
      using free False by (simp add: kacquire_free krelease_lockd)
    moreover have "kkill_from is k ?s = (case find (\<lambda>i. pid (procs s i) = k) is of
        None \<Rightarrow> Ok (-1, ?s) | Some i \<Rightarrow> Ok (0, upd_proc i kill_proc ?s))"
      using Cons.IH [of ?s] Cons.prems by (cases "is = []") (simp_all split: option.splits)
    ultimately show ?thesis using False by simp
  qed
qed simp

section \<open>One thread through \<open>sleep\<close> and through the scheduler\<close>

text \<open>The machine after the lock that a resumed thread holds is released at depth 0: the
  interrupt state is the one the thread saved, not the one of the hart it now runs on.\<close>

definition resume :: "bool \<Rightarrow> machine \<Rightarrow> machine" where
  "resume i m = upd_cpu (\<lambda>c. c\<lparr>intena := i\<rparr>) (m\<lparr>sie := (sie m)(tp m := i)\<rparr>)"

lemma release_resume:
  assumes "noff (mycpu m) = 0" "lock_free lk m"
  shows "release lk (upd_cpu (\<lambda>c. c\<lparr>intena := i\<rparr>) (lockd lk m)) = Ok (resume i m)"
  using assms(1) lock_free_eq [OF assms(2)]
  by (auto simp: release_def pop_off_def lockd_def push_off_def resume_def
      machine_defs Let_def fun_eq_iff intro!: machine_eqI)

lemma resume_simps [simp]:
  "locks (resume i m) = locks m" "tp (resume i m) = tp m" "lock_free lk (resume i m) = lock_free lk m"
  "sie (resume i m) (tp m) = i" "noff (mycpu (resume i m)) = noff (mycpu m)"
  by (simp_all add: resume_def machine_defs lock_free_def)

lemma lockd_simps:
  "noff (mycpu (lockd lk m)) = noff (mycpu m) + 1" "\<not> intr_get (lockd lk m)"
  "intena (mycpu (lockd lk m)) = (if noff (mycpu m) = 0 then intr_get m else intena (mycpu m))"
  by (simp_all add: lockd_def push_off_def machine_defs Let_def)

text \<open>The state in which \<open>sleep\<close> switches away.\<close>

definition asleep :: "nat \<Rightarrow> chan \<Rightarrow> machine \<Rightarrow> 'a ptable_scheme \<Rightarrow> 'a ptable_scheme" where
  "asleep p ch m s = upd_proc p (\<lambda>q. q\<lparr>pchan := ch, pstate := SLEEPING\<rparr>)
     (s\<lparr>mach := lockd (ProcLock p) m\<rparr>)"

lemma sleep_ok:
  assumes "mach s = lockd lk m" "mach_ok m" "noff (mycpu m) = 0" "lk \<noteq> ProcLock p"
    "lock_free lk m" "lock_free (ProcLock p) m" "cpu_proc (mycpu m) = Some p"
    and "mach (swtch (asleep p ch m s)) = lockd (ProcLock p) m'" "noff (mycpu m') = 0"
    "lock_free lk m'" "lock_free (ProcLock p) m'"
  shows "sleep swtch ch lk s = Ok (upd_proc p (\<lambda>q. q\<lparr>pchan := NoChan\<rparr>)
    (swtch (asleep p ch m s)\<lparr>mach := lockd lk (resume (intr_get m) m')\<rparr>))"
proof -
  let ?t = "asleep p ch m s"
  have me: "myproc s = Some p" "myproc ?t = Some p"
    using assms(1,7) by (simp_all add: myproc_def asleep_def mycpu_def cpuid_def)
  have "kacquire (ProcLock p) s = Ok (s\<lparr>mach := lockd (ProcLock p) (lockd lk m)\<rparr>)"
    using assms(1,4,6) by (simp add: kacquire_free)
  moreover have "krelease lk (s\<lparr>mach := lockd (ProcLock p) (lockd lk m)\<rparr>) =
      Ok (s\<lparr>mach := lockd (ProcLock p) m\<rparr>)"
    using assms(2,4,5) by (simp add: krelease_def release_lockd_swap)
  moreover have "sched swtch ?t = Ok (swtch ?t\<lparr>mach :=
      upd_cpu (\<lambda>c. c\<lparr>intena := intr_get m\<rparr>) (lockd (ProcLock p) m')\<rparr>)"
    using me assms(3,8) by (simp add: sched_def Let_def) (simp add: asleep_def lockd_simps)
  moreover have "krelease (ProcLock p) (upd_proc p (\<lambda>q. q\<lparr>pchan := NoChan\<rparr>) (swtch ?t\<lparr>mach :=
      upd_cpu (\<lambda>c. c\<lparr>intena := intr_get m\<rparr>) (lockd (ProcLock p) m')\<rparr>)) =
      Ok (upd_proc p (\<lambda>q. q\<lparr>pchan := NoChan\<rparr>) (swtch ?t\<lparr>mach := resume (intr_get m) m'\<rparr>))"
    using assms(9,11) by (simp add: krelease_def release_resume upd_proc_def)
  ultimately show ?thesis
    using me assms(10) by (simp add: sleep_def asleep_def kacquire_free upd_proc_def)
qed

text \<open>
  What the scheduler and a process promise each other at the two context switches of a time slice. \<open>handed i t\<close>: the
  scheduler gives the hart to process \<open>i\<close>, whose lock it holds. \<open>given_back i t t'\<close>: when the process gives the hart
  back, in \<open>sched\<close>, it holds only its own lock, has interrupts off at depth 1, is on the same hart and has changed its
  state. Meanwhile it may have released its lock, woken, created or killed other processes; it did not take a
  runnable process away.
\<close>

definition handed :: "nat \<Rightarrow> 'a ptable_scheme \<Rightarrow> bool" where
  "handed i t \<longleftrightarrow> myproc t = Some i \<and> pstate (procs t i) = RUNNING \<and> holding (ProcLock i) (mach t) \<and>
     noff (mycpu (mach t)) = 1 \<and> \<not> intr_get (mach t)"

definition given_back :: "nat \<Rightarrow> 'a ptable_scheme \<Rightarrow> 'a ptable_scheme \<Rightarrow> bool" where
  "given_back i t t' \<longleftrightarrow> pstate (procs t' i) \<noteq> RUNNING \<and>
     (\<exists>m. mach t' = lockd (ProcLock i) m \<and> noff (mycpu m) = 0 \<and> tp m = tp (mach t) \<and> (\<forall>j < NPROC. lock_free (ProcLock j) m)) \<and>
     (\<forall>j < NPROC. j \<noteq> i \<and> pstate (procs t j) = RUNNABLE \<longrightarrow> pstate (procs t' j) = RUNNABLE)"

lemma mycpu_upd_cpu [simp]: "mycpu (upd_cpu f m) = f (mycpu m)"
  by (simp add: machine_defs)

lemma upd_cpu_simps [simp]: "tp (upd_cpu f m) = tp m" "sie (upd_cpu f m) = sie m" "locks (upd_cpu f m) = locks m"
  by (simp_all add: upd_cpu_def)

lemma upd_cpu_proc_lockd:
  "upd_cpu (\<lambda>c. c\<lparr>cpu_proc := x\<rparr>) (lockd lk m) = lockd lk (upd_cpu (\<lambda>c. c\<lparr>cpu_proc := x\<rparr>) m)"
  by (auto simp: lockd_def push_off_def machine_defs Let_def fun_eq_iff intro!: machine_eqI)

text \<open>The state between two slots of a round.\<close>

definition between_slots :: "'a ptable_scheme \<Rightarrow> bool" where
  "between_slots s \<longleftrightarrow> proc_locks_ok s \<and> noff (mycpu (mach s)) = 0 \<and> myproc s = None"

lemma sched_one_idle:
  assumes "between_slots s" "i < NPROC" "pstate (procs s i) \<noteq> RUNNABLE"
  shows "sched_one swtch i (b, s) = Ok (b, s\<lparr>mach := sync (mach s)\<rparr>)" "between_slots (s\<lparr>mach := sync (mach s)\<rparr>)"
proof -
  have free: "mach_ok (mach s)" "lock_free (ProcLock i) (mach s)" using assms(1,2) by (simp_all add: between_slots_def proc_locks_ok_def)
  show "sched_one swtch i (b, s) = Ok (b, s\<lparr>mach := sync (mach s)\<rparr>)"
    using free assms(3) by (simp add: sched_one_def kacquire_free krelease_lockd)
  show "between_slots (s\<lparr>mach := sync (mach s)\<rparr>)"
    using assms(1) by (simp add: between_slots_def myproc_def) (simp add: sync_def)
qed

lemma sched_one_runs:
  assumes "between_slots s" "i < NPROC" "pstate (procs s i) = RUNNABLE"
    and swtch: "\<And>t. handed i t \<Longrightarrow> given_back i t (swtch t)"
  shows "\<exists>t m. handed i t \<and> (\<exists>m. t = s\<lparr>procs := (procs s)(i := (procs s i)\<lparr>pstate := RUNNING\<rparr>), mach := m\<rparr>) \<and>
    sched_one swtch i (b, s) = Ok (True, swtch t\<lparr>mach := m\<rparr>) \<and> between_slots (swtch t\<lparr>mach := m\<rparr>)"
proof -
  let ?m = "upd_cpu (\<lambda>c. c\<lparr>cpu_proc := Some i\<rparr>) (lockd (ProcLock i) (mach s))"
  let ?t = "s\<lparr>procs := (procs s)(i := (procs s i)\<lparr>pstate := RUNNING\<rparr>), mach := ?m\<rparr>"
  have "mach_ok (mach s)" and free: "lock_free (ProcLock i) (mach s)" and n: "noff (mycpu (mach s)) = 0"
    using assms(1,2) by (simp_all add: between_slots_def proc_locks_ok_def)
  have "holding (ProcLock i) ?m" by (simp add: holding_def cpuid_def)
  moreover have "\<not> intr_get ?m" using lockd_simps(2) [of "ProcLock i" "mach s"] by (simp add: intr_get_def)
  ultimately have h: "handed i ?t" using n by (simp add: handed_def myproc_def lockd_simps)
  then obtain m where m: "mach (swtch ?t) = lockd (ProcLock i) m" "noff (mycpu m) = 0" "\<forall>j < NPROC. lock_free (ProcLock j) m"
    using swtch [OF h] by (auto simp: given_back_def)
  let ?m' = "upd_cpu (\<lambda>c. c\<lparr>cpu_proc := None\<rparr>) m"
  have m': "mach_ok ?m'" "\<forall>j < NPROC. lock_free (ProcLock j) ?m'" using m by (simp_all add: mach_ok_def lock_free_def)
  have "sched_one swtch i (b, s) = Ok (True, swtch ?t\<lparr>mach := sync ?m'\<rparr>)"
    using free assms(2,3) m(1) m' by (simp add: sched_one_def kacquire_free krelease_lockd upd_proc_def upd_cpu_proc_lockd Let_def)
  moreover have "between_slots (swtch ?t\<lparr>mach := sync ?m'\<rparr>)"
    using m(2) m' by (simp add: between_slots_def proc_locks_ok_def myproc_def) (simp add: sync_def)
  ultimately show ?thesis using h by blast
qed

text \<open>The slots \<open>is\<close> of a round. \<open>tr\<close> observes the processes that got the hart; \<open>quiet j\<close> says that no other process
  changes the state of process \<open>j\<close>.\<close>

lemma sched_list_ok:
  assumes "between_slots s" "sorted_wrt (<) is" "set is \<subseteq> {0..<NPROC}"
    and swtch: "\<And>i t. handed i t \<Longrightarrow> given_back i t (swtch t)"
    and tr: "\<And>s ps m. tr (s\<lparr>procs := ps, mach := m\<rparr>) = tr s" "\<And>i t. handed i t \<Longrightarrow> tr (swtch t) = tr t @ [i]"
  shows "\<exists>s' ran. rfold (sched_one swtch) is (b, s) = Ok (b \<or> ran \<noteq> [], s') \<and> between_slots s' \<and> tr s' = tr s @ ran \<and>
    sorted_wrt (<) ran \<and> set ran \<subseteq> set is \<and> (\<forall>i \<in> set is. pstate (procs s i) = RUNNABLE \<longrightarrow> i \<in> set ran) \<and>
    (\<forall>j \<in> set is. (\<forall>i t. i \<noteq> j \<longrightarrow> handed i t \<longrightarrow> pstate (procs (swtch t) j) = pstate (procs t j)) \<longrightarrow>
      j \<in> set ran \<longrightarrow> pstate (procs s j) = RUNNABLE)"
  using assms(1-3)
proof (induction "is" arbitrary: s b)
  case Nil
  then show ?case by simp
next
  case (Cons i "is")
  have i: "i < NPROC" "i \<notin> set is" "sorted_wrt (<) is" "set is \<subseteq> {0..<NPROC}" "\<forall>j \<in> set is. i < j" using Cons.prems(2,3) by auto
  have tm: "tr (s\<lparr>mach := m\<rparr>) = tr s" for s m using tr(1) [where s = s and ps = "procs s" and m = m] by simp
  show ?case
  proof (cases "pstate (procs s i) = RUNNABLE")
    case False
    note idle = sched_one_idle(1) [OF Cons.prems(1) i(1) False, of swtch b] sched_one_idle(2) [OF Cons.prems(1) i(1) False]
    from Cons.IH [OF idle(2) i(3,4), of b] idle(1) i(2) False show ?thesis by (fastforce simp: tm)
  next
    case True
    obtain t m mt where t: "handed i t" "t = s\<lparr>procs := (procs s)(i := (procs s i)\<lparr>pstate := RUNNING\<rparr>), mach := mt\<rparr>"
      "sched_one swtch i (b, s) = Ok (True, swtch t\<lparr>mach := m\<rparr>)" "between_slots (swtch t\<lparr>mach := m\<rparr>)"
      using sched_one_runs [OF Cons.prems(1) i(1) True swtch] by blast
    obtain s' ran where r: "rfold (sched_one swtch) is (True, swtch t\<lparr>mach := m\<rparr>) = Ok (True \<or> ran \<noteq> [], s')" "between_slots s'"
      "tr s' = tr (swtch t\<lparr>mach := m\<rparr>) @ ran" "sorted_wrt (<) ran" "set ran \<subseteq> set is"
      "\<forall>j \<in> set is. pstate (procs (swtch t\<lparr>mach := m\<rparr>) j) = RUNNABLE \<longrightarrow> j \<in> set ran"
      "\<forall>j \<in> set is. (\<forall>i t. i \<noteq> j \<longrightarrow> handed i t \<longrightarrow> pstate (procs (swtch t) j) = pstate (procs t j)) \<longrightarrow>
        j \<in> set ran \<longrightarrow> pstate (procs (swtch t\<lparr>mach := m\<rparr>) j) = RUNNABLE"
      using Cons.IH [OF t(4) i(3,4), of True] by blast
    have "tr t = tr s" unfolding t(2) by (rule tr(1))
    then have "tr s' = tr s @ i # ran" using r(3) tr(2) [OF t(1)] by (simp add: tm)
    moreover have "sorted_wrt (<) (i # ran)" "set (i # ran) \<subseteq> set (i # is)" using r(4,5) i(5) by auto
    moreover have "j \<in> set (i # ran)" if "j \<in> set (i # is)" "pstate (procs s j) = RUNNABLE" for j
      using that r(6) swtch [OF t(1)] t(2) i(2,4) by (cases "j = i") (auto simp: given_back_def)
    moreover have "pstate (procs s j) = RUNNABLE" if "j \<in> set (i # is)" "j \<in> set (i # ran)"
        "\<forall>i t. i \<noteq> j \<longrightarrow> handed i t \<longrightarrow> pstate (procs (swtch t) j) = pstate (procs t j)" for j
    proof (cases "j = i")
      case False
      then have "pstate (procs (swtch t) j) = RUNNABLE" using that r(7) by simp
      moreover have "pstate (procs (swtch t) j) = pstate (procs t j)" using that(3) [rule_format, OF False [symmetric] t(1)] .
      ultimately have "pstate (procs t j) = RUNNABLE" by simp
      then show ?thesis using False by (simp add: t(2))
    qed (simp add: True)
    moreover have "rfold (sched_one swtch) (i # is) (b, s) = Ok (b \<or> i # ran \<noteq> [], s')" using t(3) r(1) by simp
    ultimately show ?thesis using r(2) by blast
  qed
qed

section \<open>A sleeper and a waker\<close>

text \<open>
  Two threads on two harts. The sleeper runs \<open>acquire(lk); while(!cond) sleep(chan, lk);\<close> and the
  waker \<open>acquire(lk); cond = 1; wakeup(chan); release(lk);\<close>. Each rule is the code between two
  lock operations; the sleeper's \<open>p->lock\<close> is released by the scheduler after \<open>sched\<close> has
  switched away, and acquired by the scheduler before it switches back.
\<close>

datatype who = Sleeper | Waker

datatype sleeper_pc = STop | SCheck | SBoth | SProc | SSched | SOff | SBack | SDone
datatype waker_pc = WTop | WLocked | WSet | WProc | WWoke | WDone

record duo =
  spc :: sleeper_pc
  wpc :: waker_pc
  lk_owner :: "who option"
  pl_owner :: "who option"
  cond :: bool
  sl_state :: procstate
  sl_chan :: bool

inductive duo_step :: "duo \<Rightarrow> duo \<Rightarrow> bool" where
  s_acquire: "spc d = STop \<Longrightarrow> lk_owner d = None \<Longrightarrow>
    duo_step d (d\<lparr>spc := SCheck, lk_owner := Some Sleeper\<rparr>)"
| s_leave: "spc d = SCheck \<Longrightarrow> cond d \<Longrightarrow> duo_step d (d\<lparr>spc := SDone, lk_owner := None\<rparr>)"
| s_lock_proc: "spc d = SCheck \<Longrightarrow> \<not> cond d \<Longrightarrow> pl_owner d = None \<Longrightarrow>
    duo_step d (d\<lparr>spc := SBoth, pl_owner := Some Sleeper\<rparr>)"
| s_release: "spc d = SBoth \<Longrightarrow> duo_step d (d\<lparr>spc := SProc, lk_owner := None\<rparr>)"
| s_set: "spc d = SProc \<Longrightarrow> duo_step d (d\<lparr>spc := SSched, sl_chan := True, sl_state := SLEEPING\<rparr>)"
| s_switch: "spc d = SSched \<Longrightarrow> duo_step d (d\<lparr>spc := SOff, pl_owner := None\<rparr>)"
| s_run: "spc d = SOff \<Longrightarrow> sl_state d = RUNNABLE \<Longrightarrow> pl_owner d = None \<Longrightarrow>
    duo_step d (d\<lparr>spc := SBack, pl_owner := Some Sleeper, sl_state := RUNNING\<rparr>)"
| s_resume: "spc d = SBack \<Longrightarrow>
    duo_step d (d\<lparr>spc := STop, pl_owner := None, sl_chan := False\<rparr>)"
| w_acquire: "wpc d = WTop \<Longrightarrow> lk_owner d = None \<Longrightarrow>
    duo_step d (d\<lparr>wpc := WLocked, lk_owner := Some Waker\<rparr>)"
| w_set: "wpc d = WLocked \<Longrightarrow> duo_step d (d\<lparr>wpc := WSet, cond := True\<rparr>)"
| w_lock_proc: "wpc d = WSet \<Longrightarrow> pl_owner d = None \<Longrightarrow>
    duo_step d (d\<lparr>wpc := WProc, pl_owner := Some Waker\<rparr>)"
| w_wake: "wpc d = WProc \<Longrightarrow>
    duo_step d (d\<lparr>wpc := WWoke, pl_owner := None,
      sl_state := (if sl_state d = SLEEPING \<and> sl_chan d then RUNNABLE else sl_state d)\<rparr>)"
| w_release: "wpc d = WWoke \<Longrightarrow> duo_step d (d\<lparr>wpc := WDone, lk_owner := None\<rparr>)"

inductive_cases duo_stepE: "duo_step d e"

definition duo_start :: duo where
  "duo_start = \<lparr>spc = STop, wpc = WTop, lk_owner = None, pl_owner = None, cond = False,
     sl_state = RUNNING, sl_chan = False\<rparr>"

definition duo_reach :: "duo \<Rightarrow> bool" where
  "duo_reach d \<longleftrightarrow> duo_step\<^sup>*\<^sup>* duo_start d"

text \<open>Who holds which lock follows from where the threads are; a sleeping process is asleep on
  the channel; and once the waker has set the condition and is past \<open>wakeup\<close>, no sleeper that
  saw the condition false is still on its way to sleep.\<close>

definition duo_inv :: "duo \<Rightarrow> bool" where
  "duo_inv d \<longleftrightarrow>
     (lk_owner d = Some Sleeper \<longleftrightarrow> spc d \<in> {SCheck, SBoth}) \<and>
     (lk_owner d = Some Waker \<longleftrightarrow> wpc d \<in> {WLocked, WSet, WProc, WWoke}) \<and>
     (pl_owner d = Some Sleeper \<longleftrightarrow> spc d \<in> {SBoth, SProc, SSched, SBack}) \<and>
     (pl_owner d = Some Waker \<longleftrightarrow> wpc d = WProc) \<and>
     (sl_state d = SLEEPING \<longrightarrow> sl_chan d \<and> spc d \<in> {SSched, SOff}) \<and>
     (spc d = SOff \<longrightarrow> sl_state d = SLEEPING \<or> sl_state d = RUNNABLE) \<and>
     (spc d = SSched \<longrightarrow> sl_state d = SLEEPING) \<and>
     (cond d \<longleftrightarrow> wpc d \<notin> {WTop, WLocked}) \<and>
     (wpc d \<in> {WWoke, WDone} \<longrightarrow> spc d \<notin> {SBoth, SProc, SSched} \<and> sl_state d \<noteq> SLEEPING)"

lemma duo_inv_start: "duo_inv duo_start"
  by (simp add: duo_inv_def duo_start_def)

lemma duo_inv_step: "duo_step d e \<Longrightarrow> duo_inv d \<Longrightarrow> duo_inv e"
proof (induction rule: duo_step.induct)
  case (w_wake d)
  then show ?case by (cases "spc d") (auto simp: duo_inv_def)
qed (auto simp: duo_inv_def)

lemma duo_reach_inv: "duo_reach d \<Longrightarrow> duo_inv d"
  unfolding duo_reach_def
  by (induction rule: rtranclp_induct) (auto intro: duo_inv_start duo_inv_step)

text \<open>How far the sleeper still has to go once the waker is done.\<close>

definition sleeper_left :: "duo \<Rightarrow> nat" where
  "sleeper_left d = (case spc d of SDone \<Rightarrow> 0 | SCheck \<Rightarrow> 1 | STop \<Rightarrow> 2 | SBack \<Rightarrow> 3 | SOff \<Rightarrow> 4 | _ \<Rightarrow> 5)"

lemma sleeper_progress:
  assumes "duo_inv d" "wpc d = WDone" "spc d \<noteq> SDone"
  shows "\<exists>e. duo_step d e" and "duo_step d e \<Longrightarrow> sleeper_left e < sleeper_left d \<and> wpc e = WDone"
proof -
  have owners: "lk_owner d \<noteq> Some Waker" "pl_owner d \<noteq> Some Waker"
    using assms(1,2) by (simp_all add: duo_inv_def)
  have free: "lk_owner d = None" if "spc d = STop"
    using owners(1) assms(1) that by (cases "lk_owner d"; cases "the (lk_owner d)") (auto simp: duo_inv_def)
  have pfree: "pl_owner d = None" if "spc d = SOff"
    using owners(2) assms(1) that by (cases "pl_owner d"; cases "the (pl_owner d)") (auto simp: duo_inv_def)
  have "cond d" "spc d \<in> {STop, SCheck, SOff, SBack}" "spc d = SOff \<Longrightarrow> sl_state d = RUNNABLE"
    using assms by (cases "spc d"; simp add: duo_inv_def)+
  then show "\<exists>e. duo_step d e"
    using free pfree by (auto intro: duo_step.intros)
  assume "duo_step d e"
  then show "sleeper_left e < sleeper_left d \<and> wpc e = WDone"
    by (rule duo_stepE) (use assms \<open>cond d\<close> \<open>spc d \<in> _\<close> in \<open>simp_all add: sleeper_left_def\<close>)
qed

section \<open>Properties\<close>

text \<open>C12. No wakeup is lost: in every reachable state in which the waker has finished, the sleeper
  is not asleep; until it has seen the condition it can always take a step, and each step
  brings it closer to leaving its loop, so it leaves.\<close>

theorem no_lost_wakeup:
  assumes "duo_reach d" and "wpc d = WDone"
  shows "sl_state d \<noteq> SLEEPING \<and> cond d \<and>
    (spc d = SDone \<or>
      (\<exists>e. duo_step d e) \<and> (\<forall>e. duo_step d e \<longrightarrow> sleeper_left e < sleeper_left d \<and> wpc e = WDone))"
proof -
  have inv: "duo_inv d" by (rule duo_reach_inv [OF assms(1)])
  then have "sl_state d \<noteq> SLEEPING" "cond d" using assms(2) by (simp_all add: duo_inv_def)
  moreover have "spc d = SDone \<or> (\<exists>e. duo_step d e)"
    "spc d = SDone \<or> (\<forall>e. duo_step d e \<longrightarrow> sleeper_left e < sleeper_left d \<and> wpc e = WDone)"
    using sleeper_progress [OF inv assms(2)] by blast+
  ultimately show ?thesis by blast
qed

definition duo_woken :: duo where
  "duo_woken = \<lparr>spc = SOff, wpc = WDone, lk_owner = None, pl_owner = None, cond = True,
     sl_state = RUNNABLE, sl_chan = True\<rparr>"

lemma duo_woken_reach: "duo_reach duo_woken"
proof -
  note tr = rtranclp.rtrancl_into_rtrancl
  note step = duo_step.s_acquire duo_step.s_lock_proc duo_step.s_release duo_step.s_set duo_step.s_switch
    duo_step.w_acquire duo_step.w_set duo_step.w_lock_proc duo_step.w_wake duo_step.w_release
  have "duo_step\<^sup>*\<^sup>* duo_start duo_start" by simp
  from tr [OF tr [OF tr [OF tr [OF tr [OF this step(1)] step(2)] step(3)] step(4)] step(5)]
  have "duo_step\<^sup>*\<^sup>* duo_start (duo_start\<lparr>spc := SOff, sl_chan := True, sl_state := SLEEPING\<rparr>)"
    by (simp add: duo_start_def)
  from tr [OF tr [OF tr [OF tr [OF tr [OF this step(6)] step(7)] step(8)] step(9)] step(10)]
  show ?thesis by (simp add: duo_start_def duo_woken_def duo_reach_def)
qed

theorem no_lost_wakeup_witness: "sl_state duo_woken \<noteq> SLEEPING \<and> (\<exists>e. duo_step duo_woken e)"
  using no_lost_wakeup [OF duo_woken_reach] by (simp add: duo_woken_def)

text \<open>C20. \<open>wakeup\<close> makes exactly the processes that sleep on its channel runnable, the caller
  excepted; it changes nothing else and leaves all locks as they were.\<close>

theorem wakeup_exact:
  assumes "proc_locks_ok s"
  shows "\<exists>s'. wakeup ch s = Ok s' \<and> locks (mach s') = locks (mach s) \<and> mem s' = mem s \<and>
    (\<forall>i. procs s' i =
      (if i < NPROC \<and> Some i \<noteq> myproc s \<and> pstate (procs s i) = SLEEPING \<and> pchan (procs s i) = ch
       then (procs s i)\<lparr>pstate := RUNNABLE\<rparr> else procs s i))"
  using wakeup_ok [OF assms, of ch] by (auto simp: woken_def)

text \<open>A process table for the examples: process 0 runs, 1 sleeps on \<open>ChTicks\<close>, the other slots
  are unused.\<close>

definition proc_ex :: proc where
  "proc_ex = \<lparr>pstate = UNUSED, pchan = NoChan, pkilled = 0, xstate = 0, pid = 0, parent = None,
     kstack = 0, sz = 0, pagetable = 0, trapframe = 0,
     pcontext = \<lparr>ctx_ra = 0, ctx_sp = 0, ctx_s = (\<lambda>_. 0)\<rparr>, ofile = (\<lambda>_. None), cwd = None, pname = []\<rparr>"

definition ptable_ex :: ptable where
  "ptable_ex = kmem.extend kmem_ex \<lparr>procs = (\<lambda>i. if i = 0 then proc_ex\<lparr>pstate := RUNNING, pid := 1\<rparr>
       else if i = 1 then proc_ex\<lparr>pstate := SLEEPING, pchan := ChTicks, pid := 2\<rparr> else proc_ex),
     nextpid = 3, initproc = Some 0\<rparr>"

lemma ptable_ex_simps [simp]:
  "mach ptable_ex = mach_ex" "procs ptable_ex 0 = proc_ex\<lparr>pstate := RUNNING, pid := 1\<rparr>"
  "procs ptable_ex (Suc 0) = proc_ex\<lparr>pstate := SLEEPING, pchan := ChTicks, pid := 2\<rparr>"
  "1 < i \<Longrightarrow> procs ptable_ex i = proc_ex" "myproc ptable_ex = None"
  by (simp_all add: ptable_ex_def kmem.defs kmem_ex_def myproc_def machine_defs mach_ex_def)

lemma ptable_ex_ok: "proc_locks_ok ptable_ex"
  by (simp add: proc_locks_ok_def mach_ex_ok)

theorem wakeup_exact_witness:
  "\<exists>s'. wakeup ChTicks ptable_ex = Ok s' \<and> pstate (procs s' 1) = RUNNABLE \<and> pstate (procs s' 0) = RUNNING"
  using wakeup_exact [OF ptable_ex_ok, of ChTicks] by (auto simp: NPROC_def)

text \<open>C21. \<open>kkill\<close> returns 0 exactly when some slot of the table has the given pid; then the first
  such slot is marked as killed, and made runnable if it was asleep, and no other slot changes.
  Otherwise it returns -1 and changes no slot.\<close>

theorem kkill_exact:
  assumes "proc_locks_ok s"
  shows "\<exists>r s'. kkill k s = Ok (r, s') \<and> locks (mach s') = locks (mach s) \<and>
    (case find (\<lambda>i. pid (procs s i) = k) [0..<NPROC] of
       None \<Rightarrow> r = -1 \<and> procs s' = procs s
     | Some i \<Rightarrow> r = 0 \<and> procs s' = (procs s)(i := (procs s i)\<lparr>pkilled := 1,
         pstate := (if pstate (procs s i) = SLEEPING then RUNNABLE else pstate (procs s i))\<rparr>))"
proof -
  have "kkill k s = (case find (\<lambda>i. pid (procs s i) = k) [0..<NPROC] of
       None \<Rightarrow> Ok (-1, s\<lparr>mach := sync (mach s)\<rparr>)
     | Some i \<Rightarrow> Ok (0, upd_proc i kill_proc (s\<lparr>mach := sync (mach s)\<rparr>)))"
    unfolding kkill_def by (rule kkill_from_ok [OF assms]) (simp_all add: NPROC_def)
  then show ?thesis by (auto simp: upd_proc_def kill_proc_def split: option.splits)
qed

theorem kkill_exact_witness:
  "\<exists>s'. kkill 2 ptable_ex = Ok (0, s') \<and> pkilled (procs s' 1) = 1 \<and> pstate (procs s' 1) = RUNNABLE"
proof -
  have "[0..<NPROC] = 0 # 1 # [2..<NPROC]" by (simp add: upt_rec NPROC_def)
  then have "find (\<lambda>i. pid (procs ptable_ex i) = 2) [0..<NPROC] = Some 1" by simp
  then show ?thesis using kkill_exact [OF ptable_ex_ok, of 2] by auto
qed

text \<open>C23. Killing pid 0: since free slots have pid 0, \<open>kkill(0)\<close> succeeds when a slot is free and
  marks the first free slot as killed, although no process has that pid.\<close>

theorem kkill_zero_marks_free_slot:
  assumes "proc_locks_ok s" and "i < NPROC" and "pid (procs s i) = 0" and "pstate (procs s i) = UNUSED"
    and "\<forall>j < i. pid (procs s j) \<noteq> 0"
  shows "\<exists>s'. kkill 0 s = Ok (0, s') \<and> pkilled (procs s' i) = 1 \<and> pstate (procs s' i) = UNUSED"
proof -
  have "find (\<lambda>i. pid (procs s i) = 0) [0..<NPROC] = Some i"
    using assms(2,3,5) by (auto simp: find_Some_iff intro!: exI [of _ i])
  moreover have "kkill 0 s = (case find (\<lambda>i. pid (procs s i) = 0) [0..<NPROC] of
       None \<Rightarrow> Ok (-1, s\<lparr>mach := sync (mach s)\<rparr>)
     | Some i \<Rightarrow> Ok (0, upd_proc i kill_proc (s\<lparr>mach := sync (mach s)\<rparr>)))"
    unfolding kkill_def by (rule kkill_from_ok [OF assms(1)]) (simp_all add: NPROC_def)
  ultimately show ?thesis using assms(4) by (simp add: kill_proc_def)
qed

theorem kkill_zero_marks_free_slot_witness:
  "\<exists>s'. kkill 0 ptable_ex = Ok (0, s') \<and> pkilled (procs s' 2) = 1 \<and> pstate (procs s' 2) = UNUSED"
  by (rule kkill_zero_marks_free_slot [OF ptable_ex_ok])
     (auto simp: NPROC_def proc_ex_def less_Suc_eq numeral_2_eq_2)


text \<open>C15. Sleeping: called with only the condition lock \<open>lk\<close> held, \<open>sleep\<close> gives up the hart in a
  state in which the process is asleep on the channel, \<open>lk\<close> is free and \<open>p->lock\<close> is held. When
  the process runs again, possibly on another hart, \<open>sleep\<close> returns with \<open>lk\<close> held by that hart,
  with \<open>p->lock\<close> free and the channel cleared, and with the interrupt state the caller had
  before it took \<open>lk\<close>.\<close>

theorem sleep_contract:
  assumes "mach s = lockd lk m" "mach_ok m" "noff (mycpu m) = 0" "lk \<noteq> ProcLock p"
    "lock_free lk m" "lock_free (ProcLock p) m" "cpu_proc (mycpu m) = Some p"
    and "\<And>t. swtch t = (env t)\<lparr>mach := lockd (ProcLock p) m'\<rparr>" "noff (mycpu m') = 0"
    "lock_free lk m'" "lock_free (ProcLock p) m'"
  shows "\<exists>t s'. sleep swtch ch lk s = Ok s' \<and>
    pstate (procs t p) = SLEEPING \<and> pchan (procs t p) = ch \<and> lock_free lk (mach t) \<and>
    holding (ProcLock p) (mach t) \<and>
    tp (mach s') = tp m' \<and> holding lk (mach s') \<and> lock_free (ProcLock p) (mach s') \<and>
    intena (mycpu (mach s')) = intr_get m \<and> pchan (procs s' p) = NoChan \<and>
    (\<forall>i. i \<noteq> p \<longrightarrow> procs s' i = procs (swtch t) i)"
proof -
  let ?t = "asleep p ch m s" and ?i = "intr_get m"
  let ?s' = "upd_proc p (\<lambda>q. q\<lparr>pchan := NoChan\<rparr>) (swtch ?t\<lparr>mach := lockd lk (resume ?i m')\<rparr>)"
  have "mach (swtch ?t) = lockd (ProcLock p) m'" using assms(8) by simp
  then have "sleep swtch ch lk s = Ok ?s'" using assms(1-7,9-11) by (intro sleep_ok)
  moreover have "lock_free lk (mach ?t)" "holding (ProcLock p) (mach ?t)"
    using assms(4,5) by (simp_all add: asleep_def)
  moreover have "intena (mycpu (mach ?s')) = ?i"
    using assms(9) by (simp add: lockd_simps intr_get_def)
  ultimately show ?thesis
    using assms(4,11) by (intro exI [of _ ?t] exI [of _ ?s']) (simp add: asleep_def)
qed

definition mach_run :: "nat \<Rightarrow> machine" where
  "mach_run c = mach_ex\<lparr>tp := c, cpus := (\<lambda>_. \<lparr>cpu_proc = Some 0, noff = 0, intena = False\<rparr>)\<rparr>"

theorem sleep_contract_witness:
  "\<exists>s'. sleep (\<lambda>t. t\<lparr>mach := lockd (ProcLock 0) (mach_run 1)\<rparr>) ChTicks TicksLock
      (ptable_ex\<lparr>mach := lockd TicksLock (mach_run 0)\<rparr>) = Ok s' \<and>
    tp (mach s') = 1 \<and> holding TicksLock (mach s')"
proof -
  have run: "mach_ok (mach_run c)" "noff (mycpu (mach_run c)) = 0" "lock_free lk (mach_run c)"
    "cpu_proc (mycpu (mach_run c)) = Some 0" "tp (mach_run c) = c" for c lk
    by (simp_all add: mach_run_def mach_ex_def mach_ok_def lock_free_def machine_defs)
  show ?thesis
    using sleep_contract [of "ptable_ex\<lparr>mach := lockd TicksLock (mach_run 0)\<rparr>" TicksLock "mach_run 0" 0
        "\<lambda>t. t\<lparr>mach := lockd (ProcLock 0) (mach_run 1)\<rparr>" "mach_run 1" "\<lambda>t. t" ChTicks]
    by (auto simp: run)
qed

text \<open>C14. Round-robin: whatever the processes do with the hart, one round of the scheduler gives it to every process
  that is runnable at its start, to each process at most once and in the order of the table, and reports whether it ran
  one; no process lock stays held. A process whose state no other one changes is run only if it was
  runnable. The processes keep the protocol of \<open>sched\<close> (\<open>given_back\<close>), and a runnable process is not
  taken away by another hart during the round. \<open>tr\<close> stands for any record of the processes that got the hart.\<close>

theorem sched_round_runs_each:
  assumes "proc_locks_ok s" "noff (mycpu (mach s)) = 0" "myproc s = None"
    and "\<And>i t. handed i t \<Longrightarrow> given_back i t (swtch t)"
    and "\<And>s ps m. tr (s\<lparr>procs := ps, mach := m\<rparr>) = tr s" "\<And>i t. handed i t \<Longrightarrow> tr (swtch t) = tr t @ [i]"
  shows "\<exists>s' ran. sched_round swtch s = Ok (ran \<noteq> [], s') \<and> tr s' = tr s @ ran \<and> sorted_wrt (<) ran \<and>
    proc_locks_ok s' \<and> myproc s' = None \<and> set ran \<subseteq> {0..<NPROC} \<and>
    (\<forall>i < NPROC. pstate (procs s i) = RUNNABLE \<longrightarrow> i \<in> set ran) \<and>
    (\<forall>j \<in> set ran. (\<forall>i t. i \<noteq> j \<longrightarrow> handed i t \<longrightarrow> pstate (procs (swtch t) j) = pstate (procs t j)) \<longrightarrow>
      pstate (procs s j) = RUNNABLE)"
proof -
  let ?s = "s\<lparr>mach := intr_off (intr_on (mach s))\<rparr>"
  have b: "between_slots ?s"
    using assms(1-3) by (simp add: between_slots_def proc_locks_ok_def mach_ok_def lock_free_def myproc_def machine_defs)
  have "tr ?s = tr s" using assms(5) [where s = s and ps = "procs s"] by simp
  moreover have "sorted_wrt (<) [0..<NPROC]" "set [0..<NPROC] \<subseteq> {0..<NPROC}" by simp_all
  from sched_list_ok [OF b this assms(4-6), of False] obtain s' ran where
    "rfold (sched_one swtch) [0..<NPROC] (False, ?s) = Ok (ran \<noteq> [], s')" "between_slots s'" "tr s' = tr ?s @ ran"
    "sorted_wrt (<) ran" "set ran \<subseteq> set [0..<NPROC]" "\<forall>i \<in> set [0..<NPROC]. pstate (procs ?s i) = RUNNABLE \<longrightarrow> i \<in> set ran"
    "\<forall>j \<in> set [0..<NPROC]. (\<forall>i t. i \<noteq> j \<longrightarrow> handed i t \<longrightarrow> pstate (procs (swtch t) j) = pstate (procs t j)) \<longrightarrow>
      j \<in> set ran \<longrightarrow> pstate (procs ?s j) = RUNNABLE"
    by auto
  ultimately show ?thesis by (intro exI [of _ s'] exI [of _ ran]) (auto simp: sched_round_def between_slots_def)
qed

text \<open>A process that notes that it ran, wakes process 2 and goes to sleep.\<close>

definition swtch_ex :: "nat list ptable_scheme \<Rightarrow> nat list ptable_scheme" where
  "swtch_ex t = (case myproc t of
     None \<Rightarrow> t
   | Some i \<Rightarrow> t\<lparr>mach := lockd (ProcLock i) (mach_ex\<lparr>tp := tp (mach t)\<rparr>), ptable.more := ptable.more t @ [i],
       procs := (procs t)(2 := (procs t 2)\<lparr>pstate := RUNNABLE\<rparr>, i := (procs t i)\<lparr>pstate := SLEEPING\<rparr>)\<rparr>)"

lemma swtch_ex_ok:
  assumes "handed i t"
  shows "given_back i t (swtch_ex t)" "ptable.more (swtch_ex t) = ptable.more t @ [i]"
  using assms by (auto simp: handed_def given_back_def swtch_ex_def lock_free_def mach_ex_def machine_defs
      intro!: exI [of _ "mach_ex\<lparr>tp := tp (mach t)\<rparr>"])

theorem sched_round_runs_each_witness:
  "\<exists>s' ran. sched_round swtch_ex (ptable.extend (upd_proc 1 (\<lambda>p. p\<lparr>pstate := RUNNABLE\<rparr>) ptable_ex) []) = Ok (True, s') \<and>
     ptable.more s' = ran \<and> 1 \<in> set ran \<and> distinct ran"
proof -
  let ?s = "ptable.extend (upd_proc 1 (\<lambda>p. p\<lparr>pstate := RUNNABLE\<rparr>) ptable_ex) ([] :: nat list)"
  have h: "proc_locks_ok ?s" "noff (mycpu (mach ?s)) = 0" "myproc ?s = None"
    using ptable_ex_ok by (simp_all add: proc_locks_ok_def mach_ex_def machine_defs myproc_def ptable.defs)
  have "pstate (procs ?s 1) = RUNNABLE" "1 < NPROC" by (simp_all add: ptable.defs NPROC_def)
  moreover obtain s' ran where "sched_round swtch_ex ?s = Ok (ran \<noteq> [], s')" "ptable.more s' = ptable.more ?s @ ran"
    "sorted_wrt (<) ran" "\<forall>i < NPROC. pstate (procs ?s i) = RUNNABLE \<longrightarrow> i \<in> set ran"
    using sched_round_runs_each [where swtch = swtch_ex and tr = ptable.more, OF h swtch_ex_ok(1) _ swtch_ex_ok(2)] by auto
  ultimately show ?thesis by (intro exI [of _ s'] exI [of _ ran]) (auto simp: ptable.defs strict_sorted_iff)
qed

end
