(* ===== verification/Vm.thy ===== *)
theory Vm
  imports Proc
begin

text \<open>
  Virtual memory, \<^verbatim>\<open>kernel/vm.c\<close>, with the functions of \<^verbatim>\<open>kernel/proc.c\<close> that only build, size
  and copy user address spaces. Page tables are the three-level trees of 4096-byte pages that
  the hardware walks, kept in the bytes of physical memory; \<open>walk\<close> follows and extends them as
  the source does. Kernel variables a copy reads or fills are byte lists: \<open>copyout\<close> gets the
  bytes, \<open>copyin\<close> returns those it stored at \<open>dst\<close>, on failure the ones stored so far.
\<close>

section \<open>Page tables\<close>

fun walk_levels :: "nat \<Rightarrow> u64 \<Rightarrow> u64 \<Rightarrow> bool \<Rightarrow> 'a kmem_scheme \<Rightarrow> (u64 \<times> 'a kmem_scheme) res" where
  "walk_levels 0 pt va alloc s = Ok (pt + 8 * PX 0 va, s)"
| "walk_levels (Suc l) pt va alloc s =
     (let pte = pt + 8 * PX (Suc l) va; v = load64 (mem s) pte
      in if v AND PTE_V \<noteq> 0 then walk_levels l (PTE2PA v) va alloc s
         else if \<not> alloc then Ok (0, s)
         else rbind (kalloc s) (\<lambda>(pg, s1).
           if pg = 0 then Ok (0, s1)
           else walk_levels l pg va alloc
             (s1\<lparr>mem := store64 (memset (mem s1) pg 0 4096) pte (PA2PTE pg OR PTE_V)\<rparr>)))"

definition walk :: "u64 \<Rightarrow> u64 \<Rightarrow> bool \<Rightarrow> 'a kmem_scheme \<Rightarrow> (u64 \<times> 'a kmem_scheme) res" where
  "walk pt va alloc s = (if va \<ge> MAXVA then Panic ''walk'' else walk_levels 2 pt va alloc s)"

definition walkaddr :: "u64 \<Rightarrow> u64 \<Rightarrow> 'a kmem_scheme \<Rightarrow> (u64 \<times> 'a kmem_scheme) res" where
  "walkaddr pt va s =
     (if va \<ge> MAXVA then Ok (0, s)
      else rbind (walk pt va False s) (\<lambda>(pte, s1).
        if pte = 0 then Ok (0, s1)
        else let v = load64 (mem s1) pte
             in if v AND PTE_V = 0 then Ok (0, s1)
                else if v AND PTE_U = 0 then Ok (0, s1)
                else Ok (PTE2PA v, s1)))"

lemma walk_Ok_less: "walk pt va alloc s = Ok r \<Longrightarrow> unat va < 2 ^ 38"
  by (auto simp: walk_def layout_simps word_le_nat_alt split: if_splits)

lemma unat_add_PGSIZE: "unat a < 2 ^ 38 \<Longrightarrow> unat (a + PGSIZE) = unat a + 4096"
  using unat_add_of_nat [of a 4096] by (simp add: PGSIZE_def)

text \<open>The loop of \<open>mappages\<close>: it ends at \<open>last\<close> (\<open>a_last\<close> here), without memory, or when \<open>walk\<close> panics at
  \<open>MAXVA\<close>.\<close>

function mappages_loop :: "u64 \<Rightarrow> u64 \<Rightarrow> u64 \<Rightarrow> u64 \<Rightarrow> u64 \<Rightarrow> 'a kmem_scheme \<Rightarrow> (int \<times> 'a kmem_scheme) res" where
  "mappages_loop pt a a_last pa perm s =
     rbind (walk pt a True s) (\<lambda>(pte, s1).
       if pte = 0 then Ok (-1, s1)
       else if load64 (mem s1) pte AND PTE_V \<noteq> 0 then Panic ''mappages: remap''
       else let s2 = s1\<lparr>mem := store64 (mem s1) pte (PA2PTE pa OR perm OR PTE_V)\<rparr>
            in if a = a_last then Ok (0, s2)
               else mappages_loop pt (a + PGSIZE) a_last (pa + PGSIZE) perm s2)"
  by pat_completeness auto
termination
  by (relation "measure (\<lambda>(pt, a, a_last, pa, perm, s). 2 ^ 64 - unat a)")
     (auto dest!: walk_Ok_less simp: unat_add_PGSIZE)

declare mappages_loop.simps [simp del]

definition mappages :: "u64 \<Rightarrow> u64 \<Rightarrow> u64 \<Rightarrow> u64 \<Rightarrow> u64 \<Rightarrow> 'a kmem_scheme \<Rightarrow> (int \<times> 'a kmem_scheme) res" where
  "mappages pt va nbytes pa perm s =
     (if va mod PGSIZE \<noteq> 0 then Panic ''mappages: va not aligned''
      else if nbytes mod PGSIZE \<noteq> 0 then Panic ''mappages: size not aligned''
      else if nbytes = 0 then Panic ''mappages: size''
      else mappages_loop pt va (va + nbytes - PGSIZE) pa perm s)"

definition uvmcreate :: "'a kmem_scheme \<Rightarrow> (u64 \<times> 'a kmem_scheme) res" where
  "uvmcreate s = rbind (kalloc s) (\<lambda>(pg, s1).
     if pg = 0 then Ok (0, s1) else Ok (pg, s1\<lparr>mem := memset (mem s1) pg 0 4096\<rparr>))"

text \<open>The body of the loop of \<open>uvmunmap\<close>, and the loop; \<open>e\<close> is \<open>va + npages*PGSIZE\<close>.\<close>

definition uvmunmap1 :: "u64 \<Rightarrow> u64 \<Rightarrow> bool \<Rightarrow> 'a kmem_scheme \<Rightarrow> 'a kmem_scheme res" where
  "uvmunmap1 pt a do_free s =
     rbind (walk pt a False s) (\<lambda>(pte, s1).
       if pte = 0 then Ok s1
       else let v = load64 (mem s1) pte
            in if v AND PTE_V = 0 then Ok s1
               else rbind (if do_free then kfree (PTE2PA v) s1 else Ok s1) (\<lambda>s2.
                 Ok (s2\<lparr>mem := store64 (mem s2) pte 0\<rparr>)))"

lemma uvmunmap1_Ok_less: "uvmunmap1 pt a f s = Ok r \<Longrightarrow> unat a < 2 ^ 38"
  by (auto simp: uvmunmap1_def dest: walk_Ok_less)

function uvmunmap_loop :: "u64 \<Rightarrow> u64 \<Rightarrow> u64 \<Rightarrow> bool \<Rightarrow> 'a kmem_scheme \<Rightarrow> 'a kmem_scheme res" where
  "uvmunmap_loop pt a e do_free s =
     (if a < e then rbind (uvmunmap1 pt a do_free s) (uvmunmap_loop pt (a + PGSIZE) e do_free)
      else Ok s)"
  by pat_completeness auto
termination
  by (relation "measure (\<lambda>(pt, a, e, f, s). 2 ^ 64 - unat a)")
     (auto dest!: uvmunmap1_Ok_less simp: unat_add_PGSIZE)

declare uvmunmap_loop.simps [simp del]

definition uvmunmap :: "u64 \<Rightarrow> u64 \<Rightarrow> u64 \<Rightarrow> bool \<Rightarrow> 'a kmem_scheme \<Rightarrow> 'a kmem_scheme res" where
  "uvmunmap pt va npages do_free s =
     (if va mod PGSIZE \<noteq> 0 then Panic ''uvmunmap: not aligned''
      else uvmunmap_loop pt va (va + npages * PGSIZE) do_free s)"

text \<open>\<open>npages\<close> is an \<open>int\<close> in \<open>uvmdealloc\<close> and converted back for \<open>uvmunmap\<close>.\<close>

definition uvmdealloc :: "u64 \<Rightarrow> u64 \<Rightarrow> u64 \<Rightarrow> 'a kmem_scheme \<Rightarrow> (u64 \<times> 'a kmem_scheme) res" where
  "uvmdealloc pt oldsz newsz s =
     (if newsz \<ge> oldsz then Ok (oldsz, s)
      else if PGROUNDUP newsz < PGROUNDUP oldsz
      then let npages = (ucast ((PGROUNDUP oldsz - PGROUNDUP newsz) div PGSIZE) :: u32)
           in rbind (uvmunmap pt (PGROUNDUP newsz) (scast npages) True s) (\<lambda>s1. Ok (newsz, s1))
      else Ok (newsz, s))"

text \<open>The loop body of \<open>uvmalloc\<close> after the check of \<open>a\<close>; \<open>Inl\<close> is an early return.\<close>

definition uvmalloc1 :: "u64 \<Rightarrow> u64 \<Rightarrow> u64 \<Rightarrow> u64 \<Rightarrow> 'a kmem_scheme \<Rightarrow>
    (u64 \<times> 'a kmem_scheme + 'a kmem_scheme) res" where
  "uvmalloc1 pt oldsz a xperm s =
     rbind (kalloc s) (\<lambda>(pg, s1).
       if pg = 0 then rbind (uvmdealloc pt a oldsz s1) (\<lambda>(_, s2). Ok (Inl (0, s2)))
       else rbind (mappages pt a PGSIZE pg (PTE_R OR PTE_U OR xperm)
                    (s1\<lparr>mem := memset (mem s1) pg 0 4096\<rparr>)) (\<lambda>(r, s2).
         if r \<noteq> 0
         then rbind (kfree pg s2) (\<lambda>s3.
              rbind (uvmdealloc pt a oldsz s3) (\<lambda>(_, s4). Ok (Inl (0, s4))))
         else Ok (Inr s2)))"

lemma mappages_Ok_less: "mappages pt va nbytes pa perm s = Ok r \<Longrightarrow> unat va < 2 ^ 38"
  by (auto simp: mappages_def mappages_loop.simps [of pt va] dest: walk_Ok_less split: if_splits)

lemma uvmalloc1_Inr_less: "uvmalloc1 pt oldsz a xperm s = Ok (Inr s') \<Longrightarrow> unat a < 2 ^ 38"
  by (auto simp: uvmalloc1_def dest: mappages_Ok_less split: if_splits)

function uvmalloc_loop :: "u64 \<Rightarrow> u64 \<Rightarrow> u64 \<Rightarrow> u64 \<Rightarrow> u64 \<Rightarrow> 'a kmem_scheme \<Rightarrow> (u64 \<times> 'a kmem_scheme) res" where
  "uvmalloc_loop pt oldsz a newsz xperm s =
     (if a < newsz
      then rbind (uvmalloc1 pt oldsz a xperm s) (\<lambda>r. case r of
          Inl ret \<Rightarrow> Ok ret
        | Inr s1 \<Rightarrow> uvmalloc_loop pt oldsz (a + PGSIZE) newsz xperm s1)
      else Ok (newsz, s))"
  by pat_completeness auto
termination
  by (relation "measure (\<lambda>(pt, oldsz, a, newsz, xperm, s). 2 ^ 64 - unat a)")
     (auto dest!: uvmalloc1_Inr_less simp: unat_add_PGSIZE)

declare uvmalloc_loop.simps [simp del]

definition uvmalloc :: "u64 \<Rightarrow> u64 \<Rightarrow> u64 \<Rightarrow> u64 \<Rightarrow> 'a kmem_scheme \<Rightarrow> (u64 \<times> 'a kmem_scheme) res" where
  "uvmalloc pt oldsz newsz xperm s =
     (if newsz < oldsz then Ok (oldsz, s)
      else uvmalloc_loop pt (PGROUNDUP oldsz) (PGROUNDUP oldsz) newsz xperm s)"

text \<open>\<open>freewalk\<close> recurses through the table's own contents. The number is the depth it may
  descend; a table built by \<open>walk\<close> has three levels and its lowest entries are leaves.\<close>

fun freewalk_depth :: "nat \<Rightarrow> u64 \<Rightarrow> 'a kmem_scheme \<Rightarrow> 'a kmem_scheme res" where
  "freewalk_depth 0 pt s = Blocked"
| "freewalk_depth (Suc d) pt s =
     rbind (rfold (\<lambda>i s1.
        let pte = load64 (mem s1) (pt + 8 * of_nat i)
        in if pte AND PTE_V \<noteq> 0 \<and> pte AND (PTE_R OR PTE_W OR PTE_X) = 0
           then rbind (freewalk_depth d (PTE2PA pte) s1) (\<lambda>s2.
             Ok (s2\<lparr>mem := store64 (mem s2) (pt + 8 * of_nat i) 0\<rparr>))
           else if pte AND PTE_V \<noteq> 0 then Panic ''freewalk: leaf''
           else Ok s1) [0..<512] s)
     (kfree pt)"

definition freewalk :: "u64 \<Rightarrow> 'a kmem_scheme \<Rightarrow> 'a kmem_scheme res" where
  "freewalk pt s = freewalk_depth 3 pt s"

definition uvmfree :: "u64 \<Rightarrow> u64 \<Rightarrow> 'a kmem_scheme \<Rightarrow> 'a kmem_scheme res" where
  "uvmfree pt usz s =
     rbind (if usz > 0 then uvmunmap pt 0 (PGROUNDUP usz div PGSIZE) True s else Ok s) (freewalk pt)"

text \<open>The loop body of \<open>uvmcopy\<close>; \<open>Inl\<close> is the jump to \<open>err\<close>.\<close>

definition uvmcopy1 :: "u64 \<Rightarrow> u64 \<Rightarrow> u64 \<Rightarrow> 'a kmem_scheme \<Rightarrow> ('a kmem_scheme + 'a kmem_scheme) res" where
  "uvmcopy1 old new i s =
     rbind (walk old i False s) (\<lambda>(pte, s1).
       if pte = 0 then Ok (Inr s1)
       else let v = load64 (mem s1) pte; pa = PTE2PA v; flags = PTE_FLAGS v
            in if v AND PTE_V = 0 then Ok (Inr s1)
               else rbind (kalloc s1) (\<lambda>(pg, s2).
                 if pg = 0 then Ok (Inl s2)
                 else rbind (mappages new i PGSIZE pg flags (s2\<lparr>mem := memmove (mem s2) pg pa 4096\<rparr>))
                   (\<lambda>(r, s3). if r \<noteq> 0 then rbind (kfree pg s3) (\<lambda>s4. Ok (Inl s4)) else Ok (Inr s3))))"

lemma uvmcopy1_Ok_less: "uvmcopy1 old new i s = Ok r \<Longrightarrow> unat i < 2 ^ 38"
  by (auto simp: uvmcopy1_def dest: walk_Ok_less)

function uvmcopy_loop :: "u64 \<Rightarrow> u64 \<Rightarrow> u64 \<Rightarrow> u64 \<Rightarrow> 'a kmem_scheme \<Rightarrow> (int \<times> 'a kmem_scheme) res" where
  "uvmcopy_loop old new i usz s =
     (if i < usz
      then rbind (uvmcopy1 old new i s) (\<lambda>r. case r of
          Inl s1 \<Rightarrow> rbind (uvmunmap new 0 (i div PGSIZE) True s1) (\<lambda>s2. Ok (-1, s2))
        | Inr s1 \<Rightarrow> uvmcopy_loop old new (i + PGSIZE) usz s1)
      else Ok (0, s))"
  by pat_completeness auto
termination
  by (relation "measure (\<lambda>(old, new, i, usz, s). 2 ^ 64 - unat i)")
     (auto dest!: uvmcopy1_Ok_less simp: unat_add_PGSIZE)

declare uvmcopy_loop.simps [simp del]

definition uvmcopy :: "u64 \<Rightarrow> u64 \<Rightarrow> u64 \<Rightarrow> 'a kmem_scheme \<Rightarrow> (int \<times> 'a kmem_scheme) res" where
  "uvmcopy old new usz s = uvmcopy_loop old new 0 usz s"

definition uvmclear :: "u64 \<Rightarrow> u64 \<Rightarrow> 'a kmem_scheme \<Rightarrow> 'a kmem_scheme res" where
  "uvmclear pt va s = rbind (walk pt va False s) (\<lambda>(pte, s1).
     if pte = 0 then Panic ''uvmclear''
     else Ok (s1\<lparr>mem := store64 (mem s1) pte (load64 (mem s1) pte AND NOT PTE_U)\<rparr>))"

definition ismapped :: "u64 \<Rightarrow> u64 \<Rightarrow> 'a kmem_scheme \<Rightarrow> (bool \<times> 'a kmem_scheme) res" where
  "ismapped pt va s = rbind (walk pt va False s) (\<lambda>(pte, s1).
     if pte = 0 then Ok (False, s1) else Ok (load64 (mem s1) pte AND PTE_V \<noteq> 0, s1))"

section \<open>Copying between kernel and user memory\<close>

definition vmfault :: "u64 \<Rightarrow> u64 \<Rightarrow> 'a ptable_scheme \<Rightarrow> (u64 \<times> 'a ptable_scheme) res" where
  "vmfault pt va s = with_proc s (\<lambda>p.
     if va \<ge> sz (procs s p) then Ok (0, s)
     else let va = PGROUNDDOWN va
          in rbind (ismapped pt va s) (\<lambda>(b, s1).
            if b then Ok (0, s1)
            else rbind (kalloc s1) (\<lambda>(pg, s2).
              if pg = 0 then Ok (0, s2)
              else rbind (mappages (pagetable (procs s2 p)) va PGSIZE pg (PTE_W OR PTE_U OR PTE_R)
                           (s2\<lparr>mem := memset (mem s2) pg 0 4096\<rparr>)) (\<lambda>(r, s3).
                if r \<noteq> 0 then rbind (kfree pg s3) (\<lambda>s4. Ok (0, s4)) else Ok (pg, s3)))))"

text \<open>The bytes of one page from address \<open>va\<close> on: the \<open>n\<close> of each round of the copy loops.\<close>

definition chunk :: "u64 \<Rightarrow> nat \<Rightarrow> nat" where
  "chunk va len = min (unat (PGSIZE - (va - PGROUNDDOWN va))) len"

text \<open>Finding the page of a round: \<open>walkaddr\<close>, and \<open>vmfault\<close> when it is not mapped.\<close>

definition fault_in :: "u64 \<Rightarrow> u64 \<Rightarrow> 'a ptable_scheme \<Rightarrow> (u64 \<times> 'a ptable_scheme) res" where
  "fault_in pt va0 s = rbind (walkaddr pt va0 s) (\<lambda>(pa0, s1).
     if pa0 = 0 then vmfault pt va0 s1 else Ok (pa0, s1))"

lemma page_offset: "unat (va - PGROUNDDOWN va) = unat va mod 4096"
proof -
  have "unat (PGROUNDDOWN va) \<le> unat va" by (simp add: unat_PGROUNDDOWN)
  then have "unat (va - PGROUNDDOWN va) = unat va - unat (PGROUNDDOWN va)"
    by (simp add: unat_sub word_le_nat_alt)
  then show ?thesis by (simp add: unat_PGROUNDDOWN minus_div_mult_eq_mod)
qed

lemma chunk_eq: "chunk va len = min (4096 - unat va mod 4096) len"
proof -
  have "unat (va - PGROUNDDOWN va) \<le> unat PGSIZE" by (simp add: page_offset PGSIZE_def)
  then have "unat (PGSIZE - (va - PGROUNDDOWN va)) = 4096 - unat va mod 4096"
    by (simp add: unat_sub word_le_nat_alt page_offset PGSIZE_def)
  then show ?thesis by (simp add: chunk_def)
qed

lemma chunk_bounds: "chunk va len \<le> len" "0 < len \<Longrightarrow> 0 < chunk va len" "chunk va len \<le> 4096"
  by (simp_all add: chunk_eq)

function copyout :: "u64 \<Rightarrow> u64 \<Rightarrow> u8 list \<Rightarrow> 'a ptable_scheme \<Rightarrow> (int \<times> 'a ptable_scheme) res" where
  "copyout pt dstva src s =
     (if src = [] then Ok (0, s)
      else let va0 = PGROUNDDOWN dstva
           in if va0 \<ge> MAXVA then Ok (-1, s)
              else rbind (fault_in pt va0 s) (\<lambda>(pa0, s1).
                if pa0 = 0 then Ok (-1, s1)
                else rbind (walk pt va0 False s1) (\<lambda>(pte, s2).
                  if load64 (mem s2) pte AND PTE_W = 0 then Ok (-1, s2)
                  else let n = chunk dstva (length src)
                       in copyout pt (va0 + PGSIZE) (drop n src)
                            (s2\<lparr>mem := write_bytes (mem s2) (pa0 + (dstva - va0)) (take n src)\<rparr>))))"
  by pat_completeness auto
termination
  by (relation "measure (\<lambda>(pt, dstva, src, s). length src)") (auto simp: chunk_bounds)

declare copyout.simps [simp del]

text \<open>\<open>copyin\<close> returns its result and the bytes it has stored at \<open>dst\<close>.\<close>

function copyin :: "u64 \<Rightarrow> u64 \<Rightarrow> nat \<Rightarrow> 'a ptable_scheme \<Rightarrow> (int \<times> u8 list \<times> 'a ptable_scheme) res" where
  "copyin pt srcva len s =
     (if len = 0 then Ok (0, [], s)
      else let va0 = PGROUNDDOWN srcva
           in rbind (fault_in pt va0 s) (\<lambda>(pa0, s1).
             if pa0 = 0 then Ok (-1, [], s1)
             else let n = chunk srcva len; bs = bytes_at (mem s1) (pa0 + (srcva - va0)) n
                  in rbind (copyin pt (va0 + PGSIZE) (len - n) s1)
                       (\<lambda>(r, bs', s2). Ok (r, bs @ bs', s2))))"
  by pat_completeness auto
termination
  by (relation "measure (\<lambda>(pt, srcva, len, s). len)") (auto simp: chunk_bounds)

declare copyin.simps [simp del]

text \<open>The inner loop of \<open>copyinstr\<close>: the bytes before the NUL, and \<open>got_null\<close>.\<close>

fun copyinstr_page :: "mem \<Rightarrow> u64 \<Rightarrow> nat \<Rightarrow> u8 list \<times> bool" where
  "copyinstr_page m p 0 = ([], False)"
| "copyinstr_page m p (Suc n) =
     (if m p = 0 then ([], True) else map_prod (Cons (m p)) id (copyinstr_page m (p + 1) n))"

text \<open>\<open>copyinstr\<close> returns the string it stored at \<open>dst\<close>, or \<open>None\<close> for the result -1.\<close>

function copyinstr :: "u64 \<Rightarrow> u64 \<Rightarrow> nat \<Rightarrow> 'a kmem_scheme \<Rightarrow> (u8 list option \<times> 'a kmem_scheme) res" where
  "copyinstr pt srcva mx s =
     (if mx = 0 then Ok (None, s)
      else let va0 = PGROUNDDOWN srcva
           in rbind (walkaddr pt va0 s) (\<lambda>(pa0, s1).
             if pa0 = 0 then Ok (None, s1)
             else let n = chunk srcva mx; (bs, got_null) = copyinstr_page (mem s1) (pa0 + (srcva - va0)) n
                  in if got_null then Ok (Some bs, s1)
                     else rbind (copyinstr pt (va0 + PGSIZE) (mx - n) s1)
                       (\<lambda>(r, s2). Ok (map_option (\<lambda>bs'. bs @ bs') r, s2))))"
  by pat_completeness auto
termination
  by (relation "measure (\<lambda>(pt, srcva, mx, s). mx)") (auto simp: chunk_bounds)

declare copyinstr.simps [simp del]

text \<open>Where \<open>either_copyout\<close> puts bytes and where \<open>either_copyin\<close> gets them: at an address of the
  current process, at a kernel address, or in a local variable of the caller, which then uses
  the bytes directly.\<close>

datatype dest = UserDst u64 | KernDst u64 | LocalDst
datatype source = UserSrc u64 | LocalSrc "u8 list"

fun either_copyout :: "dest \<Rightarrow> u8 list \<Rightarrow> 'a ptable_scheme \<Rightarrow> (int \<times> 'a ptable_scheme) res" where
  "either_copyout (UserDst a) src s = with_proc s (\<lambda>p. copyout (pagetable (procs s p)) a src s)"
| "either_copyout (KernDst a) src s = Ok (0, s\<lparr>mem := write_bytes (mem s) a src\<rparr>)"
| "either_copyout LocalDst src s = Ok (0, s)"

fun either_copyin :: "source \<Rightarrow> nat \<Rightarrow> 'a ptable_scheme \<Rightarrow> (int \<times> u8 list \<times> 'a ptable_scheme) res" where
  "either_copyin (UserSrc a) len s = with_proc s (\<lambda>p. copyin (pagetable (procs s p)) a len s)"
| "either_copyin (LocalSrc bs) len s = Ok (0, take len bs, s)"

fun dest_add :: "dest \<Rightarrow> nat \<Rightarrow> dest" where
  "dest_add (UserDst a) n = UserDst (a + of_nat n)"
| "dest_add (KernDst a) n = KernDst (a + of_nat n)"
| "dest_add LocalDst n = LocalDst"

fun source_add :: "source \<Rightarrow> nat \<Rightarrow> source" where
  "source_add (UserSrc a) n = UserSrc (a + of_nat n)"
| "source_add (LocalSrc bs) n = LocalSrc (drop n bs)"

end
