(* ===== verification/Pagetable.thy ===== *)
theory Pagetable
  imports Vm
begin

text \<open>
  Page tables as trees. \<open>tbl m pt \<pi>\<close> is the table page that the path of indices \<open>\<pi>\<close> leads to and
  \<open>lookup m pt va\<close> the leaf entry for a virtual address. The lemmas show what the two kinds of
  writes of \<^verbatim>\<open>kernel/vm.c\<close> do to them: setting a leaf entry, and linking a fresh zeroed page into
  the tree. On top of them \<open>walk\<close> and \<open>mappages\<close> are shown to change exactly the entries they
  are asked to.
\<close>

section \<open>Entries of a table page\<close>

definition entry :: "mem \<Rightarrow> u64 \<Rightarrow> nat \<Rightarrow> u64" where
  "entry m pt i = load64 m (pt + 8 * of_nat i)"

lemma entry_alt: "entry m pt i = load64 m (pt + of_nat (8 * i))"
  by (simp add: entry_def)

lemma entry_frame:
  assumes "page_aligned p" "page_aligned q" "p \<noteq> q" "i < 512"
    and "\<And>a. \<not> in_range p 4096 a \<Longrightarrow> m' a = m a"
  shows "entry m' q i = entry m q i"
  unfolding entry_alt using assms by (intro load64_frame) auto

lemma entry_cong:
  assumes "page_aligned q" "i < 512" "\<And>a. in_range q 4096 a \<Longrightarrow> m' a = m a"
  shows "entry m' q i = entry m q i"
  unfolding entry_alt
proof (rule load64_cong)
  fix k :: nat assume "k < 8"
  then have "in_range q 4096 (q + of_nat (8 * i + k))"
    using assms(1,2) by (intro in_page_offset) auto
  then show "m' (q + of_nat (8 * i) + of_nat k) = m (q + of_nat (8 * i) + of_nat k)"
    using assms(3) by (simp add: algebra_simps)
qed

lemma in_range_offset:
  assumes "a < 4096" "b < 4096" "in_range (p + of_nat b) 8 (p + of_nat a)"
  shows "b \<le> a \<and> a - b < 8"
proof (cases "b \<le> a")
  case True
  then have "(of_nat a - of_nat b :: u64) = of_nat (a - b)" by (simp add: of_nat_diff)
  then have "unat (of_nat a - of_nat b :: u64) = (a - b) mod 2 ^ 64" by (simp only: unat_of_nat) simp
  then show ?thesis using assms True by (simp add: in_range_def)
next
  case False
  then have "unat (of_nat a - of_nat b :: u64) = 2 ^ 64 + a - b"
    using assms by (simp add: unat_sub_if' unat_of_nat)
  then show ?thesis using assms False by (simp add: in_range_def)
qed

lemma entry_store:
  assumes "i < 512" "j < 512"
  shows "entry (store64 m (p + 8 * of_nat i) v) p j = (if j = i then v else entry m p j)"
proof (cases "j = i")
  case False
  have "load64 (store64 m (p + of_nat (8 * i)) v) (p + of_nat (8 * j)) = load64 m (p + of_nat (8 * j))"
  proof (rule load64_store64_other)
    fix k :: nat assume k: "k < 8"
    show "\<not> in_range (p + of_nat (8 * i)) 8 (p + of_nat (8 * j) + of_nat k)"
    proof
      assume "in_range (p + of_nat (8 * i)) 8 (p + of_nat (8 * j) + of_nat k)"
      then have "in_range (p + of_nat (8 * i)) 8 (p + of_nat (8 * j + k))" by (simp add: algebra_simps)
      then have "8 * i \<le> 8 * j + k \<and> 8 * j + k - 8 * i < 8"
        using assms k by (intro in_range_offset) auto
      with False k show False by arith
    qed
  qed
  with False show ?thesis by (simp add: entry_alt)
qed (simp add: entry_def)

lemma store_entry_in_page:
  assumes "page_aligned p" "i < 512" "\<not> in_range p 4096 a"
  shows "store64 m (p + 8 * of_nat i) v a = m a"
proof (rule store64_other)
  show "\<not> in_range (p + 8 * of_nat i) 8 a"
  proof
    assume "in_range (p + 8 * of_nat i) 8 a"
    then have k: "unat (a - (p + 8 * of_nat i)) < 8" by (simp add: in_range_def)
    have "a = p + of_nat (8 * i + unat (a - (p + 8 * of_nat i)))" by (simp add: algebra_simps)
    moreover have "in_range p 4096 (p + of_nat (8 * i + unat (a - (p + 8 * of_nat i))))"
      using assms(1,2) k by (intro in_page_offset) auto
    ultimately show False using assms(3) by metis
  qed
qed

lemma zero_entry:
  assumes "page_aligned g" "i < 512" "\<And>a. in_range g 4096 a \<Longrightarrow> m a = 0"
  shows "entry m g i = 0"
  using entry_cong [of g i m "\<lambda>_. 0"] assms by (simp add: entry_def load64_zero)

lemma PTE_V_1 [simp]: "PTE_V = 1" by (simp add: PTE_V_def)

lemma or_and_absorb: "(x OR y) AND y = (y :: u64)"
  by (rule bit_word_eqI) (auto simp: bit_simps)

lemma PTE2PA_PA2PTE:
  assumes "page_aligned g" "f AND NOT 0x3FF = 0"
  shows "PTE2PA (PA2PTE g OR f) = g"
proof (rule bit_word_eqI)
  fix n assume "n < LENGTH(64)"
  have f: "\<not> bit f k" if "10 \<le> k" "k < 64" for k
  proof -
    have "\<not> bit (f AND NOT (mask 10)) k"
      using assms(2) by (simp add: mask_eq_exp_minus_1)
    with that show ?thesis by (simp add: bit_simps)
  qed
  have "PGROUNDDOWN g = g"
    using assms(1) div_mult_mod_eq [of "unat g" 4096]
    by (simp add: word_unat_eq_iff unat_PGROUNDDOWN page_aligned_def)
  then have g: "\<not> bit g k" if "k < 12" for k
    using that by (metis PGROUNDDOWN_eq bit_push_bit_iff not_le)
  show "bit (PTE2PA (PA2PTE g OR f)) n = bit g n"
    using \<open>n < LENGTH(64)\<close> f g by (cases "n < 12") (auto simp: PTE2PA_def PA2PTE_def bit_simps)
qed

section \<open>The tree\<close>

fun tbl :: "mem \<Rightarrow> u64 \<Rightarrow> nat list \<Rightarrow> u64 option" where
  "tbl m pt [] = Some pt"
| "tbl m pt (i # is) =
     (if entry m pt i AND PTE_V \<noteq> 0 then tbl m (PTE2PA (entry m pt i)) is else None)"

definition step_tbl :: "mem \<Rightarrow> nat \<Rightarrow> u64 \<Rightarrow> u64 option" where
  "step_tbl m i p = (if entry m p i AND PTE_V \<noteq> 0 then Some (PTE2PA (entry m p i)) else None)"

lemma tbl_snoc: "tbl m pt (\<pi> @ [i]) = Option.bind (tbl m pt \<pi>) (step_tbl m i)"
  by (induction \<pi> arbitrary: pt) (auto simp: step_tbl_def)

declare tbl.simps(2) [simp del]

definition idx :: "nat \<Rightarrow> u64 \<Rightarrow> nat" where
  "idx l va = unat (PX l va)"

lemma idx_less [simp]: "idx l va < 512"
  by (simp add: idx_def unat_PX)

lemma of_nat_idx [simp]: "of_nat (idx l va) = PX l va"
  by (simp add: idx_def)

definition lookup :: "mem \<Rightarrow> u64 \<Rightarrow> u64 \<Rightarrow> u64" where
  "lookup m pt va = (case tbl m pt [idx 2 va, idx 1 va] of None \<Rightarrow> 0 | Some p \<Rightarrow> entry m p (idx 0 va))"

definition paths :: "nat list set" where
  "paths = {\<pi>. length \<pi> \<le> 2 \<and> set \<pi> \<subseteq> {..<512}}"

definition tpages :: "mem \<Rightarrow> u64 \<Rightarrow> u64 set" where
  "tpages m pt = {p. \<exists>\<pi> \<in> paths. tbl m pt \<pi> = Some p}"

text \<open>The table pages are page-aligned and no page occurs twice in the tree.\<close>

definition pt_ok :: "mem \<Rightarrow> u64 \<Rightarrow> bool" where
  "pt_ok m pt \<longleftrightarrow>
     (\<forall>\<pi> \<in> paths. \<forall>p. tbl m pt \<pi> = Some p \<longrightarrow> page_aligned p \<and> p \<noteq> 0) \<and>
     (\<forall>\<pi> \<in> paths. \<forall>\<pi>' \<in> paths. \<forall>p. tbl m pt \<pi> = Some p \<longrightarrow> tbl m pt \<pi>' = Some p \<longrightarrow> \<pi> = \<pi>')"

lemma pt_okD:
  assumes "pt_ok m pt" "\<pi> \<in> paths" "tbl m pt \<pi> = Some p"
  shows "page_aligned p" "p \<noteq> 0" "\<pi>' \<in> paths \<Longrightarrow> tbl m pt \<pi>' = Some p \<Longrightarrow> \<pi>' = \<pi>"
  using assms by (auto simp: pt_ok_def)

lemma paths_idx [simp]: "[idx a va, idx b va] \<in> paths" "[idx a va] \<in> paths" "[] \<in> paths"
  by (simp_all add: paths_def)

lemma paths_snoc: "\<pi> @ [i] \<in> paths \<longleftrightarrow> \<pi> \<in> paths \<and> length \<pi> < 2 \<and> i < 512"
  by (auto simp: paths_def)

lemma tbl_cong:
  assumes "\<And>\<pi> p i. \<pi> \<in> paths \<Longrightarrow> length \<pi> < 2 \<Longrightarrow> tbl m pt \<pi> = Some p \<Longrightarrow> i < 512 \<Longrightarrow> entry m' p i = entry m p i"
    and "\<pi> \<in> paths"
  shows "tbl m' pt \<pi> = tbl m pt \<pi>"
  using assms(2)
proof (induction \<pi> rule: rev_induct)
  case (snoc i \<pi>)
  then have \<pi>: "\<pi> \<in> paths" "length \<pi> < 2" "i < 512" by (simp_all add: paths_snoc)
  with snoc.IH show ?case
    using assms(1) [OF \<pi>(1,2) _ \<pi>(3)] by (cases "tbl m pt \<pi>") (simp_all add: tbl_snoc step_tbl_def)
qed simp

text \<open>Memory that agrees on all table pages has the same tree.\<close>

lemma pt_frame:
  assumes "pt_ok m pt" "\<And>p a. p \<in> tpages m pt \<Longrightarrow> in_range p 4096 a \<Longrightarrow> m' a = m a"
  shows "\<pi> \<in> paths \<Longrightarrow> tbl m' pt \<pi> = tbl m pt \<pi>" "lookup m' pt va = lookup m pt va"
    "pt_ok m' pt" "tpages m' pt = tpages m pt"
proof -
  have e: "entry m' p i = entry m p i" if "\<pi> \<in> paths" "tbl m pt \<pi> = Some p" "i < 512" for \<pi> p i
    using that assms by (intro entry_cong) (auto simp: tpages_def dest: pt_okD)
  show t: "tbl m' pt \<pi> = tbl m pt \<pi>" if "\<pi> \<in> paths" for \<pi>
    using that e by (intro tbl_cong) auto
  show "lookup m' pt va = lookup m pt va"
    using e [of "[idx 2 va, idx 1 va]"] by (auto simp: lookup_def t split: option.splits)
  show "tpages m' pt = tpages m pt" using t by (auto simp: tpages_def)
  show "pt_ok m' pt" using assms(1) t by (simp add: pt_ok_def)
qed

section \<open>Setting a leaf entry\<close>

lemma set_leaf:
  fixes v :: u64
  assumes ok: "pt_ok m pt" and p: "tbl m pt [a, b] = Some p" and i: "a < 512" "b < 512" "j < 512"
  defines "m' \<equiv> store64 m (p + 8 * of_nat j) v"
  shows "\<pi> \<in> paths \<Longrightarrow> tbl m' pt \<pi> = tbl m pt \<pi>" "pt_ok m' pt" "tpages m' pt = tpages m pt"
    "lookup m' pt va = (if [idx 2 va, idx 1 va, idx 0 va] = [a, b, j] then v else lookup m pt va)"
proof -
  have ab: "[a, b] \<in> paths" using i by (simp add: paths_def)
  have al: "page_aligned p" using pt_okD(1) [OF ok ab p] .
  have e: "entry m' q k = entry m q k" if "\<pi> \<in> paths" "tbl m pt \<pi> = Some q" "\<pi> \<noteq> [a, b]" "k < 512" for \<pi> q k
  proof (rule entry_frame [OF al])
    show "page_aligned q" using pt_okD(1) [OF ok that(1,2)] .
    show "p \<noteq> q" using pt_okD(3) [OF ok ab p that(1)] that(2,3) by auto
  qed (use that al i store_entry_in_page in \<open>auto simp: m'_def\<close>)
  show t: "tbl m' pt \<pi> = tbl m pt \<pi>" if "\<pi> \<in> paths" for \<pi>
    by (rule tbl_cong [OF _ that]) (use e in fastforce)
  show "pt_ok m' pt" using ok t by (simp add: pt_ok_def)
  show "tpages m' pt = tpages m pt" using t by (auto simp: tpages_def)
  show "lookup m' pt va = (if [idx 2 va, idx 1 va, idx 0 va] = [a, b, j] then v else lookup m pt va)"
  proof (cases "[idx 2 va, idx 1 va] = [a, b]")
    case True
    have "entry m' p (idx 0 va) = (if idx 0 va = j then v else entry m p (idx 0 va))"
      using i by (simp only: m'_def) (simp add: entry_store)
    then show ?thesis using True p t [OF ab] by (auto simp: lookup_def)
  next
    case False
    then show ?thesis
      using e [of "[idx 2 va, idx 1 va]"] by (auto simp: lookup_def t split: option.splits)
  qed
qed

section \<open>Linking a fresh table page\<close>

lemma add_table:
  fixes f :: u64
  assumes ok: "pt_ok m pt" and \<pi>: "\<pi> \<in> paths" "length \<pi> < 2" "tbl m pt \<pi> = Some p" "i < 512"
    and free: "entry m p i AND PTE_V = 0" and g: "page_aligned g" "g \<noteq> 0" "g \<notin> tpages m pt"
  defines "m' \<equiv> store64 (memset m g 0 4096) (p + 8 * of_nat i) (PA2PTE g OR PTE_V)"
  shows "\<sigma> \<in> paths \<Longrightarrow> tbl m' pt \<sigma> = (if \<sigma> = \<pi> @ [i] then Some g else tbl m pt \<sigma>)"
    and "\<And>a. \<not> in_range p 4096 a \<Longrightarrow> \<not> in_range g 4096 a \<Longrightarrow> m' a = m a"
    and "\<And>\<sigma> q k. \<sigma> \<in> paths \<Longrightarrow> \<sigma> \<noteq> \<pi> \<Longrightarrow> tbl m pt \<sigma> = Some q \<Longrightarrow> k < 512 \<Longrightarrow> entry m' q k = entry m q k"
    and "\<And>k. k < 512 \<Longrightarrow> entry m' g k = 0"
proof -
  have al: "page_aligned p" using pt_okD(1) [OF ok \<pi>(1,3)] .
  have pg: "p \<noteq> g" using g(3) \<pi> by (auto simp: tpages_def)
  show other: "m' a = m a" if "\<not> in_range p 4096 a" "\<not> in_range g 4096 a" for a
    using that al \<pi>(4) by (simp add: m'_def store_entry_in_page memset_page)
  show zero: "entry m' g k = 0" if "k < 512" for k
  proof (rule zero_entry [OF g(1) that])
    fix a assume a: "in_range g 4096 a"
    then have "\<not> in_range p 4096 a" using pages_disjoint [OF g(1) al] pg by auto
    then show "m' a = 0" using a al \<pi>(4) by (simp add: m'_def store_entry_in_page memset_page)
  qed
  have disj: "\<not> in_range g 4096 a" if "in_range q 4096 a" "page_aligned q" "q \<noteq> g" for q a
    using pages_disjoint [OF that(2) g(1) that(3,1)] .
  show same: "entry m' q k = entry m q k" if q: "\<sigma> \<in> paths" "\<sigma> \<noteq> \<pi>" "tbl m pt \<sigma> = Some q" "k < 512" for \<sigma> q k
  proof (rule entry_cong [OF pt_okD(1) [OF ok q(1,3)] q(4)])
    fix a assume a: "in_range q 4096 a"
    have "q \<noteq> p" using pt_okD(3) [OF ok q(1,3) \<pi>(1)] \<pi>(3) q(2) by auto
    then have "\<not> in_range p 4096 a" using pages_disjoint [OF pt_okD(1) [OF ok q(1,3)] al _ a] by simp
    moreover have "q \<noteq> g" using g(3) q by (auto simp: tpages_def)
    ultimately show "m' a = m a" using other disj [OF a pt_okD(1) [OF ok q(1,3)]] by simp
  qed
  have here: "entry m' p k = (if k = i then PA2PTE g OR PTE_V else entry m p k)" if "k < 512" for k
  proof -
    have "entry (memset m g 0 4096) p k = entry m p k"
      using that al pg g(1) by (intro entry_frame [of g]) (auto simp: memset_page)
    then show ?thesis using that \<pi>(4) by (simp add: m'_def entry_store)
  qed
  have link: "PTE2PA (PA2PTE g OR PTE_V) = g" by (rule PTE2PA_PA2PTE [OF g(1)]) simp
  have valid: "(PA2PTE g OR PTE_V) AND PTE_V \<noteq> 0" by (simp only: or_and_absorb) simp
  show "tbl m' pt \<sigma> = (if \<sigma> = \<pi> @ [i] then Some g else tbl m pt \<sigma>)" if "\<sigma> \<in> paths" for \<sigma>
    using that
  proof (induction \<sigma> rule: rev_induct)
    case (snoc k \<sigma>)
    then have \<sigma>: "\<sigma> \<in> paths" "length \<sigma> < 2" "k < 512" by (simp_all add: paths_snoc)
    have none: "tbl m pt (\<pi> @ [i]) = None" using \<pi>(3) free by (simp add: tbl_snoc step_tbl_def)
    consider "\<sigma> = \<pi> @ [i]" | "\<sigma> = \<pi>" | "\<sigma> \<noteq> \<pi> @ [i]" "\<sigma> \<noteq> \<pi>" by blast
    then show ?case
    proof cases
      case 1
      then have "tbl m' pt \<sigma> = Some g" "tbl m pt \<sigma> = None" using snoc.IH \<sigma> none by simp_all
      then have "tbl m' pt (\<sigma> @ [k]) = None" "tbl m pt (\<sigma> @ [k]) = None"
        using zero \<sigma>(3) by (simp_all add: tbl_snoc step_tbl_def)
      then show ?thesis using 1 by simp
    next
      case 2
      then show ?thesis using snoc.IH \<sigma> \<pi>(3) here link valid
        by (simp add: tbl_snoc step_tbl_def del: PTE_V_1)
    next
      case 3
      then show ?thesis using snoc.IH \<sigma> same [OF \<sigma>(1) 3(2) _ \<sigma>(3)]
        by (cases "tbl m pt \<sigma>") (simp_all add: tbl_snoc step_tbl_def)
    qed
  qed simp
qed

section \<open>Growing the tree\<close>

text \<open>\<open>kupd s s'\<close>: only memory and the allocator changed, and the machine as a matched lock
  pair leaves it.\<close>

definition kupd :: "'a kmem_scheme \<Rightarrow> 'a kmem_scheme \<Rightarrow> bool" where
  "kupd s s' \<longleftrightarrow> (\<exists>k m f. s' = s\<lparr>mach := k, mem := m, freelist := f\<rparr> \<and> (k = mach s \<or> k = sync (mach s)))"

lemma kupdI:
  "k = mach s \<or> k = sync (mach s) \<Longrightarrow> kupd s (s\<lparr>mach := k, mem := m, freelist := f\<rparr>)"
  by (auto simp: kupd_def)

lemma kupd_refl [simp]: "kupd s s"
  using kupdI [of "mach s" s "freelist s" "mem s"] by simp

lemma kupd_mem [simp]: "kupd s (s\<lparr>mem := m\<rparr>)"
  using kupdI [of "mach s" s "freelist s" m] by simp

lemma kupd_trans:
  assumes "kupd s t" "kupd t u"
  shows "kupd s u"
proof -
  obtain k m f where t: "t = s\<lparr>mach := k, mem := m, freelist := f\<rparr>" "k = mach s \<or> k = sync (mach s)"
    using assms(1) by (auto simp: kupd_def)
  obtain k' m' f' where u: "u = t\<lparr>mach := k', mem := m', freelist := f'\<rparr>" "k' = mach t \<or> k' = sync (mach t)"
    using assms(2) by (auto simp: kupd_def)
  have "u = s\<lparr>mach := k', mem := m', freelist := f'\<rparr>" "k' = mach s \<or> k' = sync (mach s)"
    using t u by auto
  then show ?thesis using kupdI by blast
qed

lemma kupdD:
  "kupd s s' \<Longrightarrow> kend s' = kend s" "kupd s s' \<Longrightarrow> locks (mach s') = locks (mach s)"
  "kupd s s' \<Longrightarrow> ram_page s' = ram_page s"
  by (auto simp: kupd_def ram_page_def fun_eq_iff)

definition vm_inv :: "'a kmem_scheme \<Rightarrow> u64 \<Rightarrow> u64 list \<Rightarrow> bool" where
  "vm_inv s pt xs \<longleftrightarrow> pool s xs \<and> pt_ok (mem s) pt \<and> tpages (mem s) pt \<inter> set xs = {}"

text \<open>\<open>grows s pt xs s' xs'\<close>: some free pages became table pages, no leaf entry changed, and no
  memory outside the table pages changed.\<close>

definition grows :: "'a kmem_scheme \<Rightarrow> u64 \<Rightarrow> u64 list \<Rightarrow> 'a kmem_scheme \<Rightarrow> u64 list \<Rightarrow> bool" where
  "grows s pt xs s' xs' \<longleftrightarrow> vm_inv s' pt xs' \<and> kupd s s' \<and>
     (\<exists>ys. xs = ys @ xs' \<and> tpages (mem s') pt = tpages (mem s) pt \<union> set ys) \<and>
     (\<forall>va. lookup (mem s') pt va = lookup (mem s) pt va) \<and>
     (\<forall>a. (\<forall>g \<in> tpages (mem s') pt. \<not> in_range g 4096 a) \<longrightarrow> mem s' a = mem s a) \<and>
     (\<forall>\<pi> \<in> paths. \<forall>p. tbl (mem s) pt \<pi> = Some p \<longrightarrow> tbl (mem s') pt \<pi> = Some p)"

lemma grows_refl: "vm_inv s pt xs \<Longrightarrow> grows s pt xs s xs"
  by (auto simp: grows_def)

lemma grows_trans:
  assumes "grows s pt xs t ys" "grows t pt ys u zs"
  shows "grows s pt xs u zs"
proof -
  obtain as bs where ab: "xs = as @ ys" "tpages (mem t) pt = tpages (mem s) pt \<union> set as"
    "ys = bs @ zs" "tpages (mem u) pt = tpages (mem t) pt \<union> set bs"
    using assms by (auto simp: grows_def)
  then have "xs = (as @ bs) @ zs" "tpages (mem u) pt = tpages (mem s) pt \<union> set (as @ bs)" by auto
  moreover have "kupd s u" using assms kupd_trans by (auto simp: grows_def)
  ultimately show ?thesis using assms ab(4) unfolding grows_def by simp blast
qed

lemma pool_mem:
  assumes "pool s xs" "\<And>x a. x \<in> set xs \<Longrightarrow> in_range x 4096 a \<Longrightarrow> m a = mem s a"
  shows "pool (s\<lparr>mem := m\<rparr>) xs"
proof -
  have "load64 m x = load64 (mem s) x" if "x \<in> set xs" for x
    using entry_cong [of x 0 m "mem s"] assms that
    by (auto simp: entry_def pool_def free_list_def ram_page_def)
  then have "runs m (freelist s) xs = runs (mem s) (freelist s) xs" by (rule runs_cong)
  then show ?thesis using assms(1) by (simp add: pool_def free_list_def kmem_ok_def ram_page_def)
qed

text \<open>One step of \<open>walk\<close> that allocates.\<close>

lemma memset_memset: "memset (memset m g c 4096) g d 4096 = memset m g d 4096"
  by (simp add: memset_page fun_eq_iff)

definition linked :: "'a kmem_scheme \<Rightarrow> u64 \<Rightarrow> u64 \<Rightarrow> 'a kmem_scheme" where
  "linked s pte g = s\<lparr>mach := sync (mach s), freelist := load64 (mem s) g,
     mem := store64 (memset (mem s) g 0 4096) pte (PA2PTE g OR PTE_V)\<rparr>"

lemma walk_step_alloc:
  assumes "pool s (g # xs)"
  shows "rbind (kalloc s) (\<lambda>(pg, s1). if pg = 0 then Ok (0, s1)
      else F pg (s1\<lparr>mem := store64 (memset (mem s1) pg 0 4096) pte (PA2PTE pg OR PTE_V)\<rparr>)) =
    F g (linked s pte g)"
  using kalloc_cons [of s g xs] assms kpool.inv_usable [OF assms, of g]
  by (simp add: pool_def memset_memset linked_def)

lemma grows_linked:
  assumes inv: "vm_inv s pt (g # xs)" and \<pi>: "\<pi> \<in> paths" "length \<pi> < 2" "tbl (mem s) pt \<pi> = Some p" "i < 512"
    and free: "entry (mem s) p i AND PTE_V = 0"
  defines "t \<equiv> linked s (p + 8 * of_nat i) g"
  shows "grows s pt (g # xs) t xs" "tbl (mem t) pt (\<pi> @ [i]) = Some g"
proof -
  have pl: "pool s (g # xs)" and ok: "pt_ok (mem s) pt" and dis: "tpages (mem s) pt \<inter> set (g # xs) = {}"
    using inv by (simp_all add: vm_inv_def)
  have g: "page_aligned g" "g \<noteq> 0" "g \<notin> tpages (mem s) pt" "g \<notin> set xs"
    using kpool.inv_usable [OF pl, of g] kpool.inv_distinct [OF pl] dis by (auto simp: ram_page_def)
  have memt: "mem t = store64 (memset (mem s) g 0 4096) (p + 8 * of_nat i) (PA2PTE g OR PTE_V)"
    by (simp add: t_def linked_def)
  note add = add_table [OF ok \<pi> free g(1-3), folded memt]
  have pT: "p \<in> tpages (mem s) pt" using \<pi> by (auto simp: tpages_def)
  have \<pi>i: "\<pi> @ [i] \<in> paths" using \<pi> by (simp add: paths_snoc)
  have none: "tbl (mem s) pt (\<pi> @ [i]) = None" using \<pi>(3) free by (simp add: tbl_snoc step_tbl_def)
  show "tbl (mem t) pt (\<pi> @ [i]) = Some g" using add(1) [OF \<pi>i] by simp
  have mono: "tbl (mem t) pt \<sigma> = Some q" if "\<sigma> \<in> paths" "tbl (mem s) pt \<sigma> = Some q" for \<sigma> q
    using add(1) [OF that(1)] that(2) none by auto
  have tp: "tpages (mem t) pt = insert g (tpages (mem s) pt)"
    using add(1) \<pi>i none by (auto simp: tpages_def) (metis option.distinct(1))+
  have okt: "pt_ok (mem t) pt"
    unfolding pt_ok_def
  proof (intro conjI ballI allI impI)
    fix \<sigma> q assume "\<sigma> \<in> paths" "tbl (mem t) pt \<sigma> = Some q"
    then show "page_aligned q" "q \<noteq> 0"
      using add(1) [of \<sigma>] g pt_okD(1,2) [OF ok, of \<sigma> q] by (auto split: if_splits)
  next
    fix \<sigma> \<sigma>' q assume h: "\<sigma> \<in> paths" "\<sigma>' \<in> paths" "tbl (mem t) pt \<sigma> = Some q" "tbl (mem t) pt \<sigma>' = Some q"
    have "tbl (mem s) pt \<tau> \<noteq> Some g" if "\<tau> \<in> paths" for \<tau> using g(3) that by (auto simp: tpages_def)
    then show "\<sigma> = \<sigma>'"
      using h add(1) [of \<sigma>] add(1) [of \<sigma>'] pt_okD(3) [OF ok, of \<sigma>' q \<sigma>] by (auto split: if_splits)
  qed
  have look: "lookup (mem t) pt va = lookup (mem s) pt va" for va
  proof -
    let ?\<sigma> = "[idx 2 va, idx 1 va]"
    have ne: "?\<sigma> \<noteq> \<pi>" using \<pi>(2) by auto
    show ?thesis
    proof (cases "?\<sigma> = \<pi> @ [i]")
      case True
      have "tbl (mem t) pt ?\<sigma> = Some g" "tbl (mem s) pt ?\<sigma> = None"
        unfolding True using add(1) [OF \<pi>i] none by simp_all
      then show ?thesis using add(4) by (simp add: lookup_def)
    next
      case False
      then show ?thesis
        using add(1) [of ?\<sigma>] add(3) [of ?\<sigma>] ne by (auto simp: lookup_def split: option.splits)
    qed
  qed
  have plt: "pool t xs"
  proof -
    let ?s1 = "s\<lparr>mach := sync (mach s), mem := memset (mem s) g 5 4096, freelist := load64 (mem s) g\<rparr>"
    have p1: "pool ?s1 xs" using kalloc_free_list [of s g xs] pl by (simp add: pool_def)
    have "mem t a = mem ?s1 a" if "x \<in> set xs" "in_range x 4096 a" for x a
    proof -
      have x: "page_aligned x" "x \<noteq> g" "x \<noteq> p"
        using kpool.inv_usable [OF p1 that(1)] that(1) g(4) dis pT by (auto simp: ram_page_def)
      have "\<not> in_range g 4096 a" "\<not> in_range p 4096 a"
        using pages_disjoint [OF x(1) _ _ that(2)] x g(1) pt_okD(1) [OF ok \<pi>(1,3)] by auto
      then show ?thesis using add(2) by (simp add: memset_page)
    qed
    then have "pool (?s1\<lparr>mem := mem t\<rparr>) xs" using p1 by (intro pool_mem)
    then show ?thesis by (simp add: t_def linked_def)
  qed
  have "vm_inv t pt xs" using plt okt tp dis g(4) by (auto simp: vm_inv_def)
  moreover have "kupd s t"
  proof -
    have "t = s\<lparr>mach := sync (mach s), mem := mem t, freelist := load64 (mem s) g\<rparr>"
      by (rule kmem.equality) (simp_all add: t_def linked_def)
    then show ?thesis by (auto simp: kupd_def)
  qed
  moreover have "mem t a = mem s a" if "\<forall>q \<in> tpages (mem t) pt. \<not> in_range q 4096 a" for a
    using that tp pT add(2) by auto
  ultimately show "grows s pt (g # xs) t xs"
    unfolding grows_def using look mono tp by (intro conjI exI [of _ "[g]"]) auto
qed

section \<open>Walking\<close>

definition leaf_addr :: "mem \<Rightarrow> u64 \<Rightarrow> u64 \<Rightarrow> u64" where
  "leaf_addr m pt va = (case tbl m pt [idx 2 va, idx 1 va] of None \<Rightarrow> 0 | Some p \<Rightarrow> p + 8 * PX 0 va)"

lemma walk_find [res_simps]:
  "va < MAXVA \<Longrightarrow> walk pt va False s = Ok (leaf_addr (mem s) pt va, s)"
  by (simp add: walk_def leaf_addr_def entry_def tbl.simps numeral_2_eq_2 Let_def linorder_not_le [symmetric])

lemma walk_max: "MAXVA \<le> va \<Longrightarrow> walk pt va al s = Panic ''walk''"
  by (simp add: walk_def)

lemma leaf_addr_nz:
  assumes "pt_ok m pt" "tbl m pt [idx 2 va, idx 1 va] = Some p"
  shows "leaf_addr m pt va = p + 8 * of_nat (idx 0 va)" "leaf_addr m pt va \<noteq> 0"
    "load64 m (leaf_addr m pt va) = lookup m pt va"
proof -
  show eq: "leaf_addr m pt va = p + 8 * of_nat (idx 0 va)" using assms by (simp add: leaf_addr_def)
  then show "load64 m (leaf_addr m pt va) = lookup m pt va" using assms(2) by (simp add: lookup_def entry_def)
  have p: "page_aligned p" "p \<noteq> 0" using pt_okD(1,2) [OF assms(1) _ assms(2)] by auto
  have i: "idx 0 va < 512" by simp
  have "in_range p 4096 (p + of_nat (8 * idx 0 va))"
    using p i by (intro in_page_offset) linarith+
  moreover have "\<not> in_range p 4096 0" using pages_disjoint [of 0 p 0] p by (auto simp: page_aligned_def in_range_def)
  ultimately show "leaf_addr m pt va \<noteq> 0" using eq by auto
qed

lemma walk_level:
  assumes inv: "vm_inv s pt xs" and \<pi>: "\<pi> \<in> paths" "length \<pi> < 2" "tbl (mem s) pt \<pi> = Some p"
  shows "(\<exists>q s1 xs1. walk_levels (Suc l) p va True s = walk_levels l q va True s1 \<and> grows s pt xs s1 xs1 \<and>
      tbl (mem s1) pt (\<pi> @ [idx (Suc l) va]) = Some q \<and> length xs \<le> Suc (length xs1)) \<or>
    (xs = [] \<and> (\<exists>s1. walk_levels (Suc l) p va True s = Ok (0, s1) \<and> grows s pt [] s1 []))"
proof (cases "entry (mem s) p (idx (Suc l) va) AND PTE_V = 0")
  case False
  then have "walk_levels (Suc l) p va True s = walk_levels l (PTE2PA (entry (mem s) p (idx (Suc l) va))) va True s"
    by (simp add: entry_def Let_def)
  moreover have "tbl (mem s) pt (\<pi> @ [idx (Suc l) va]) = Some (PTE2PA (entry (mem s) p (idx (Suc l) va)))"
    using \<pi>(3) False by (simp add: tbl_snoc step_tbl_def)
  ultimately show ?thesis using grows_refl [OF inv] by fastforce
next
  case True
  have pl: "pool s xs" using inv by (simp add: vm_inv_def)
  show ?thesis
  proof (cases xs)
    case Nil
    let ?s = "s\<lparr>mach := sync (mach s)\<rparr>"
    have "walk_levels (Suc l) p va True s = Ok (0, ?s)"
      using True pl Nil by (simp add: entry_def kalloc_empty pool_def Let_def)
    moreover have "grows s pt [] ?s []"
    proof -
      have "s\<lparr>mach := sync (mach s)\<rparr> = s\<lparr>mach := sync (mach s), mem := mem s, freelist := freelist s\<rparr>" by simp
      then have "kupd s ?s" unfolding kupd_def by blast
      then show ?thesis
        using inv Nil by (simp add: grows_def vm_inv_def pool_def free_list_def)
    qed
    ultimately show ?thesis using Nil by blast
  next
    case (Cons g ys)
    let ?i = "idx (Suc l) va"
    have inv': "vm_inv s pt (g # ys)" using inv Cons by simp
    have "walk_levels (Suc l) p va True s = walk_levels l g va True (linked s (p + 8 * of_nat ?i) g)"
      using True walk_step_alloc [of s g ys "\<lambda>q. walk_levels l q va True" "p + 8 * PX (Suc l) va"] pl Cons
      by (simp add: entry_def Let_def)
    moreover note grows_linked [OF inv' \<pi> idx_less True]
    ultimately show ?thesis using Cons by auto
  qed
qed

lemma walk_alloc:
  assumes inv: "vm_inv s pt xs" and va: "va < MAXVA"
  shows "\<exists>s' xs' pte. walk pt va True s = Ok (pte, s') \<and> grows s pt xs s' xs' \<and>
    (pte = 0 \<and> length xs < 2 \<or> length xs \<le> length xs' + 2 \<and>
     pte = leaf_addr (mem s') pt va \<and> tbl (mem s') pt [idx 2 va, idx 1 va] \<noteq> None)"
proof -
  have w: "walk pt va True s = walk_levels (Suc (Suc 0)) pt va True s"
    using va by (simp add: walk_def numeral_2_eq_2 linorder_not_le [symmetric] del: walk_levels.simps)
  from walk_level [OF inv, of "[]" pt "Suc 0" va]
  consider s1 where "xs = []" "walk_levels (Suc (Suc 0)) pt va True s = Ok (0, s1)" "grows s pt [] s1 []"
    | q s1 xs1 where "walk_levels (Suc (Suc 0)) pt va True s = walk_levels (Suc 0) q va True s1"
        "grows s pt xs s1 xs1" "tbl (mem s1) pt [idx 2 va] = Some q" "length xs \<le> Suc (length xs1)"
    by (auto simp: numeral_2_eq_2 simp del: walk_levels.simps)
  then show ?thesis
  proof cases
    case 1
    then show ?thesis using w by auto
  next
    case 2
    have inv1: "vm_inv s1 pt xs1" using 2(2) by (simp add: grows_def)
    from walk_level [OF inv1, of "[idx 2 va]" q 0 va] 2(3)
    consider s2 where "xs1 = []" "walk_levels (Suc 0) q va True s1 = Ok (0, s2)" "grows s1 pt [] s2 []"
      | r s2 xs2 where "walk_levels (Suc 0) q va True s1 = walk_levels 0 r va True s2"
          "grows s1 pt xs1 s2 xs2" "tbl (mem s2) pt [idx 2 va, idx 1 va] = Some r"
          "length xs1 \<le> Suc (length xs2)"
      by (auto simp del: walk_levels.simps)
    then show ?thesis
    proof cases
      case (1 s2)
      then have "grows s pt xs s2 []" using grows_trans 2(2) by blast
      then show ?thesis using w 2(1,4) 1 by auto
    next
      case (2 r s2 xs2)
      then have "grows s pt xs s2 xs2" using grows_trans \<open>grows s pt xs s1 xs1\<close> by blast
      moreover have "walk pt va True s = Ok (leaf_addr (mem s2) pt va, s2)"
        using w \<open>walk_levels (Suc (Suc 0)) pt va True s = _\<close> 2(1,3) by (simp add: leaf_addr_def)
      ultimately show ?thesis
        using 2(3,4) \<open>length xs \<le> Suc (length xs1)\<close>
        by (intro exI [of _ s2] exI [of _ xs2] exI [of _ "leaf_addr (mem s2) pt va"]) simp
    qed
  qed
qed

section \<open>Virtual pages\<close>

abbreviation vpn :: "u64 \<Rightarrow> nat" where
  "vpn va \<equiv> unat va div 4096"

lemma digits_eq:
  fixes q r :: nat
  assumes "q mod 512 = r mod 512" "q div 512 mod 512 = r div 512 mod 512" "q div 512 div 512 = r div 512 div 512"
  shows "q = r"
  by (metis assms div_mult_mod_eq)

lemma path_eq_iff:
  assumes "va < MAXVA" "vb < MAXVA"
  shows "[idx 2 va, idx 1 va, idx 0 va] = [idx 2 vb, idx 1 vb, idx 0 vb] \<longleftrightarrow> vpn va = vpn vb"
proof -
  have v: "idx 0 v = vpn v mod 512" "idx 1 v = vpn v div 512 mod 512"
    "idx 2 v = vpn v div 512 div 512" if "v < MAXVA" for v
  proof -
    have "unat v < 2 ^ 38" using that by (simp add: word_less_nat_alt layout_simps)
    then have "unat v div 1073741824 < 512" by simp
    moreover have "unat v div 4096 div 512 div 512 = unat v div 1073741824"
      "unat v div 4096 div 512 = unat v div 2097152"
      by (simp_all add: div_mult2_eq [symmetric])
    ultimately show "idx 0 v = vpn v mod 512" "idx 1 v = vpn v div 512 mod 512"
        "idx 2 v = vpn v div 512 div 512"
      by (simp_all add: idx_def unat_PX)
  qed
  show ?thesis
    using digits_eq [of "vpn va" "vpn vb"] v [OF assms(1)] v [OF assms(2)] by auto
qed

text \<open>\<open>extends\<close>: like \<open>grows\<close>, with leaf entries free to change.\<close>

definition extends :: "'a kmem_scheme \<Rightarrow> u64 \<Rightarrow> u64 list \<Rightarrow> 'a kmem_scheme \<Rightarrow> u64 list \<Rightarrow> bool" where
  "extends s pt xs s' xs' \<longleftrightarrow> vm_inv s' pt xs' \<and> kupd s s' \<and>
     (\<exists>ys. xs = ys @ xs' \<and> tpages (mem s') pt = tpages (mem s) pt \<union> set ys) \<and>
     (\<forall>a. (\<forall>g \<in> tpages (mem s') pt. \<not> in_range g 4096 a) \<longrightarrow> mem s' a = mem s a)"

lemma grows_extends: "grows s pt xs s' xs' \<Longrightarrow> extends s pt xs s' xs'"
  by (simp add: grows_def extends_def)

lemma extends_refl: "vm_inv s pt xs \<Longrightarrow> extends s pt xs s xs"
  by (auto simp: extends_def)

lemma extends_trans:
  assumes "extends s pt xs t ys" "extends t pt ys u zs"
  shows "extends s pt xs u zs"
proof -
  obtain as bs where ab: "xs = as @ ys" "tpages (mem t) pt = tpages (mem s) pt \<union> set as"
    "ys = bs @ zs" "tpages (mem u) pt = tpages (mem t) pt \<union> set bs"
    using assms by (auto simp: extends_def)
  then have "xs = (as @ bs) @ zs" "tpages (mem u) pt = tpages (mem s) pt \<union> set (as @ bs)" by auto
  moreover have "kupd s u" using assms kupd_trans by (auto simp: extends_def)
  ultimately show ?thesis using assms ab(4) unfolding extends_def by simp blast
qed

lemma write_leaf:
  fixes v :: u64
  assumes inv: "vm_inv s pt xs" and p: "tbl (mem s) pt [idx 2 va, idx 1 va] = Some p" and va: "va < MAXVA"
  defines "t \<equiv> s\<lparr>mem := store64 (mem s) (leaf_addr (mem s) pt va) v\<rparr>"
  shows "extends s pt xs t xs"
    "vb < MAXVA \<Longrightarrow> lookup (mem t) pt vb = (if vpn vb = vpn va then v else lookup (mem s) pt vb)"
proof -
  have ok: "pt_ok (mem s) pt" and pl: "pool s xs" and dis: "tpages (mem s) pt \<inter> set xs = {}"
    using inv by (simp_all add: vm_inv_def)
  have memt: "mem t = store64 (mem s) (p + 8 * of_nat (idx 0 va)) v"
    unfolding t_def leaf_addr_nz(1) [OF ok p] by simp
  note set = set_leaf [OF ok p idx_less idx_less idx_less [of 0 va], where v = v, folded memt]
  show "lookup (mem t) pt vb = (if vpn vb = vpn va then v else lookup (mem s) pt vb)" if "vb < MAXVA"
    using set(4) [of vb] path_eq_iff [OF that va] by simp
  have al: "page_aligned p" using pt_okD(1) [OF ok _ p] by simp
  have pT: "p \<in> tpages (mem s) pt" using p by (auto simp: tpages_def intro: paths_idx)
  have out: "mem t a = mem s a" if "\<not> in_range p 4096 a" for a
    unfolding memt by (rule store_entry_in_page [OF al idx_less that])
  have "mem t a = mem s a" if "x \<in> set xs" "in_range x 4096 a" for x a
  proof (rule out)
    have "page_aligned x" "x \<noteq> p"
      using kpool.inv_usable [OF pl that(1)] that(1) dis pT by (auto simp: ram_page_def)
    then show "\<not> in_range p 4096 a" using pages_disjoint [OF _ al _ that(2)] by simp
  qed
  then have "pool t xs" using pool_mem [OF pl, of "mem t"] by (simp add: t_def)
  then have "vm_inv t pt xs" using set(2,3) dis by (simp add: vm_inv_def)
  moreover have "kupd s t" by (simp add: t_def)
  moreover have "mem t a = mem s a" if "\<forall>g \<in> tpages (mem t) pt. \<not> in_range g 4096 a" for a
    using out that set(3) pT by auto
  ultimately show "extends s pt xs t xs" using set(3) by (auto simp: extends_def)
qed

section \<open>Mapping pages\<close>

text \<open>The entry for \<open>vb\<close> after \<open>k\<close> pages from \<open>va\<close> on were mapped to frames from \<open>pa\<close> on.\<close>

definition mapped_entry :: "u64 \<Rightarrow> nat \<Rightarrow> u64 \<Rightarrow> u64 \<Rightarrow> u64 \<Rightarrow> u64 \<Rightarrow> u64" where
  "mapped_entry va k pa perm vb old =
     (if vpn va \<le> vpn vb \<and> vpn vb < vpn va + k
      then PA2PTE (pa + of_nat (4096 * (vpn vb - vpn va))) OR perm OR PTE_V else old)"

lemma map_one:
  assumes inv: "vm_inv s pt xs" and va: "va < MAXVA" and free: "lookup (mem s) pt va AND PTE_V = 0"
  shows "(\<exists>s' xs'. mappages_loop pt va l pa perm s = Ok (-1, s') \<and> extends s pt xs s' xs' \<and> length xs < 2 \<and>
      (\<forall>vb. lookup (mem s') pt vb = lookup (mem s) pt vb)) \<or>
    (\<exists>s' xs'. mappages_loop pt va l pa perm s =
        (if va = l then Ok (0, s') else mappages_loop pt (va + PGSIZE) l (pa + PGSIZE) perm s') \<and>
      extends s pt xs s' xs' \<and> length xs \<le> length xs' + 2 \<and>
      (\<forall>vb < MAXVA. lookup (mem s') pt vb =
        (if vpn vb = vpn va then PA2PTE pa OR perm OR PTE_V else lookup (mem s) pt vb)))"
proof -
  obtain s1 xs1 pte where w: "walk pt va True s = Ok (pte, s1)" "grows s pt xs s1 xs1"
    "pte = 0 \<and> length xs < 2 \<or> length xs \<le> length xs1 + 2 \<and> pte = leaf_addr (mem s1) pt va \<and>
      tbl (mem s1) pt [idx 2 va, idx 1 va] \<noteq> None"
    using walk_alloc [OF inv va] by blast
  have same: "lookup (mem s1) pt vb = lookup (mem s) pt vb" for vb using w(2) by (simp add: grows_def)
  have inv1: "vm_inv s1 pt xs1" using w(2) by (simp add: grows_def)
  show ?thesis
  proof (cases "pte = 0")
    case True
    have "length xs < 2"
      using w(3) leaf_addr_nz(2) [of "mem s1" pt va] inv1 True by (auto simp: vm_inv_def)
    then show ?thesis
      using w True same grows_extends [OF w(2)] by (auto simp: mappages_loop.simps [of pt va])
  next
    case False
    with w(3) obtain p where p: "tbl (mem s1) pt [idx 2 va, idx 1 va] = Some p"
      and pte: "pte = leaf_addr (mem s1) pt va" and len: "length xs \<le> length xs1 + 2" by auto
    let ?s2 = "s1\<lparr>mem := store64 (mem s1) pte (PA2PTE pa OR perm OR PTE_V)\<rparr>"
    have ok: "pt_ok (mem s1) pt" using inv1 by (simp add: vm_inv_def)
    have "load64 (mem s1) pte AND PTE_V = 0"
      using leaf_addr_nz(3) [OF ok p] pte same free by simp
    then have "mappages_loop pt va l pa perm s =
        (if va = l then Ok (0, ?s2) else mappages_loop pt (va + PGSIZE) l (pa + PGSIZE) perm ?s2)"
      using w(1) False by (simp add: mappages_loop.simps [of pt va] Let_def)
    moreover note write_leaf [OF inv1 p va, where v = "PA2PTE pa OR perm OR PTE_V", folded pte]
    ultimately show ?thesis
      using len same extends_trans [OF grows_extends [OF w(2)]]
      by (intro disjI2 exI [of _ ?s2] exI [of _ xs1]) auto
  qed
qed

lemma vpn_less_MAXVA: "unat a + 4096 * k < 2 ^ 38 \<Longrightarrow> a + of_nat (4096 * k) < MAXVA"
  using unat_add_of_nat [of a "4096 * k"] by (simp add: word_less_nat_alt layout_simps)

lemma mappages_loop_ok:
  assumes "vm_inv s pt xs" "page_aligned va" "unat va + 4096 * Suc n \<le> 2 ^ 38"
    and "\<And>vb. vb < MAXVA \<Longrightarrow> vpn va \<le> vpn vb \<Longrightarrow> vpn vb \<le> vpn va + n \<Longrightarrow> lookup (mem s) pt vb AND PTE_V = 0"
  shows "\<exists>k s' xs'. mappages_loop pt va (va + of_nat (4096 * n)) pa perm s =
        Ok (if k = Suc n then 0 else -1, s') \<and>
      k \<le> Suc n \<and> extends s pt xs s' xs' \<and> (2 * Suc n \<le> length xs \<longrightarrow> k = Suc n) \<and>
      (\<forall>vb < MAXVA. lookup (mem s') pt vb = mapped_entry va k pa perm vb (lookup (mem s) pt vb))"
  using assms
proof (induction n arbitrary: s xs va pa)
  case 0
  have va: "va < MAXVA" using 0(3) vpn_less_MAXVA [of va 0] by simp
  have free: "lookup (mem s) pt va AND PTE_V = 0" using 0(4) va by simp
  from map_one [OF 0(1) va free, of va pa perm]
  show ?case
  proof (elim disjE exE conjE, goal_cases)
    case (1 s' xs')
    then show ?case
      by (intro exI [of _ 0] exI [of _ s'] exI [of _ xs']) (auto simp: mapped_entry_def)
  next
    case (2 s' xs')
    then show ?case
      by (intro exI [of _ "Suc 0"] exI [of _ s'] exI [of _ xs']) (auto simp: mapped_entry_def)
  qed
next
  case (Suc n)
  have va: "va < MAXVA" using Suc.prems(3) vpn_less_MAXVA [of va 0] by simp
  have free: "lookup (mem s) pt va AND PTE_V = 0" using Suc.prems(4) va by simp
  let ?l = "va + of_nat (4096 * Suc n)"
  have l: "?l = (va + PGSIZE) + of_nat (4096 * n)" by (simp add: PGSIZE_def)
  have up: "unat (va + PGSIZE) = unat va + 4096" using Suc.prems(3) by (intro unat_add_PGSIZE) simp
  then have vpn: "vpn (va + PGSIZE) = Suc (vpn va)" by simp
  have ne: "va \<noteq> ?l"
    using unat_add_of_nat [of va "4096 * Suc n"] Suc.prems(3) by auto
  from map_one [OF Suc.prems(1) va free, of ?l pa perm]
  show ?case
  proof (elim disjE exE conjE, goal_cases)
    case (1 s' xs')
    then show ?case
      by (intro exI [of _ 0] exI [of _ s'] exI [of _ xs']) (auto simp: mapped_entry_def)
  next
    case (2 s1 xs1)
    have inv1: "vm_inv s1 pt xs1" using 2(2) by (simp add: extends_def)
    have "page_aligned (va + PGSIZE)" using Suc.prems(2) up by (simp add: page_aligned_def)
    moreover have "unat (va + PGSIZE) + 4096 * Suc n \<le> 2 ^ 38" using up Suc.prems(3) by simp
    moreover have "lookup (mem s1) pt vb AND PTE_V = 0"
      if "vb < MAXVA" "vpn (va + PGSIZE) \<le> vpn vb" "vpn vb \<le> vpn (va + PGSIZE) + n" for vb
      using that vpn 2(4) Suc.prems(4) [of vb] by simp
    ultimately obtain k s' xs' where k: "mappages_loop pt (va + PGSIZE) ?l (pa + PGSIZE) perm s1 =
        Ok (if k = Suc n then 0 else -1, s')" "k \<le> Suc n" "extends s1 pt xs1 s' xs'"
      "2 * Suc n \<le> length xs1 \<longrightarrow> k = Suc n"
      "\<forall>vb < MAXVA. lookup (mem s') pt vb = mapped_entry (va + PGSIZE) k (pa + PGSIZE) perm vb (lookup (mem s1) pt vb)"
      using Suc.IH [OF inv1, of "va + PGSIZE" "pa + PGSIZE"] unfolding l by blast
    have "mappages_loop pt va ?l pa perm s = Ok (if Suc k = Suc (Suc n) then 0 else -1, s')"
      using 2(1) ne k(1) by simp
    moreover have "extends s pt xs s' xs'" using extends_trans 2(2) k(3) by blast
    moreover have "2 * Suc (Suc n) \<le> length xs \<longrightarrow> Suc k = Suc (Suc n)" using k(4) 2(3) by auto
    moreover have "lookup (mem s') pt vb = mapped_entry va (Suc k) pa perm vb (lookup (mem s) pt vb)"
      if "vb < MAXVA" for vb
    proof -
      have "vpn vb - vpn va = Suc (vpn vb - Suc (vpn va))" if "Suc (vpn va) \<le> vpn vb" using that by simp
      then show ?thesis
        using k(5) 2(4) that vpn by (auto simp: mapped_entry_def PGSIZE_def algebra_simps)
    qed
    ultimately show ?case using k(2) by (intro exI [of _ "Suc k"] exI [of _ s'] exI [of _ xs']) simp
  qed
qed

section \<open>Empty tables\<close>

lemma empty_table:
  assumes "page_aligned pt" "pt \<noteq> 0" "\<And>a. in_range pt 4096 a \<Longrightarrow> m a = 0"
  shows "pt_ok m pt" "tpages m pt = {pt}" "lookup m pt va = 0"
proof -
  have z: "entry m pt i = 0" if "i < 512" for i using zero_entry assms that by blast
  have t: "tbl m pt \<pi> = (if \<pi> = [] then Some pt else None)" if "\<pi> \<in> paths" for \<pi>
    using that z by (cases \<pi>) (auto simp: tbl.simps paths_def)
  show "tpages m pt = {pt}" using t by (auto simp: tpages_def intro: paths_idx)
  show "lookup m pt va = 0" by (simp add: lookup_def t)
  show "pt_ok m pt" using t assms(1,2) by (auto simp: pt_ok_def split: if_splits)
qed

lemma walkaddr_lookup [res_simps]:
  assumes "pt_ok (mem s) pt"
  shows "walkaddr pt va s = Ok (if va < MAXVA \<and> lookup (mem s) pt va AND PTE_V \<noteq> 0 \<and>
    lookup (mem s) pt va AND PTE_U \<noteq> 0 then PTE2PA (lookup (mem s) pt va) else 0, s)"
proof (cases "va < MAXVA")
  case True
  show ?thesis
  proof (cases "tbl (mem s) pt [idx 2 va, idx 1 va]")
    case None
    then show ?thesis using True by (simp add: walkaddr_def walk_find leaf_addr_def lookup_def)
  next
    case (Some p)
    then show ?thesis
      using True leaf_addr_nz [OF assms Some]
      by (simp add: walkaddr_def walk_find Let_def linorder_not_le [symmetric])
  qed
qed (auto simp: walkaddr_def)

section \<open>Properties\<close>

text \<open>C9. Mapping: on a well-formed page table in which \<open>n\<close> consecutive pages are unmapped,
  \<open>mappages\<close> never panics; it maps a prefix of them to consecutive frames with the permissions
  given, all of them (result 0) whenever two free pages per mapping are left, and otherwise
  reports -1. No other entry of the table changes, no memory outside the table's own pages
  changes, and the table stays well-formed and disjoint from the free list.\<close>

theorem mappages_maps:
  assumes "vm_inv s pt xs" "page_aligned va" "0 < n" "unat va + 4096 * n \<le> 2 ^ 38"
    and "\<forall>vb < MAXVA. vpn va \<le> vpn vb \<and> vpn vb < vpn va + n \<longrightarrow> lookup (mem s) pt vb AND PTE_V = 0"
  shows "\<exists>k s' xs'. mappages pt va (of_nat (4096 * n)) pa perm s = Ok (if k = n then 0 else -1, s') \<and>
    k \<le> n \<and> (2 * n \<le> length xs \<longrightarrow> k = n) \<and> vm_inv s' pt xs' \<and>
    (\<forall>a. (\<forall>g \<in> tpages (mem s') pt. \<not> in_range g 4096 a) \<longrightarrow> mem s' a = mem s a) \<and>
    (\<forall>vb < MAXVA. lookup (mem s') pt vb =
       (if vpn va \<le> vpn vb \<and> vpn vb < vpn va + k
        then PA2PTE (pa + of_nat (4096 * (vpn vb - vpn va))) OR perm OR PTE_V
        else lookup (mem s) pt vb))"
proof -
  obtain j where j: "n = Suc j" using assms(3) by (cases n) auto
  have sz: "unat (of_nat (4096 * n) :: u64) = 4096 * n"
    using assms(4) by (simp only: unat_of_nat) simp
  have "page_aligned (of_nat (4096 * n))" "of_nat (4096 * n) \<noteq> (0 :: u64)"
    using sz assms(3) by (simp_all only: page_aligned_def) (auto simp flip: unat_eq_zero)
  then have "mappages pt va (of_nat (4096 * n)) pa perm s =
      mappages_loop pt va (va + of_nat (4096 * j)) pa perm s"
    using assms(2) j by (simp add: mappages_def page_aligned_iff PGSIZE_def algebra_simps)
  moreover have "\<exists>k s' xs'. mappages_loop pt va (va + of_nat (4096 * j)) pa perm s =
        Ok (if k = Suc j then 0 else -1, s') \<and> k \<le> Suc j \<and> extends s pt xs s' xs' \<and>
      (2 * Suc j \<le> length xs \<longrightarrow> k = Suc j) \<and>
      (\<forall>vb < MAXVA. lookup (mem s') pt vb = mapped_entry va k pa perm vb (lookup (mem s) pt vb))"
    using assms j by (intro mappages_loop_ok) auto
  ultimately show ?thesis
    unfolding j by (elim exE conjE, intro exI conjI) (auto simp: extends_def mapped_entry_def)
qed

lemma vm_ex_inv: "vm_inv kmem_ex 0x87002000 [0x87000000, 0x87001000]"
  and vm_ex_lookup: "lookup (mem kmem_ex) 0x87002000 va = 0"
  and vm_ex_tpages: "tpages (mem kmem_ex) 0x87002000 = {0x87002000}"
proof -
  have "\<not> in_range 0x87000000 8 a" if "in_range 0x87002000 4096 a" for a
  proof -
    have "\<not> in_range 0x87000000 4096 a" using pages_disjoint [OF _ _ _ that] by (simp add: page_aligned_def)
    then show ?thesis by (simp add: in_range_def)
  qed
  then have z: "mem kmem_ex a = 0" if "in_range 0x87002000 4096 a" for a
    using that by (simp add: kmem_ex_def store64_other)
  note e = empty_table [of "0x87002000" "mem kmem_ex", OF _ _ z]
  show "vm_inv kmem_ex 0x87002000 [0x87000000, 0x87001000]"
    using e kmem_ex_pool by (simp add: vm_inv_def page_aligned_def)
  show "lookup (mem kmem_ex) 0x87002000 va = 0" "tpages (mem kmem_ex) 0x87002000 = {0x87002000}"
    using e by (simp_all add: page_aligned_def)
qed

theorem mappages_maps_witness:
  "\<exists>s' xs'. mappages 0x87002000 0x1000 0x1000 0x87003000 (PTE_R OR PTE_U) kmem_ex = Ok (0, s') \<and>
     vm_inv s' 0x87002000 xs' \<and> lookup (mem s') 0x87002000 0x1234 = PA2PTE 0x87003000 OR (PTE_R OR PTE_U) OR PTE_V"
proof -
  obtain k s' xs' where r: "mappages 0x87002000 0x1000 0x1000 0x87003000 (PTE_R OR PTE_U) kmem_ex =
      Ok (if k = 1 then 0 else -1, s')" "k = 1" "vm_inv s' 0x87002000 xs'"
    "lookup (mem s') 0x87002000 0x1234 = (if vpn 0x1000 \<le> vpn 0x1234 \<and> vpn 0x1234 < vpn 0x1000 + k
        then PA2PTE (0x87003000 + of_nat (4096 * (vpn 0x1234 - vpn 0x1000))) OR (PTE_R OR PTE_U) OR PTE_V
        else lookup (mem kmem_ex) 0x87002000 0x1234)"
    using mappages_maps [OF vm_ex_inv, of "0x1000" 1 "0x87003000" "PTE_R OR PTE_U"]
    by (auto simp: vm_ex_lookup page_aligned_def layout_simps)
  then show ?thesis by (intro exI [of _ s'] exI [of _ xs']) simp
qed

end
