(* ===== verification/Uvm.thy ===== *)
theory Uvm
  imports Pagetable
begin

text \<open>
  User memory as the kernel sees it: unmapping and freeing pages, the copies between kernel and
  user memory, and lazy allocation. \<open>uaddr m pt va\<close> is the physical byte that the page table maps
  \<open>va\<close> to; the copy routines are shown to read and write exactly those bytes.
\<close>

section \<open>Unmapping\<close>

definition valid :: "mem \<Rightarrow> u64 \<Rightarrow> u64 \<Rightarrow> bool" where
  "valid m pt va \<longleftrightarrow> lookup m pt va AND PTE_V \<noteq> 0"

definition frame :: "mem \<Rightarrow> u64 \<Rightarrow> u64 \<Rightarrow> u64" where
  "frame m pt va = PTE2PA (lookup m pt va)"

lemma kfree_pool:
  assumes "pool s xs" "ram_page s p" "p \<notin> set xs"
  shows "\<exists>s'. kfree p s = Ok s' \<and> pool s' (p # xs) \<and> kupd s s' \<and>
    (\<forall>a. \<not> in_range p 4096 a \<longrightarrow> mem s' a = mem s a)"
proof -
  let ?s' = "s\<lparr>mach := sync (mach s), mem := store64 (memset (mem s) p 1 4096) p (freelist s), freelist := p\<rparr>"
  have "kfree p s = Ok ?s'" using kfree_ok [of s p] assms by (simp add: pool_def)
  moreover have "pool ?s' (p # xs)" using kfree_free_list [of s xs p] assms by (simp add: pool_def)
  moreover have "kupd s ?s'" by (rule kupdI) simp
  ultimately show ?thesis by (intro exI [of _ ?s']) (auto simp: store64_in_page memset_page)
qed

lemma unmap_one:
  assumes inv: "vm_inv s pt xs" and va: "va < MAXVA"
    and fr: "do_free \<Longrightarrow> valid (mem s) pt va \<Longrightarrow> ram_page s (frame (mem s) pt va) \<and>
      frame (mem s) pt va \<notin> set xs \<union> tpages (mem s) pt"
  shows "\<exists>s' xs'. uvmunmap1 pt va do_free s = Ok s' \<and> vm_inv s' pt xs' \<and> kupd s s' \<and>
    tpages (mem s') pt = tpages (mem s) pt \<and>
    set xs' = set xs \<union> (if do_free \<and> valid (mem s) pt va then {frame (mem s) pt va} else {}) \<and>
    (\<forall>vb < MAXVA. lookup (mem s') pt vb =
      (if vpn vb = vpn va \<and> valid (mem s) pt va then 0 else lookup (mem s) pt vb))"
proof (cases "valid (mem s) pt va")
  case False
  have "uvmunmap1 pt va do_free s = Ok s"
  proof (cases "tbl (mem s) pt [idx 2 va, idx 1 va]")
    case None
    then show ?thesis using va by (simp add: uvmunmap1_def walk_find leaf_addr_def)
  next
    case (Some p)
    then show ?thesis
      using leaf_addr_nz [OF _ Some] inv va False
      by (simp add: uvmunmap1_def walk_find vm_inv_def valid_def Let_def)
  qed
  then show ?thesis using inv False by (intro exI [of _ s] exI [of _ xs]) auto
next
  case True
  then obtain p where p: "tbl (mem s) pt [idx 2 va, idx 1 va] = Some p"
    by (auto simp: valid_def lookup_def split: option.splits)
  have ok: "pt_ok (mem s) pt" and pl: "pool s xs" and dis: "tpages (mem s) pt \<inter> set xs = {}"
    using inv by (simp_all add: vm_inv_def)
  note leaf = leaf_addr_nz [OF ok p]
  let ?f = "frame (mem s) pt va"
  obtain s1 xs1 where s1: "(if do_free then kfree ?f s else Ok s) = Ok s1" "pool s1 xs1" "kupd s s1"
    "xs1 = (if do_free then ?f # xs else xs)" "\<forall>a. do_free \<and> in_range ?f 4096 a \<or> mem s1 a = mem s a"
    using kfree_pool [OF pl, of ?f] fr True pl by (cases do_free) auto
  have same: "mem s1 a = mem s a" if "q \<in> tpages (mem s) pt" "in_range q 4096 a" for q a
  proof -
    have "page_aligned q" using that(1) ok by (auto simp: tpages_def dest: pt_okD)
    moreover have "do_free \<Longrightarrow> page_aligned ?f \<and> q \<noteq> ?f" using fr True that(1) by (auto simp: ram_page_def)
    ultimately show ?thesis using s1(5) pages_disjoint that(2) by metis
  qed
  note fm = pt_frame [OF ok same]
  have p1: "tbl (mem s1) pt [idx 2 va, idx 1 va] = Some p" using fm(1) p by simp
  have inv1: "vm_inv s1 pt xs1"
    using s1(2,4) fm(3,4) dis fr True by (auto simp: vm_inv_def)
  have la: "leaf_addr (mem s) pt va = leaf_addr (mem s1) pt va"
    using leaf(1) leaf_addr_nz(1) [OF fm(3) p1] by simp
  let ?s2 = "s1\<lparr>mem := store64 (mem s1) (leaf_addr (mem s1) pt va) 0\<rparr>"
  note wr = write_leaf [OF inv1 p1 va, where v = 0]
  have "uvmunmap1 pt va do_free s = Ok ?s2"
    using va True leaf s1(1) la
    by (simp add: uvmunmap1_def walk_find valid_def frame_def Let_def split: if_splits)
  moreover have "vm_inv ?s2 pt xs1" "kupd s ?s2"
    using wr(1) kupd_trans [OF s1(3) kupd_mem] by (simp_all add: extends_def)
  moreover have "tpages (mem ?s2) pt = tpages (mem s) pt" using wr(1) fm(4) by (auto simp: extends_def)
  moreover have "set xs1 = set xs \<union> (if do_free \<and> valid (mem s) pt va then {?f} else {})"
    using s1(4) True by auto
  moreover have "\<forall>vb < MAXVA. lookup (mem ?s2) pt vb =
      (if vpn vb = vpn va \<and> valid (mem s) pt va then 0 else lookup (mem s) pt vb)"
    using wr(2) fm(2) True by simp
  ultimately show ?thesis by blast
qed

text \<open>The pages \<open>va\<close> to \<open>va + 4096 * n\<close>; \<open>frames\<close> are the frames mapped there. Frames that are to
  be freed must be RAM pages, mapped once, and neither free nor part of the page table.\<close>

definition in_pages :: "u64 \<Rightarrow> nat \<Rightarrow> u64 \<Rightarrow> bool" where
  "in_pages va n vb \<longleftrightarrow> vb < MAXVA \<and> vpn va \<le> vpn vb \<and> vpn vb < vpn va + n"

definition frames :: "mem \<Rightarrow> u64 \<Rightarrow> u64 \<Rightarrow> nat \<Rightarrow> u64 set" where
  "frames m pt va n = frame m pt ` {vb. in_pages va n vb \<and> valid m pt vb}"

definition frames_ok :: "'a kmem_scheme \<Rightarrow> u64 \<Rightarrow> u64 list \<Rightarrow> u64 \<Rightarrow> nat \<Rightarrow> bool" where
  "frames_ok s pt xs va n \<longleftrightarrow>
     (\<forall>vb. in_pages va n vb \<and> valid (mem s) pt vb \<longrightarrow> ram_page s (frame (mem s) pt vb) \<and>
        frame (mem s) pt vb \<notin> set xs \<union> tpages (mem s) pt) \<and>
     (\<forall>vb vc. in_pages va n vb \<and> in_pages va n vc \<and> valid (mem s) pt vb \<and> valid (mem s) pt vc \<and>
        vpn vb \<noteq> vpn vc \<longrightarrow> frame (mem s) pt vb \<noteq> frame (mem s) pt vc)"

lemma lookup_vpn:
  assumes "va < MAXVA" "vb < MAXVA" "vpn va = vpn vb"
  shows "lookup m pt va = lookup m pt vb"
  using path_eq_iff [OF assms(1,2)] assms(3) by (simp add: lookup_def cong: option.case_cong)

lemma in_pages_Suc:
  assumes "va < MAXVA" "unat (va + PGSIZE) = unat va + 4096"
  shows "in_pages va (Suc n) vb \<longleftrightarrow> vb < MAXVA \<and> vpn vb = vpn va \<or> in_pages (va + PGSIZE) n vb"
  using assms by (auto simp: in_pages_def)

lemma frames_cong:
  assumes "\<And>vb. in_pages va n vb \<Longrightarrow> lookup m' pt vb = lookup m pt vb"
  shows "frames m' pt va n = frames m pt va n"
  unfolding frames_def by (rule image_cong) (auto simp: valid_def frame_def assms)

lemma frames_Suc:
  assumes "va < MAXVA" "unat (va + PGSIZE) = unat va + 4096"
  shows "frames m pt va (Suc n) =
    frames m pt (va + PGSIZE) n \<union> (if valid m pt va then {frame m pt va} else {})"
proof (intro set_eqI iffI)
  fix f assume "f \<in> frames m pt va (Suc n)"
  then obtain vb where vb: "in_pages va (Suc n) vb" "valid m pt vb" "f = frame m pt vb"
    by (auto simp: frames_def)
  show "f \<in> frames m pt (va + PGSIZE) n \<union> (if valid m pt va then {frame m pt va} else {})"
  proof (cases "in_pages (va + PGSIZE) n vb")
    case True
    then show ?thesis using vb by (auto simp: frames_def)
  next
    case False
    then have "lookup m pt vb = lookup m pt va"
      using vb(1) lookup_vpn [OF _ assms(1), of vb] by (simp add: in_pages_Suc [OF assms])
    then show ?thesis using vb by (simp add: valid_def frame_def)
  qed
next
  fix f assume "f \<in> frames m pt (va + PGSIZE) n \<union> (if valid m pt va then {frame m pt va} else {})"
  then show "f \<in> frames m pt va (Suc n)"
    using assms(1) by (auto simp: frames_def in_pages_Suc [OF assms] split: if_splits)
qed

lemma uvmunmap_loop_ok:
  assumes "vm_inv s pt xs" "unat va + 4096 * n \<le> 2 ^ 38" "do_free \<Longrightarrow> frames_ok s pt xs va n"
  shows "\<exists>s' xs'. uvmunmap_loop pt va (va + of_nat (4096 * n)) do_free s = Ok s' \<and> vm_inv s' pt xs' \<and>
    kupd s s' \<and> tpages (mem s') pt = tpages (mem s) pt \<and>
    set xs' = set xs \<union> (if do_free then frames (mem s) pt va n else {}) \<and>
    (\<forall>vb < MAXVA. lookup (mem s') pt vb =
      (if in_pages va n vb \<and> valid (mem s) pt vb then 0 else lookup (mem s) pt vb))"
  using assms
proof (induction n arbitrary: s xs va)
  case 0
  then show ?case
    by (intro exI [of _ s] exI [of _ xs])
       (auto simp: uvmunmap_loop.simps frames_def in_pages_def)
next
  case (Suc n)
  have va: "va < MAXVA" using Suc.prems(2) vpn_less_MAXVA [of va 0] by simp
  have up: "unat (va + PGSIZE) = unat va + 4096" using Suc.prems(2) by (intro unat_add_PGSIZE) simp
  note pages = in_pages_Suc [OF va up]
  have fr: "ram_page s (frame (mem s) pt va) \<and> frame (mem s) pt va \<notin> set xs \<union> tpages (mem s) pt"
    if "do_free" "valid (mem s) pt va"
    using Suc.prems(3) [OF that(1)] that(2) va by (auto simp: frames_ok_def pages)
  obtain s1 xs1 where s1: "uvmunmap1 pt va do_free s = Ok s1" "vm_inv s1 pt xs1" "kupd s s1"
    "tpages (mem s1) pt = tpages (mem s) pt"
    "set xs1 = set xs \<union> (if do_free \<and> valid (mem s) pt va then {frame (mem s) pt va} else {})"
    "\<forall>vb < MAXVA. lookup (mem s1) pt vb =
      (if vpn vb = vpn va \<and> valid (mem s) pt va then 0 else lookup (mem s) pt vb)"
    using unmap_one [OF Suc.prems(1) va fr] by blast
  have rest: "lookup (mem s1) pt vb = lookup (mem s) pt vb" if "in_pages (va + PGSIZE) n vb" for vb
    using that s1(6) up by (auto simp: in_pages_def)
  have rest': "valid (mem s1) pt vb = valid (mem s) pt vb" "frame (mem s1) pt vb = frame (mem s) pt vb"
    if "in_pages (va + PGSIZE) n vb" for vb
    using rest [OF that] by (simp_all add: valid_def frame_def)
  have ok1: "frames_ok s1 pt xs1 (va + PGSIZE) n" if "do_free"
  proof -
    have ok: "frames_ok s pt xs va (Suc n)" using Suc.prems(3) that .
    have ne: "frame (mem s) pt vb \<noteq> frame (mem s) pt va"
      if "in_pages (va + PGSIZE) n vb" "valid (mem s) pt vb" "valid (mem s) pt va" for vb
    proof -
      have "in_pages va (Suc n) vb" "in_pages va (Suc n) va" "vpn vb \<noteq> vpn va"
        using that(1) va up by (auto simp: in_pages_def)
      then show ?thesis using ok that(2,3) unfolding frames_ok_def by blast
    qed
    show ?thesis
      unfolding frames_ok_def
    proof (intro conjI allI impI; elim conjE)
      fix vb assume "in_pages (va + PGSIZE) n vb" "valid (mem s1) pt vb"
      then show "ram_page s1 (frame (mem s1) pt vb)"
        using ok rest' kupdD(3) [OF s1(3)] by (auto simp: frames_ok_def pages)
    next
      fix vb assume vb: "in_pages (va + PGSIZE) n vb" "valid (mem s1) pt vb"
      then have "frame (mem s) pt vb \<notin> set xs \<union> tpages (mem s) pt"
        using ok rest' by (auto simp: frames_ok_def pages)
      then show "frame (mem s1) pt vb \<notin> set xs1 \<union> tpages (mem s1) pt"
        using vb ne [of vb] rest' [OF vb(1)] s1(4,5) by (auto split: if_splits)
    next
      fix vb vc assume "in_pages (va + PGSIZE) n vb" "in_pages (va + PGSIZE) n vc"
        "valid (mem s1) pt vb" "valid (mem s1) pt vc" "vpn vb \<noteq> vpn vc"
      then show "frame (mem s1) pt vb \<noteq> frame (mem s1) pt vc"
        using ok rest' by (auto simp: frames_ok_def pages)
    qed
  qed
  have e: "va + of_nat (4096 * Suc n) = (va + PGSIZE) + of_nat (4096 * n)" by (simp add: PGSIZE_def)
  have lt: "va < va + of_nat (4096 * Suc n)"
    using unat_add_of_nat [of va "4096 * Suc n"] Suc.prems(2) by (simp add: word_less_nat_alt)
  obtain s2 xs2 where s2: "uvmunmap_loop pt (va + PGSIZE) (va + of_nat (4096 * Suc n)) do_free s1 = Ok s2"
    "vm_inv s2 pt xs2" "kupd s1 s2" "tpages (mem s2) pt = tpages (mem s1) pt"
    "set xs2 = set xs1 \<union> (if do_free then frames (mem s1) pt (va + PGSIZE) n else {})"
    "\<forall>vb < MAXVA. lookup (mem s2) pt vb =
      (if in_pages (va + PGSIZE) n vb \<and> valid (mem s1) pt vb then 0 else lookup (mem s1) pt vb)"
    using Suc.IH [OF s1(2), of "va + PGSIZE"] ok1 up Suc.prems(2) unfolding e by auto
  have fr2: "frames (mem s) pt va (Suc n) =
      frames (mem s1) pt (va + PGSIZE) n \<union> (if valid (mem s) pt va then {frame (mem s) pt va} else {})"
    using frames_Suc [OF va up] frames_cong [OF rest] by simp
  have "uvmunmap_loop pt va (va + of_nat (4096 * Suc n)) do_free s = Ok s2"
    using s1(1) s2(1) lt by (simp add: uvmunmap_loop.simps [of pt va])
  moreover have "kupd s s2" using kupd_trans s1(3) s2(3) by blast
  moreover have "lookup (mem s2) pt vb =
      (if in_pages va (Suc n) vb \<and> valid (mem s) pt vb then 0 else lookup (mem s) pt vb)" if "vb < MAXVA" for vb
  proof -
    have "vpn vb = vpn va \<Longrightarrow> valid (mem s) pt vb = valid (mem s) pt va"
      using lookup_vpn [OF that va] by (simp add: valid_def)
    then show ?thesis using s2(6) s1(6) that rest' rest by (auto simp: pages)
  qed
  ultimately show ?case
    using s2(2,4,5) s1(4,5) fr2 by (intro exI [of _ s2] exI [of _ xs2]) auto
qed

section \<open>Copying\<close>

definition uaddr :: "mem \<Rightarrow> u64 \<Rightarrow> u64 \<Rightarrow> u64" where
  "uaddr m pt va = frame m pt va + (va - PGROUNDDOWN va)"

definition readable :: "mem \<Rightarrow> u64 \<Rightarrow> u64 \<Rightarrow> bool" where
  "readable m pt va \<longleftrightarrow> va < MAXVA \<and> valid m pt va \<and> lookup m pt va AND PTE_U \<noteq> 0 \<and> frame m pt va \<noteq> 0"

definition writable :: "mem \<Rightarrow> u64 \<Rightarrow> u64 \<Rightarrow> bool" where
  "writable m pt va \<longleftrightarrow> readable m pt va \<and> lookup m pt va AND PTE_W \<noteq> 0"

lemma page_aligned_frame [simp]: "page_aligned (frame m pt va)"
proof -
  have "PGROUNDDOWN (PTE2PA x) = PTE2PA x" for x
    unfolding PGROUNDDOWN_eq PTE2PA_def by (rule bit_word_eqI) (auto simp: bit_simps)
  then show ?thesis unfolding frame_def by (metis page_aligned_PGROUNDDOWN)
qed

lemma offset_eq: "va - PGROUNDDOWN va = of_nat (unat va mod 4096)"
  unfolding page_offset [symmetric] by simp

lemma vpn_PGROUNDDOWN: "va < MAXVA \<Longrightarrow> vpn (PGROUNDDOWN va) = vpn va \<and> PGROUNDDOWN va < MAXVA"
proof -
  assume "va < MAXVA"
  moreover have "unat (PGROUNDDOWN va) \<le> unat va" by (simp add: unat_PGROUNDDOWN)
  ultimately show ?thesis by (simp add: unat_PGROUNDDOWN word_less_nat_alt)
qed

lemma lookup_PGROUNDDOWN: "va < MAXVA \<Longrightarrow> lookup m pt (PGROUNDDOWN va) = lookup m pt va"
  using vpn_PGROUNDDOWN [of va] by (intro lookup_vpn) auto

lemma fault_in_mapped [res_simps]:
  assumes "pt_ok (mem s) pt" "readable (mem s) pt va"
  shows "fault_in pt (PGROUNDDOWN va) s = Ok (frame (mem s) pt va, s)"
proof -
  have "va < MAXVA" using assms(2) by (simp add: readable_def)
  then show ?thesis
    using assms vpn_PGROUNDDOWN [of va] lookup_PGROUNDDOWN [of va "mem s" pt]
    by (simp add: fault_in_def walkaddr_lookup readable_def valid_def frame_def)
qed

lemma div_mod_in_page:
  fixes x i :: nat
  assumes "i < 4096 - x mod 4096"
  shows "(x + i) div 4096 = x div 4096" "(x + i) mod 4096 = x mod 4096 + i"
proof -
  have lt: "x mod 4096 + i < 4096" using assms by linarith
  have "x + i = (x mod 4096 + i) + x div 4096 * 4096" by simp
  then have "(x + i) div 4096 = ((x mod 4096 + i) + x div 4096 * 4096) div 4096"
    "(x + i) mod 4096 = ((x mod 4096 + i) + x div 4096 * 4096) mod 4096" by simp_all
  then show "(x + i) div 4096 = x div 4096" "(x + i) mod 4096 = x mod 4096 + i"
    using lt by (simp_all only: div_mult_self3 mod_mult_self3 div_mult_self1 mod_mult_self1) simp_all
qed

text \<open>Inside one round of a copy loop the physical addresses are consecutive, and the next round
  starts at the next page.\<close>

lemma chunk_addr:
  assumes "i < chunk va len" "unat va + len \<le> 2 ^ 38"
  shows "vpn (va + of_nat i) = vpn va" "va + of_nat i < MAXVA"
    "uaddr m pt (va + of_nat i) = uaddr m pt va + of_nat i"
    "in_range (frame m pt va) 4096 (uaddr m pt va + of_nat i)"
proof -
  have i: "i < 4096 - unat va mod 4096" "i < len" using assms(1) by (simp_all add: chunk_eq)
  have u: "unat (va + of_nat i) = unat va + i" using assms(2) i(2) by (intro unat_add_of_nat) simp
  have vm: "va < MAXVA" using assms(2) i(2) by (simp add: word_less_nat_alt layout_simps)
  show lt: "va + of_nat i < MAXVA" using u assms(2) i(2) by (simp add: word_less_nat_alt layout_simps)
  note md = div_mod_in_page [OF i(1)]
  with u show vp: "vpn (va + of_nat i) = vpn va" by simp
  have "frame m pt (va + of_nat i) = frame m pt va"
    using lookup_vpn [OF lt vm vp] by (simp add: frame_def)
  then show "uaddr m pt (va + of_nat i) = uaddr m pt va + of_nat i"
    using u md(2) by (simp add: uaddr_def offset_eq)
  have "uaddr m pt va + of_nat i = frame m pt va + of_nat (unat va mod 4096 + i)"
    by (simp add: uaddr_def offset_eq)
  moreover have "unat va mod 4096 + i < 4096" using i(1) by linarith
  ultimately show "in_range (frame m pt va) 4096 (uaddr m pt va + of_nat i)"
    using in_page_offset [OF page_aligned_frame, of "unat va mod 4096 + i" m pt va] by (simp only:)
qed

lemma chunk_next:
  assumes "chunk va len < len" "unat va + len \<le> 2 ^ 38"
  shows "PGROUNDDOWN va + PGSIZE = va + of_nat (chunk va len)"
proof -
  have c: "chunk va len = 4096 - unat va mod 4096" using assms(1) by (simp add: chunk_eq)
  have "PGROUNDDOWN va = va - of_nat (unat va mod 4096)" using offset_eq [of va] by (simp add: algebra_simps)
  then show ?thesis by (simp add: c PGSIZE_def of_nat_diff)
qed

lemma map_upt_shift: "k \<le> n \<Longrightarrow> map f [k..<n] = map (\<lambda>i. f (k + i)) [0..<n - k]"
  by (rule nth_equalityI) simp_all

lemma copyin_ok:
  assumes "pt_ok (mem s) pt" "unat va + len \<le> 2 ^ 38" "\<And>i. i < len \<Longrightarrow> readable (mem s) pt (va + of_nat i)"
  shows "copyin pt va len s = Ok (0, map (\<lambda>i. mem s (uaddr (mem s) pt (va + of_nat i))) [0..<len], s)"
  using assms(2,3)
proof (induction len arbitrary: va rule: less_induct)
  case (less len)
  show ?case
  proof (cases "len = 0")
    case True
    then show ?thesis by (simp add: copyin.simps)
  next
    case False
    let ?n = "chunk va len" and ?va0 = "PGROUNDDOWN va"
    have n: "0 < ?n" "?n \<le> len" using False chunk_bounds [where va = va and len = len] by auto
    have r: "readable (mem s) pt va" using less.prems(2) [of 0] False by simp
    have first: "bytes_at (mem s) (uaddr (mem s) pt va) ?n =
        map (\<lambda>i. mem s (uaddr (mem s) pt (va + of_nat i))) [0..<?n]"
      using chunk_addr(3) [OF _ less.prems(1)] by (simp add: bytes_at_def)
    have rest: "copyin pt (?va0 + PGSIZE) (len - ?n) s =
        Ok (0, map (\<lambda>i. mem s (uaddr (mem s) pt (va + of_nat i))) [?n..<len], s)"
    proof (cases "?n = len")
      case True
      then show ?thesis by (simp add: copyin.simps)
    next
      case False
      then have lt: "?n < len" using n by simp
      have nx: "?va0 + PGSIZE = va + of_nat ?n" by (rule chunk_next [OF lt less.prems(1)])
      have u: "unat (va + of_nat ?n) = unat va + ?n" using less.prems(1) lt by (intro unat_add_of_nat) simp
      have "copyin pt (va + of_nat ?n) (len - ?n) s = Ok (0, map (\<lambda>i. mem s (uaddr (mem s) pt
          (va + of_nat ?n + of_nat i))) [0..<len - ?n], s)"
      proof (rule less.IH)
        show "unat (va + of_nat ?n) + (len - ?n) \<le> 2 ^ 38" using u less.prems(1) lt by simp
        show "readable (mem s) pt (va + of_nat ?n + of_nat i)" if "i < len - ?n" for i
          using less.prems(2) [of "?n + i"] that by (simp add: add.assoc)
      qed (use n lt in simp)
      then show ?thesis by (simp add: nx add.assoc map_upt_shift [OF n(2)])
    qed
    have "[0..<len] = [0..<?n] @ [?n..<len]" using n(2) upt_add_eq_append [of 0 ?n "len - ?n"] by simp
    then show ?thesis
      using False fault_in_mapped [OF assms(1) r] first rest r
      by (simp add: copyin.simps [of pt va] Let_def uaddr_def readable_def)
  qed
qed

text \<open>The bytes \<open>va\<close> to \<open>va + n\<close> can be written: their pages are mapped writable, each to a frame
  of its own that is not part of the page table.\<close>

definition user_range :: "mem \<Rightarrow> u64 \<Rightarrow> u64 \<Rightarrow> nat \<Rightarrow> bool" where
  "user_range m pt va n \<longleftrightarrow> unat va + n \<le> 2 ^ 38 \<and>
     (\<forall>i < n. writable m pt (va + of_nat i) \<and> frame m pt (va + of_nat i) \<notin> tpages m pt) \<and>
     (\<forall>i < n. \<forall>j < n. vpn (va + of_nat i) \<noteq> vpn (va + of_nat j) \<longrightarrow>
        frame m pt (va + of_nat i) \<noteq> frame m pt (va + of_nat j))"

lemma uaddr_in_frame: "in_range (frame m pt va) 4096 (uaddr m pt va)"
proof -
  have "unat va mod 4096 < 4096" by simp
  then show ?thesis
    unfolding uaddr_def offset_eq by (rule in_page_offset [OF page_aligned_frame])
qed

lemma uaddr_cong:
  assumes "lookup m' pt va = lookup m pt va"
  shows "frame m' pt va = frame m pt va" "uaddr m' pt va = uaddr m pt va"
    "valid m' pt va = valid m pt va" "writable m' pt va = writable m pt va" "readable m' pt va = readable m pt va"
  using assms by (simp_all add: frame_def uaddr_def valid_def writable_def readable_def)

lemma user_rangeD:
  "user_range m pt va n \<Longrightarrow> i < n \<Longrightarrow>
    writable m pt (va + of_nat i) \<and> frame m pt (va + of_nat i) \<notin> tpages m pt"
  by (simp add: user_range_def)

lemma user_range_drop:
  assumes "user_range m pt va n" "k \<le> n" "0 < n - k"
  shows "user_range m pt (va + of_nat k) (n - k)" "unat (va + of_nat k) = unat va + k"
proof -
  show u: "unat (va + of_nat k) = unat va + k"
    using assms by (intro unat_add_of_nat) (simp add: user_range_def)
  have shift: "va + of_nat k + of_nat i = va + of_nat (k + i)" for i by (simp add: add.assoc)
  have in_r: "k + i < n" if "i < n - k" for i using that by simp
  have "unat (va + of_nat k) + (n - k) \<le> 2 ^ 38" using u assms by (simp add: user_range_def)
  then show "user_range m pt (va + of_nat k) (n - k)"
    using assms(1) in_r unfolding user_range_def shift by blast
qed

lemma write_bytes_at: "i < length bs \<Longrightarrow> length bs < 2 ^ 64 \<Longrightarrow> write_bytes m a bs (a + of_nat i) = bs ! i"
  by (simp add: write_bytes_def unat_of_nat)

lemma write_bytes_notin:
  assumes "\<And>i. i < length bs \<Longrightarrow> x \<noteq> a + of_nat i"
  shows "write_bytes m a bs x = m x"
proof (rule write_bytes_other)
  show "\<not> in_range a (length bs) x"
    using assms [of "unat (x - a)"] by (auto simp: in_range_def)
qed

lemma copyout_ok:
  assumes "pt_ok (mem s) pt" "user_range (mem s) pt va (length src)"
  shows "\<exists>m'. copyout pt va src s = Ok (0, s\<lparr>mem := m'\<rparr>) \<and>
    (\<forall>i < length src. m' (uaddr (mem s) pt (va + of_nat i)) = src ! i) \<and>
    (\<forall>a. (\<forall>i < length src. a \<noteq> uaddr (mem s) pt (va + of_nat i)) \<longrightarrow> m' a = mem s a)"
  using assms
proof (induction "length src" arbitrary: src va s rule: less_induct)
  case less
  show ?case
  proof (cases "src = []")
    case True
    then show ?thesis by (intro exI [of _ "mem s"]) (simp add: copyout.simps)
  next
    case False
    let ?n = "chunk va (length src)" and ?va0 = "PGROUNDDOWN va" and ?m = "mem s"
    have n: "0 < ?n" "?n \<le> length src" "?n \<le> 4096" using False chunk_bounds [where va = va and len = "length src"] by auto
    have ur: "unat va + length src \<le> 2 ^ 38" using less.prems(2) by (simp add: user_range_def)
    have w: "writable ?m pt va" "frame ?m pt va \<notin> tpages ?m pt"
      using user_rangeD [OF less.prems(2), of 0] False by simp_all
    have vm: "va < MAXVA" using w(1) by (simp add: writable_def readable_def)
    note cha = chunk_addr [OF _ ur]
    let ?m1 = "write_bytes ?m (uaddr ?m pt va) (take ?n src)" and ?s1 = "s\<lparr>mem := write_bytes ?m (uaddr ?m pt va) (take ?n src)\<rparr>"
    have out: "?m1 a = ?m a" if "\<not> in_range (frame ?m pt va) 4096 a" for a
      using that cha(4) n(2) by (intro write_bytes_notin) auto
    have same: "?m1 a = ?m a" if "q \<in> tpages ?m pt" "in_range q 4096 a" for q a
    proof (rule out)
      have "page_aligned q" "q \<noteq> frame ?m pt va"
        using that(1) w(2) less.prems(1) by (auto simp: tpages_def dest: pt_okD)
      then show "\<not> in_range (frame ?m pt va) 4096 a" using pages_disjoint [OF _ page_aligned_frame] that(2) by blast
    qed
    have fm: "pt_ok ?m1 pt" "tpages ?m1 pt = tpages ?m pt" "lookup ?m1 pt vb = lookup ?m pt vb" for vb
      using pt_frame(2-4) [OF less.prems(1), of ?m1] same by blast+
    note cong = uaddr_cong [OF fm(3)]
    have step: "copyout pt va src s = copyout pt (?va0 + PGSIZE) (drop ?n src) ?s1"
    proof -
      have "?va0 < MAXVA" "lookup ?m pt ?va0 = lookup ?m pt va"
        using vpn_PGROUNDDOWN [OF vm] lookup_PGROUNDDOWN [OF vm] by auto
      moreover have "load64 ?m (leaf_addr ?m pt ?va0) = lookup ?m pt ?va0"
      proof -
        have "lookup ?m pt ?va0 \<noteq> 0"
          using w(1) \<open>lookup ?m pt ?va0 = _\<close> by (auto simp: writable_def)
        then obtain p where "tbl ?m pt [idx 2 ?va0, idx 1 ?va0] = Some p"
          by (auto simp: lookup_def split: option.splits)
        then show ?thesis by (rule leaf_addr_nz(3) [OF less.prems(1)])
      qed
      ultimately show ?thesis
        using False w(1) fault_in_mapped [OF less.prems(1)]
        by (simp add: copyout.simps [of pt va] walk_find Let_def uaddr_def writable_def readable_def
            linorder_not_le [symmetric])
    qed
    have here: "?m1 (uaddr ?m pt (va + of_nat i)) = src ! i" if "i < ?n" for i
      using cha(3) [OF that] write_bytes_at [of i "take ?n src"] that n by simp
    show ?thesis
    proof (cases "?n = length src")
      case True
      have "copyout pt va src s = Ok (0, ?s1)" using step True by (simp add: copyout.simps)
      moreover have "?m1 a = ?m a" if "\<forall>i < length src. a \<noteq> uaddr ?m pt (va + of_nat i)" for a
        using that cha(3) True by (intro write_bytes_notin) auto
      ultimately show ?thesis using here True by (intro exI [of _ ?m1]) simp
    next
      case False
      then have lt: "?n < length src" using n by simp
      note ud = user_range_drop [OF less.prems(2) n(2)]
      have nx: "?va0 + PGSIZE = va + of_nat ?n" by (rule chunk_next [OF lt ur])
      have tail: "va + of_nat ?n + of_nat i = va + of_nat (?n + i)" for i by (simp add: add.assoc)
      have "user_range ?m1 pt (va + of_nat ?n) (length (drop ?n src))"
        using ud lt fm(2) by (simp add: user_range_def cong)
      moreover have "length (drop ?n src) < length src" using n lt by simp
      ultimately have "\<exists>m'. copyout pt (va + of_nat ?n) (drop ?n src) ?s1 = Ok (0, ?s1\<lparr>mem := m'\<rparr>) \<and>
          (\<forall>i < length (drop ?n src). m' (uaddr (mem ?s1) pt (va + of_nat ?n + of_nat i)) = drop ?n src ! i) \<and>
          (\<forall>a. (\<forall>i < length (drop ?n src). a \<noteq> uaddr (mem ?s1) pt (va + of_nat ?n + of_nat i)) \<longrightarrow> m' a = mem ?s1 a)"
        using fm(1) by (intro less.hyps) simp_all
      then obtain m' where m': "copyout pt (va + of_nat ?n) (drop ?n src) ?s1 = Ok (0, ?s1\<lparr>mem := m'\<rparr>)"
        "\<forall>i < length src - ?n. m' (uaddr ?m pt (va + of_nat (?n + i))) = src ! (?n + i)"
        "\<forall>a. (\<forall>i < length src - ?n. a \<noteq> uaddr ?m pt (va + of_nat (?n + i))) \<longrightarrow> m' a = ?m1 a"
        using n by (auto simp: cong tail simp del: of_nat_add)
      have apart: "uaddr ?m pt (va + of_nat i) \<noteq> uaddr ?m pt (va + of_nat j)" if "i < ?n" "?n \<le> j" "j < length src" for i j
      proof -
        have "unat (va + of_nat j) = unat va + j" using ur that(3) by (intro unat_add_of_nat) simp
        moreover have "4096 - unat va mod 4096 \<le> j" using that(2) lt by (simp add: chunk_eq min_def split: if_splits)
        then have "vpn va < (unat va + j) div 4096"
          using div_less_iff_less_mult [of 4096 "unat va + j" "Suc (vpn va)"] by (simp add: minus_mod_eq_div_mult [symmetric]) linarith
        ultimately have "vpn (va + of_nat i) \<noteq> vpn (va + of_nat j)" using cha(1) [OF that(1)] by simp
        then have "frame ?m pt (va + of_nat i) \<noteq> frame ?m pt (va + of_nat j)"
          using less.prems(2) that n unfolding user_range_def by auto
        then show ?thesis
          using uaddr_in_frame [of ?m pt] pages_disjoint [OF page_aligned_frame page_aligned_frame] by metis
      qed
      have "m' (uaddr ?m pt (va + of_nat i)) = src ! i" if "i < length src" for i
      proof (cases "i < ?n")
        case True
        then have "m' (uaddr ?m pt (va + of_nat i)) = ?m1 (uaddr ?m pt (va + of_nat i))"
          by (intro m'(3) [rule_format] apart [OF True]) auto
        then show ?thesis using here True by simp
      next
        case False
        then have "?n + (i - ?n) = i" by simp
        then show ?thesis using m'(2) [rule_format, of "i - ?n"] that False by (simp del: of_nat_add)
      qed
      moreover have "m' a = ?m a" if a: "\<forall>i < length src. a \<noteq> uaddr ?m pt (va + of_nat i)" for a
      proof -
        have "m' a = ?m1 a" by (intro m'(3) [rule_format] a [rule_format]) auto
        also have "\<dots> = ?m a"
        proof (rule write_bytes_notin)
          fix i assume "i < length (take ?n src)"
          then show "a \<noteq> uaddr ?m pt va + of_nat i" using a [rule_format, of i] cha(3) [of i ?m pt] by simp
        qed
        finally show ?thesis .
      qed
      ultimately show ?thesis using step nx m'(1) by (intro exI [of _ m']) simp
    qed
  qed
qed

lemma write_keeps_table:
  assumes "pt_ok (mem s) pt" "user_range (mem s) pt va n"
    and "\<And>a. (\<And>i. i < n \<Longrightarrow> a \<noteq> uaddr (mem s) pt (va + of_nat i)) \<Longrightarrow> m' a = mem s a"
  shows "pt_ok m' pt" "lookup m' pt vb = lookup (mem s) pt vb"
proof -
  have "m' a = mem s a" if "q \<in> tpages (mem s) pt" "in_range q 4096 a" for q a
  proof (rule assms(3))
    fix i assume "i < n"
    then have "q \<noteq> frame (mem s) pt (va + of_nat i)" "page_aligned q"
      using user_rangeD [OF assms(2)] that(1) assms(1) by (auto simp: tpages_def dest: pt_okD)
    then have "\<not> in_range (frame (mem s) pt (va + of_nat i)) 4096 a"
      using pages_disjoint [OF _ page_aligned_frame _ that(2)] by blast
    then show "a \<noteq> uaddr (mem s) pt (va + of_nat i)" using uaddr_in_frame by metis
  qed
  then show "pt_ok m' pt" "lookup m' pt vb = lookup (mem s) pt vb"
    using pt_frame(2,3) [OF assms(1), of m'] by blast+
qed

section \<open>Lazy allocation\<close>

lemma kupd_procs: "kupd s s' \<Longrightarrow> procs s' = procs s"
  by (auto simp: kupd_def)

lemma kalloc_zeroed:
  assumes "vm_inv s pt (x # xs)"
  shows "\<exists>t. kalloc s = Ok (x, t) \<and> kupd s (t\<lparr>mem := memset (mem t) x 0 4096\<rparr>) \<and>
    vm_inv (t\<lparr>mem := memset (mem t) x 0 4096\<rparr>) pt xs \<and> x \<notin> set xs \<union> tpages (mem s) pt \<and>
    tpages (memset (mem t) x 0 4096) pt = tpages (mem s) pt \<and>
    (\<forall>vb. lookup (memset (mem t) x 0 4096) pt vb = lookup (mem s) pt vb)"
proof -
  have pl: "pool s (x # xs)" and ok: "pt_ok (mem s) pt" and dis: "tpages (mem s) pt \<inter> set (x # xs) = {}"
    using assms by (simp_all add: vm_inv_def)
  let ?t = "s\<lparr>mach := sync (mach s), mem := memset (mem s) x 5 4096, freelist := load64 (mem s) x\<rparr>"
  let ?m = "memset (mem s) x 0 4096"
  have x: "page_aligned x" "x \<notin> set xs"
    using kpool.inv_usable [OF pl, of x] kpool.inv_distinct [OF pl] by (auto simp: ram_page_def)
  have al: "kalloc s = Ok (x, ?t)" using kalloc_cons [of s x xs] pl by (simp add: pool_def)
  have p1: "pool ?t xs" using kalloc_free_list [of s x xs] pl by (simp add: pool_def)
  have off: "\<not> in_range x 4096 a" if "page_aligned q" "q \<noteq> x" "in_range q 4096 a" for q a
    using pages_disjoint [OF that(1) x(1) that(2,3)] .
  have "?m a = mem ?t a" if "q \<in> set xs" "in_range q 4096 a" for q a
    using off [of q a] kpool.inv_usable [OF p1 that(1)] that x(2) by (auto simp: memset_page ram_page_def)
  then have p2: "pool (?t\<lparr>mem := ?m\<rparr>) xs" using pool_mem [OF p1, of ?m] by blast
  have "?m a = mem s a" if "q \<in> tpages (mem s) pt" "in_range q 4096 a" for q a
    using off [of q a] that ok dis by (auto simp: memset_page tpages_def dest: pt_okD)
  then have fm: "pt_ok ?m pt" "tpages ?m pt = tpages (mem s) pt" "\<forall>vb. lookup ?m pt vb = lookup (mem s) pt vb"
    using pt_frame(2-4) [OF ok, of ?m] by blast+
  have "kupd s (?t\<lparr>mem := ?m\<rparr>)" by (rule kupd_trans [OF kupdI kupd_mem]) simp
  then show ?thesis
    using al p2 fm dis x(2) by (intro exI [of _ ?t]) (auto simp: vm_inv_def memset_memset)
qed

lemma ismapped_lookup:
  assumes "pt_ok (mem s) pt" "va < MAXVA"
  shows "ismapped pt va s = Ok (valid (mem s) pt va, s)"
proof (cases "tbl (mem s) pt [idx 2 va, idx 1 va]")
  case None
  then show ?thesis using assms by (simp add: ismapped_def walk_find leaf_addr_def valid_def lookup_def)
next
  case (Some p)
  then show ?thesis using assms leaf_addr_nz [OF assms(1) Some] by (simp add: ismapped_def walk_find valid_def)
qed

lemma map_page2:
  assumes "vm_inv s pt xs" "va < MAXVA" "page_aligned va" "\<not> valid (mem s) pt va" "2 \<le> length xs"
  shows "\<exists>s' xs'. mappages pt va PGSIZE pa perm s = Ok (0, s') \<and> extends s pt xs s' xs' \<and>
    length xs \<le> length xs' + 2 \<and> (\<forall>vb < MAXVA. lookup (mem s') pt vb =
      (if vpn vb = vpn va then PA2PTE pa OR perm OR PTE_V else lookup (mem s) pt vb))"
proof -
  have m: "mappages pt va PGSIZE pa perm s = mappages_loop pt va va pa perm s"
    using assms(3) by (simp add: mappages_def page_aligned_iff PGSIZE_def)
  from map_one [OF assms(1,2), of va pa perm] assms(4,5) show ?thesis
    unfolding m valid_def by auto
qed

lemma map_page:
  assumes "vm_inv s pt xs" "va < MAXVA" "page_aligned va" "\<not> valid (mem s) pt va" "2 \<le> length xs"
  shows "\<exists>s' xs'. mappages pt va PGSIZE pa perm s = Ok (0, s') \<and> extends s pt xs s' xs' \<and>
    (\<forall>vb < MAXVA. lookup (mem s') pt vb =
      (if vpn vb = vpn va then PA2PTE pa OR perm OR PTE_V else lookup (mem s) pt vb))"
  using map_page2 [OF assms] by blast

section \<open>Properties\<close>

text \<open>C4. Copying out and back in: when the pages of a user range are mapped writable, each to a
  frame of its own outside the page table, \<open>copyout\<close> succeeds, changes exactly the physical bytes
  that the range translates to, and \<open>copyin\<close> then returns the bytes written.\<close>

theorem copyout_copyin:
  assumes "pt_ok (mem s) pt" and "user_range (mem s) pt va (length bs)"
  shows "\<exists>s'. copyout pt va bs s = Ok (0, s') \<and> copyin pt va (length bs) s' = Ok (0, bs, s') \<and>
    (\<forall>a. (\<forall>i < length bs. a \<noteq> uaddr (mem s) pt (va + of_nat i)) \<longrightarrow> mem s' a = mem s a)"
proof -
  obtain m' where m': "copyout pt va bs s = Ok (0, s\<lparr>mem := m'\<rparr>)"
    "\<forall>i < length bs. m' (uaddr (mem s) pt (va + of_nat i)) = bs ! i"
    "\<forall>a. (\<forall>i < length bs. a \<noteq> uaddr (mem s) pt (va + of_nat i)) \<longrightarrow> m' a = mem s a"
    using copyout_ok [OF assms] by blast
  note keep = write_keeps_table [OF assms, of m']
  have ok: "pt_ok m' pt" and look: "lookup m' pt vb = lookup (mem s) pt vb" for vb
    using keep m'(3) by blast+
  note cong = uaddr_cong [OF look]
  have "copyin pt va (length bs) (s\<lparr>mem := m'\<rparr>) =
      Ok (0, map (\<lambda>i. m' (uaddr m' pt (va + of_nat i))) [0..<length bs], s\<lparr>mem := m'\<rparr>)"
    using copyin_ok [of "s\<lparr>mem := m'\<rparr>" pt va "length bs"] ok assms(2) user_rangeD [OF assms(2)]
    by (simp add: cong user_range_def writable_def)
  moreover have "map (\<lambda>i. m' (uaddr m' pt (va + of_nat i))) [0..<length bs] = bs"
    using m'(2) by (intro nth_equalityI) (simp_all add: cong)
  ultimately show ?thesis using m' by (intro exI [of _ "s\<lparr>mem := m'\<rparr>"]) simp
qed

text \<open>An address space with one writable page, at \<open>0x1000\<close>.\<close>

definition uvm_ex :: ptable where
  "uvm_ex = (case mappages 0x87002000 0x1000 PGSIZE 0x87003000 (PTE_R OR PTE_W OR PTE_U) ptable_ex of
     Ok (_, s) \<Rightarrow> s | _ \<Rightarrow> ptable_ex)"

lemma ptable_ex_inv: "vm_inv ptable_ex 0x87002000 [0x87000000, 0x87001000]"
  "lookup (mem ptable_ex) 0x87002000 va = 0" "tpages (mem ptable_ex) 0x87002000 = {0x87002000}"
proof -
  have eq: "mem ptable_ex = mem kmem_ex" "freelist ptable_ex = freelist kmem_ex" "kend ptable_ex = kend kmem_ex"
    "mach kmem_ex = mach_ex"
    by (simp_all add: ptable_ex_def kmem.defs kmem_ex_def)
  have "pool ptable_ex xs = pool kmem_ex xs" for xs
    by (simp add: pool_def kmem_ok_def free_list_def ram_page_def eq)
  then show "vm_inv ptable_ex 0x87002000 [0x87000000, 0x87001000]"
    using vm_ex_inv by (simp add: vm_inv_def eq)
  show "lookup (mem ptable_ex) 0x87002000 va = 0" using vm_ex_lookup eq(1) by simp
  show "tpages (mem ptable_ex) 0x87002000 = {0x87002000}" using vm_ex_tpages eq(1) by simp
qed

lemma uvm_ex_inv: "pt_ok (mem uvm_ex) 0x87002000" "0x87003000 \<notin> tpages (mem uvm_ex) 0x87002000"
  "va < MAXVA \<Longrightarrow> lookup (mem uvm_ex) 0x87002000 va =
    (if vpn va = 1 then PA2PTE 0x87003000 OR (PTE_R OR PTE_W OR PTE_U) OR PTE_V else 0)"
  "\<exists>xs. vm_inv uvm_ex 0x87002000 xs \<and> set xs \<subseteq> {0x87000000, 0x87001000}" "kend uvm_ex = 0x80020000"
proof -
  obtain s' xs' where s': "mappages 0x87002000 0x1000 PGSIZE 0x87003000 (PTE_R OR PTE_W OR PTE_U) ptable_ex = Ok (0, s')"
    "extends ptable_ex 0x87002000 [0x87000000, 0x87001000] s' xs'"
    "\<forall>vb < MAXVA. lookup (mem s') 0x87002000 vb =
      (if vpn vb = vpn 0x1000 then PA2PTE 0x87003000 OR (PTE_R OR PTE_W OR PTE_U) OR PTE_V else 0)"
    using map_page [OF ptable_ex_inv(1), of "0x1000" "0x87003000" "PTE_R OR PTE_W OR PTE_U"]
    by (auto simp: ptable_ex_inv(2) valid_def page_aligned_def layout_simps)
  have u: "uvm_ex = s'" using s'(1) by (simp add: uvm_ex_def)
  show "pt_ok (mem uvm_ex) 0x87002000" using s'(2) u by (simp add: extends_def vm_inv_def)
  obtain ys where "[0x87000000, 0x87001000] = ys @ xs'" "tpages (mem s') 0x87002000 = {0x87002000} \<union> set ys"
    using s'(2) ptable_ex_inv(3) by (auto simp: extends_def)
  moreover from this(1) have sub: "set ys \<union> set xs' = {0x87000000, 0x87001000}"
    by (metis empty_set list.simps(15) set_append)
  then show "\<exists>xs. vm_inv uvm_ex 0x87002000 xs \<and> set xs \<subseteq> {0x87000000, 0x87001000}"
    using s'(2) u by (auto simp: extends_def intro!: exI [of _ xs'])
  show "kend uvm_ex = 0x80020000"
    using s'(2) u kupdD(1) [of ptable_ex s'] by (simp add: extends_def ptable_ex_def kmem.defs kmem_ex_def)
  moreover have "set ys \<subseteq> {0x87000000, 0x87001000}" using sub by blast
  ultimately show "0x87003000 \<notin> tpages (mem uvm_ex) 0x87002000" using u by auto
  show "va < MAXVA \<Longrightarrow> lookup (mem uvm_ex) 0x87002000 va =
    (if vpn va = 1 then PA2PTE 0x87003000 OR (PTE_R OR PTE_W OR PTE_U) OR PTE_V else 0)"
    using s'(3) u by simp
qed

lemma pte_example:
  "PTE2PA (PA2PTE 0x87003000 OR (PTE_R OR PTE_W OR PTE_U) OR PTE_V) = 0x87003000"
  "(PA2PTE 0x87003000 OR (PTE_R OR PTE_W OR PTE_U) OR PTE_V) AND PTE_V \<noteq> 0"
  "(PA2PTE 0x87003000 OR (PTE_R OR PTE_W OR PTE_U) OR PTE_V) AND PTE_U \<noteq> 0"
  "(PA2PTE 0x87003000 OR (PTE_R OR PTE_W OR PTE_U) OR PTE_V) AND PTE_W \<noteq> 0"
  by (simp_all add: PTE2PA_def PA2PTE_def pte_flag_defs push_bit_eq_mult drop_bit_eq_div)

lemma uvm_ex_page:
  assumes "va < MAXVA" "vpn va = 1"
  shows "frame (mem uvm_ex) 0x87002000 va = 0x87003000" "writable (mem uvm_ex) 0x87002000 va"
  using uvm_ex_inv(3) [OF assms(1)] assms pte_example
  by (simp_all add: frame_def writable_def readable_def valid_def)

lemma uvm_ex_range: "user_range (mem uvm_ex) 0x87002000 0x1010 3"
proof -
  have "vpn (0x1010 + of_nat i) = 1 \<and> 0x1010 + of_nat i < MAXVA" if "i < 3" for i :: nat
    using that by (auto simp: less_Suc_eq numeral_3_eq_3 layout_simps)
  then show ?thesis
    using uvm_ex_page uvm_ex_inv(2) by (simp add: user_range_def)
qed

theorem copyout_copyin_witness:
  "\<exists>s'. copyout 0x87002000 0x1010 [104, 105, 0] uvm_ex = Ok (0, s') \<and>
     copyin 0x87002000 0x1010 3 s' = Ok (0, [104, 105, 0], s')"
  using copyout_copyin [OF uvm_ex_inv(1), of "0x1010" "[104, 105, 0]"] uvm_ex_range by (auto simp: numeral_3_eq_3)

text \<open>C13. Unmapping: \<open>uvmunmap\<close> on a page-aligned range below \<open>MAXVA\<close> does not panic; afterwards no
  page of the range is mapped and every other entry is as before; with \<open>do_free\<close> exactly the frames
  that were mapped there have become free, provided each was mapped once and was neither free
  nor a table page before.\<close>

theorem uvmunmap_frees:
  assumes "vm_inv s pt xs" "page_aligned va" "unat va + 4096 * n \<le> 2 ^ 38" "frames_ok s pt xs va n"
  shows "\<exists>s' xs'. uvmunmap pt va (of_nat n) do_free s = Ok s' \<and> vm_inv s' pt xs' \<and>
    set xs' = set xs \<union> (if do_free then frames (mem s) pt va n else {}) \<and>
    (\<forall>vb < MAXVA. (in_pages va n vb \<longrightarrow> \<not> valid (mem s') pt vb) \<and>
      (\<not> in_pages va n vb \<longrightarrow> lookup (mem s') pt vb = lookup (mem s) pt vb))"
proof -
  have "uvmunmap pt va (of_nat n) do_free s = uvmunmap_loop pt va (va + of_nat (4096 * n)) do_free s"
    using assms(2) by (simp add: uvmunmap_def page_aligned_iff PGSIZE_def mult.commute)
  with uvmunmap_loop_ok [OF assms(1,3), of do_free] assms(4) obtain s' xs' where
    "uvmunmap pt va (of_nat n) do_free s = Ok s'" "vm_inv s' pt xs'"
    "set xs' = set xs \<union> (if do_free then frames (mem s) pt va n else {})"
    "\<forall>vb < MAXVA. lookup (mem s') pt vb =
      (if in_pages va n vb \<and> valid (mem s) pt vb then 0 else lookup (mem s) pt vb)" by auto
  then show ?thesis
    by (intro exI [of _ s'] exI [of _ xs']) (auto simp: valid_def)
qed

theorem uvmunmap_frees_witness:
  "\<exists>s' xs'. uvmunmap 0x87002000 0x1000 1 True uvm_ex = Ok s' \<and> vm_inv s' 0x87002000 xs' \<and> 0x87003000 \<in> set xs'"
proof -
  obtain xs where xs: "vm_inv uvm_ex 0x87002000 xs" "set xs \<subseteq> {0x87000000, 0x87001000}"
    using uvm_ex_inv(4) by blast
  have one: "vpn va = 1" if "in_pages 0x1000 1 va" for va using that by (simp add: in_pages_def)
  have "in_pages 0x1000 1 0x1000" by (simp add: in_pages_def layout_simps)
  moreover have "valid (mem uvm_ex) 0x87002000 0x1000" "frame (mem uvm_ex) 0x87002000 0x1000 = 0x87003000"
    using uvm_ex_page [of "0x1000"] by (simp_all add: layout_simps writable_def readable_def)
  ultimately have "0x87003000 \<in> frames (mem uvm_ex) 0x87002000 0x1000 1"
    unfolding frames_def by (auto intro!: image_eqI [of _ _ "0x1000"])
  moreover have "frames_ok uvm_ex 0x87002000 xs 0x1000 1"
  proof -
    have "ram_page uvm_ex 0x87003000" using uvm_ex_inv(5) by (simp add: ram_page_def page_aligned_def layout_simps)
    moreover have "frame (mem uvm_ex) 0x87002000 va = 0x87003000" if "in_pages 0x1000 1 va" for va
      using uvm_ex_page(1) [OF _ one [OF that]] that by (simp add: in_pages_def)
    moreover have "0x87003000 \<notin> set xs" using xs(2) by auto
    ultimately show ?thesis using one uvm_ex_inv(2) unfolding frames_ok_def by simp
  qed
  ultimately show ?thesis
    using uvmunmap_frees [OF xs(1), of "0x1000" 1 True] by (auto simp: page_aligned_def)
qed

text \<open>C19. Lazy allocation: on a page of the process below \<open>sz\<close> that is not mapped, and with three free
  pages left, \<open>vmfault\<close> returns a frame taken from the free list, which is then mapped readable and
  writable at that page and holds only zeros; every other mapping is as before.\<close>

theorem vmfault_zero_fills:
  assumes "vm_inv s pt (x # xs)" "2 \<le> length xs" "myproc s = Some p" "pagetable (procs s p) = pt"
    and "va < sz (procs s p)" "va < MAXVA" "\<not> valid (mem s) pt va"
  shows "\<exists>s' xs'. vmfault pt va s = Ok (x, s') \<and> vm_inv s' pt xs' \<and>
    (\<forall>a. in_range x 4096 a \<longrightarrow> mem s' a = 0) \<and>
    (\<forall>vb < MAXVA. lookup (mem s') pt vb =
      (if vpn vb = vpn va then PA2PTE x OR (PTE_W OR PTE_U OR PTE_R) OR PTE_V else lookup (mem s) pt vb))"
proof -
  let ?va = "PGROUNDDOWN va"
  have va: "?va < MAXVA" "vpn ?va = vpn va" "lookup (mem s) pt ?va = lookup (mem s) pt va"
    using vpn_PGROUNDDOWN [OF assms(6)] lookup_PGROUNDDOWN [OF assms(6)] by auto
  have ok: "pt_ok (mem s) pt" using assms(1) by (simp add: vm_inv_def)
  obtain t where t: "kalloc s = Ok (x, t)" "vm_inv (t\<lparr>mem := memset (mem t) x 0 4096\<rparr>) pt xs"
    "kupd s (t\<lparr>mem := memset (mem t) x 0 4096\<rparr>)" "x \<notin> set xs \<union> tpages (mem s) pt"
    "tpages (memset (mem t) x 0 4096) pt = tpages (mem s) pt"
    "\<forall>vb. lookup (memset (mem t) x 0 4096) pt vb = lookup (mem s) pt vb"
    using kalloc_zeroed [OF assms(1)] by blast
  let ?t = "t\<lparr>mem := memset (mem t) x 0 4096\<rparr>"
  have "procs ?t = procs s" by (rule kupd_procs [OF t(3)])
  then have pt: "pagetable (procs t p) = pt" using assms(4) by simp
  have nv: "\<not> valid (mem ?t) pt ?va" using assms(7) va(3) t(6) by (simp add: valid_def)
  obtain s' xs' where s': "mappages pt ?va PGSIZE x (PTE_W OR PTE_U OR PTE_R) ?t = Ok (0, s')"
    "extends ?t pt xs s' xs'"
    "\<forall>vb < MAXVA. lookup (mem s') pt vb = (if vpn vb = vpn ?va then PA2PTE x OR (PTE_W OR PTE_U OR PTE_R) OR PTE_V
       else lookup (mem ?t) pt vb)"
    using map_page [OF t(2) va(1) _ nv assms(2), of x "PTE_W OR PTE_U OR PTE_R"] by auto
  have x0: "x \<notin> tpages (mem s') pt" using s'(2) t(4,5) by (auto simp: extends_def)
  have xa: "page_aligned x" using assms(1) kpool.inv_usable [of s "x # xs" x] by (simp add: vm_inv_def ram_page_def)
  have al: "page_aligned g" if "g \<in> tpages (mem s') pt" for g
    using s'(2) that by (auto simp: extends_def vm_inv_def tpages_def dest: pt_okD)
  have "vmfault pt va s = Ok (x, s')"
  proof -
    have "ismapped pt ?va s = Ok (False, s)"
      using ismapped_lookup [OF ok va(1)] assms(7) va(3) by (simp add: valid_def)
    moreover have "x \<noteq> 0" using assms(1) kpool.inv_usable [of s "x # xs" x] by (simp add: vm_inv_def)
    ultimately show ?thesis
      using assms(3,5) t(1) pt s'(1) by (simp add: vmfault_def Let_def linorder_not_le [symmetric])
  qed
  moreover have "mem s' a = 0" if "in_range x 4096 a" for a
  proof -
    have "\<forall>g \<in> tpages (mem s') pt. \<not> in_range g 4096 a"
      using pages_disjoint [OF xa al _ that] x0 by auto
    then have "mem s' a = mem ?t a" using s'(2) by (simp add: extends_def)
    then show ?thesis using that by (simp add: memset_page)
  qed
  moreover have "vm_inv s' pt xs'" using s'(2) by (simp add: extends_def)
  ultimately show ?thesis using s'(3) va(2) t(6) by (intro exI [of _ s'] exI [of _ xs']) simp
qed

lemma kfree_vm:
  assumes "vm_inv s pt xs" "ram_page s p" "p \<notin> set xs \<union> tpages (mem s) pt"
  shows "\<exists>s'. kfree p s = Ok s' \<and> vm_inv s' pt (p # xs) \<and> kupd s s' \<and>
    (\<forall>vb. lookup (mem s') pt vb = lookup (mem s) pt vb)"
proof -
  have ok: "pt_ok (mem s) pt" and pl: "pool s xs" using assms(1) by (simp_all add: vm_inv_def)
  obtain s' where s': "kfree p s = Ok s'" "pool s' (p # xs)" "kupd s s'"
    "\<forall>a. \<not> in_range p 4096 a \<longrightarrow> mem s' a = mem s a"
    using kfree_pool [OF pl assms(2)] assms(3) by blast
  have "mem s' a = mem s a" if "q \<in> tpages (mem s) pt" "in_range q 4096 a" for q a
  proof -
    have "page_aligned q" "q \<noteq> p" using that(1) ok assms(3) by (auto simp: tpages_def dest: pt_okD)
    then show ?thesis using s'(4) pages_disjoint [OF _ _ _ that(2), of p] assms(2) by (simp add: ram_page_def)
  qed
  then have "pt_ok (mem s') pt" "tpages (mem s') pt = tpages (mem s) pt"
    "\<forall>vb. lookup (mem s') pt vb = lookup (mem s) pt vb"
    using pt_frame(2-4) [OF ok, of "mem s'"] by blast+
  then show ?thesis using s'(1-3) assms(1,3) by (auto simp: vm_inv_def)
qed

definition lazy_ex :: ptable where
  "lazy_ex = (case kfree 0x87004000 (upd_proc 0 (\<lambda>p. p\<lparr>sz := 0x3000, pagetable := 0x87002000\<rparr>)
       (ptable_ex\<lparr>mach := mach_run 0\<rparr>)) of Ok s \<Rightarrow> s | _ \<Rightarrow> ptable_ex)"

lemma lazy_ex_inv:
  "vm_inv lazy_ex 0x87002000 [0x87004000, 0x87000000, 0x87001000]" "myproc lazy_ex = Some 0"
  "lookup (mem lazy_ex) 0x87002000 va = 0" "sz (procs lazy_ex 0) = 0x3000"
  "pagetable (procs lazy_ex 0) = 0x87002000"
proof -
  let ?s = "upd_proc 0 (\<lambda>p. p\<lparr>sz := 0x3000, pagetable := 0x87002000\<rparr>) (ptable_ex\<lparr>mach := mach_run 0\<rparr>)"
  have run: "mach_ok (mach_run 0)" "lock_free lk (mach_run 0)" "cpu_proc (mycpu (mach_run 0)) = Some 0" for lk
    by (simp_all add: mach_run_def mach_ex_def mach_ok_def lock_free_def machine_defs)
  have "vm_inv ?s 0x87002000 [0x87000000, 0x87001000]"
    using ptable_ex_inv(1) run by (simp add: vm_inv_def pool_def kmem_ok_def free_list_def ram_page_def)
  moreover have "kend ptable_ex = 0x80020000" by (simp add: ptable_ex_def kmem.defs kmem_ex_def)
  ultimately obtain s' where s': "kfree 0x87004000 ?s = Ok s'" "kupd ?s s'"
    "vm_inv s' 0x87002000 [0x87004000, 0x87000000, 0x87001000]"
    "\<forall>vb. lookup (mem s') 0x87002000 vb = 0"
    using kfree_vm [of ?s "0x87002000" "[0x87000000, 0x87001000]" "0x87004000"]
    by (auto simp: ptable_ex_inv ram_page_def page_aligned_def layout_simps)
  then have l: "lazy_ex = s'" by (simp add: lazy_ex_def)
  have "procs s' = procs ?s" by (rule kupd_procs [OF s'(2)])
  moreover have "myproc s' = myproc ?s" using s'(2) by (auto simp: kupd_def myproc_def mycpu_def cpuid_def)
  ultimately show "vm_inv lazy_ex 0x87002000 [0x87004000, 0x87000000, 0x87001000]" "myproc lazy_ex = Some 0"
    "lookup (mem lazy_ex) 0x87002000 va = 0" "sz (procs lazy_ex 0) = 0x3000"
    "pagetable (procs lazy_ex 0) = 0x87002000"
    using s'(3,4) run(3) by (simp_all add: l myproc_def)
qed

theorem vmfault_zero_fills_witness:
  "\<exists>s'. vmfault 0x87002000 0x2345 lazy_ex = Ok (0x87004000, s') \<and> mem s' 0x87004008 = 0 \<and>
     lookup (mem s') 0x87002000 0x2345 = PA2PTE 0x87004000 OR (PTE_W OR PTE_U OR PTE_R) OR PTE_V"
proof -
  have h: "2 \<le> length [0x87000000, 0x87001000 :: u64]" "0x2345 < sz (procs lazy_ex 0)" "0x2345 < MAXVA"
    "\<not> valid (mem lazy_ex) 0x87002000 0x2345"
    by (simp_all add: lazy_ex_inv(3,4) valid_def layout_simps)
  from vmfault_zero_fills [OF lazy_ex_inv(1) h(1) lazy_ex_inv(2,5) h(2-4)] show ?thesis
  proof (elim exE conjE, goal_cases)
    case (1 s' xs')
    then have "mem s' 0x87004008 = 0" by (simp add: in_range_def)
    with 1(1) 1(4) [rule_format, OF h(3)] show ?case by (intro exI [of _ s']) simp
  qed
qed

text \<open>C24. A size above \<open>MAXVA\<close> is not safe: when the size of the current process exceeds \<open>MAXVA\<close>, reading
  user memory at an address between \<open>MAXVA\<close> and that size panics in \<open>walk\<close>, where \<open>copyout\<close> on the
  same address reports an error.\<close>

theorem copyin_above_MAXVA_panics:
  assumes "myproc s = Some p" and "MAXVA \<le> PGROUNDDOWN va" and "PGROUNDDOWN va < sz (procs s p)" and "0 < n"
  shows "copyin pt va n s = Panic ''walk'' \<and> copyout pt va (replicate n b) s = Ok (-1, s)"
proof -
  have "PGROUNDDOWN (PGROUNDDOWN va) = PGROUNDDOWN va"
    unfolding PGROUNDDOWN_eq by (rule bit_word_eqI) (auto simp: bit_simps)
  moreover have "\<not> sz (procs s p) \<le> PGROUNDDOWN va" using assms(3) by simp
  ultimately have "fault_in pt (PGROUNDDOWN va) s = Panic ''walk''"
    using assms(1,2) by (simp add: fault_in_def walkaddr_def vmfault_def ismapped_def walk_max Let_def)
  then show ?thesis using assms by (simp add: copyin.simps [of pt va] copyout.simps [of pt va] Let_def)
qed

theorem copyin_above_MAXVA_panics_witness:
  "copyin 0x87002000 0x4000000010 1 (upd_proc 0 (\<lambda>p. p\<lparr>sz := 0x4000001000\<rparr>) lazy_ex) = Panic ''walk''"
  using copyin_above_MAXVA_panics [of "upd_proc 0 (\<lambda>p. p\<lparr>sz := 0x4000001000\<rparr>) lazy_ex" 0 "0x4000000010" 1 "0x87002000"]
    lazy_ex_inv(2)
  by (simp add: myproc_def layout_simps PGROUNDDOWN_def PGSIZE_def)

end
