(* ===== verification/Procmem.thy ===== *)
theory Procmem
  imports Uvm
begin

text \<open>
  The kernel's own page table (\<^verbatim>\<open>kernel/vm.c\<close>: \<open>kvmmake\<close>, \<open>kvmmap\<close>, \<open>kvminit\<close>, \<open>kvminithart\<close>) and the
  functions of \<^verbatim>\<open>kernel/proc.c\<close> that give a process its memory and take it back: \<open>proc_mapstacks\<close>,
  \<open>proc_pagetable\<close>, \<open>proc_freepagetable\<close>, \<open>growproc\<close>, \<open>allocproc\<close>, \<open>freeproc\<close>, \<open>reparent\<close>. The
  addresses that the linker gives to \<open>etext\<close>, \<open>trampoline\<close> and \<open>forkret\<close> are fields of the state that
  nothing changes.
\<close>

section \<open>State\<close>

record vmstate = ptable +
  kernel_pagetable :: u64
  satp :: "nat \<Rightarrow> u64"
  etext :: u64
  trampoline :: u64
  forkret_addr :: u64

section \<open>The kernel page table\<close>

definition kvmmap :: "u64 \<Rightarrow> u64 \<Rightarrow> u64 \<Rightarrow> u64 \<Rightarrow> u64 \<Rightarrow> 'a kmem_scheme \<Rightarrow> 'a kmem_scheme res" where
  "kvmmap kpgtbl va pa n perm s = rbind (mappages kpgtbl va n pa perm s) (\<lambda>(r, s1).
     if r \<noteq> 0 then Panic ''kvmmap'' else Ok s1)"

definition proc_mapstacks :: "u64 \<Rightarrow> 'a ptable_scheme \<Rightarrow> 'a ptable_scheme res" where
  "proc_mapstacks kpgtbl s = rfold (\<lambda>i s. rbind (kalloc s) (\<lambda>(pa, s1).
     if pa = 0 then Panic ''kalloc''
     else kvmmap kpgtbl (KSTACK i) pa PGSIZE (PTE_R OR PTE_W) s1)) [0..<NPROC] s"

text \<open>The regions \<open>kvmmake\<close> maps, in its order: virtual address, physical address, size and
  permissions.\<close>

definition kvm_regions :: "'a vmstate_scheme \<Rightarrow> (u64 \<times> u64 \<times> u64 \<times> u64) list" where
  "kvm_regions s =
     [(UART0, UART0, PGSIZE, PTE_R OR PTE_W),
      (VIRTIO0, VIRTIO0, PGSIZE, PTE_R OR PTE_W),
      (PLIC, PLIC, 0x4000000, PTE_R OR PTE_W),
      (KERNBASE, KERNBASE, etext s - KERNBASE, PTE_R OR PTE_X),
      (etext s, etext s, PHYSTOP - etext s, PTE_R OR PTE_W),
      (TRAMPOLINE, trampoline s, PGSIZE, PTE_R OR PTE_X)]"

definition kvmmake :: "'a vmstate_scheme \<Rightarrow> (u64 \<times> 'a vmstate_scheme) res" where
  "kvmmake s = rbind (kalloc s) (\<lambda>(kpgtbl, s1).
     rbind (rfold (\<lambda>(va, pa, n, perm). kvmmap kpgtbl va pa n perm) (kvm_regions s)
              (s1\<lparr>mem := memset (mem s1) kpgtbl 0 4096\<rparr>)) (\<lambda>s2.
     rbind (proc_mapstacks kpgtbl s2) (\<lambda>s3. Ok (kpgtbl, s3))))"

definition kvminit :: "'a vmstate_scheme \<Rightarrow> 'a vmstate_scheme res" where
  "kvminit s = rbind (kvmmake s) (\<lambda>(kpgtbl, s1). Ok (s1\<lparr>kernel_pagetable := kpgtbl\<rparr>))"

definition kvminithart :: "'a vmstate_scheme \<Rightarrow> 'a vmstate_scheme" where
  "kvminithart s = s\<lparr>satp := (satp s)(tp (mach s) := MAKE_SATP (kernel_pagetable s))\<rparr>"

section \<open>A process's address space\<close>

definition proc_pagetable :: "nat \<Rightarrow> 'a vmstate_scheme \<Rightarrow> (u64 \<times> 'a vmstate_scheme) res" where
  "proc_pagetable p s = rbind (uvmcreate s) (\<lambda>(pt, s1).
     if pt = 0 then Ok (0, s1)
     else rbind (mappages pt TRAMPOLINE PGSIZE (trampoline s1) (PTE_R OR PTE_X) s1) (\<lambda>(r, s2).
       if r < 0 then rbind (uvmfree pt 0 s2) (\<lambda>s3. Ok (0, s3))
       else rbind (mappages pt TRAPFRAME PGSIZE (trapframe (procs s2 p)) (PTE_R OR PTE_W) s2) (\<lambda>(r, s3).
         if r < 0
         then rbind (uvmunmap pt TRAMPOLINE 1 False s3) (\<lambda>s4.
              rbind (uvmfree pt 0 s4) (\<lambda>s5. Ok (0, s5)))
         else Ok (pt, s3))))"

definition proc_freepagetable :: "u64 \<Rightarrow> u64 \<Rightarrow> 'a kmem_scheme \<Rightarrow> 'a kmem_scheme res" where
  "proc_freepagetable pt usz s =
     rbind (uvmunmap pt TRAMPOLINE 1 False s) (\<lambda>s1.
     rbind (uvmunmap pt TRAPFRAME 1 False s1) (uvmfree pt usz))"

definition growproc :: "int \<Rightarrow> 'a ptable_scheme \<Rightarrow> (int \<times> 'a ptable_scheme) res" where
  "growproc n s = with_proc s (\<lambda>p.
     let old = sz (procs s p); pt = pagetable (procs s p)
     in if n > 0
        then rbind (uvmalloc pt old (old + word_of_int n) PTE_W s) (\<lambda>(new, s1).
          if new = 0 then Ok (-1, s1) else Ok (0, upd_proc p (\<lambda>q. q\<lparr>sz := new\<rparr>) s1))
        else if n < 0
        then rbind (uvmdealloc pt old (old + word_of_int n) s) (\<lambda>(new, s1).
          Ok (0, upd_proc p (\<lambda>q. q\<lparr>sz := new\<rparr>) s1))
        else Ok (0, upd_proc p (\<lambda>q. q\<lparr>sz := old\<rparr>) s))"

section \<open>Allocating and freeing a slot\<close>

definition freeproc :: "nat \<Rightarrow> 'a ptable_scheme \<Rightarrow> 'a ptable_scheme res" where
  "freeproc p s =
     rbind (if trapframe (procs s p) \<noteq> 0 then kfree (trapframe (procs s p)) s else Ok s) (\<lambda>s1.
     let s2 = upd_proc p (\<lambda>q. q\<lparr>trapframe := 0\<rparr>) s1
     in rbind (if pagetable (procs s2 p) \<noteq> 0
               then proc_freepagetable (pagetable (procs s2 p)) (sz (procs s2 p)) s2 else Ok s2) (\<lambda>s3.
       Ok (upd_proc p (\<lambda>q. q\<lparr>pagetable := 0, sz := 0, pid := 0, parent := None, pname := [],
         pchan := NoChan, pkilled := 0, xstate := 0, pstate := UNUSED\<rparr>) s3)))"

text \<open>The loop of \<open>allocproc\<close> that looks for a free slot, and returns with its lock held.\<close>

fun allocproc_scan :: "nat list \<Rightarrow> 'a ptable_scheme \<Rightarrow> (nat option \<times> 'a ptable_scheme) res" where
  "allocproc_scan [] s = Ok (None, s)"
| "allocproc_scan (i # is) s = rbind (kacquire (ProcLock i) s) (\<lambda>s1.
     if pstate (procs s1 i) = UNUSED then Ok (Some i, s1)
     else rbind (krelease (ProcLock i) s1) (allocproc_scan is))"

definition allocproc :: "'a vmstate_scheme \<Rightarrow> (nat option \<times> 'a vmstate_scheme) res" where
  "allocproc s = rbind (allocproc_scan [0..<NPROC] s) (\<lambda>(r, s1). case r of
     None \<Rightarrow> Ok (None, s1)
   | Some p \<Rightarrow>
       rbind (allocpid s1) (\<lambda>(k, s2).
       rbind (kalloc (upd_proc p (\<lambda>q. q\<lparr>pid := k, pstate := USED\<rparr>) s2)) (\<lambda>(tf, s3).
       let s4 = upd_proc p (\<lambda>q. q\<lparr>trapframe := tf\<rparr>) s3;
           fail = (\<lambda>s. rbind (freeproc p s) (\<lambda>s'. rbind (krelease (ProcLock p) s') (\<lambda>s''. Ok (None, s''))))
       in if tf = 0 then fail s4
          else rbind (proc_pagetable p s4) (\<lambda>(pt, s5).
            let s6 = upd_proc p (\<lambda>q. q\<lparr>pagetable := pt\<rparr>) s5
            in if pt = 0 then fail s6
               else Ok (Some p, upd_proc p (\<lambda>q. q\<lparr>pcontext := \<lparr>ctx_ra = forkret_addr s6,
                      ctx_sp = kstack q + PGSIZE, ctx_s = (\<lambda>_. 0)\<rparr>\<rparr>) s6)))))"

section \<open>Orphans\<close>

text \<open>The channel of a process pointer.\<close>

fun proc_chan :: "nat option \<Rightarrow> chan" where
  "proc_chan None = NoChan"
| "proc_chan (Some p) = ChProc p"

definition reparent1 :: "nat \<Rightarrow> nat \<Rightarrow> 'a ptable_scheme \<Rightarrow> 'a ptable_scheme res" where
  "reparent1 p i s =
     (if parent (procs s i) = Some p
      then wakeup (proc_chan (initproc s)) (upd_proc i (\<lambda>q. q\<lparr>parent := initproc s\<rparr>) s)
      else Ok s)"

definition reparent :: "nat \<Rightarrow> 'a ptable_scheme \<Rightarrow> 'a ptable_scheme res" where
  "reparent p s = rfold (reparent1 p) [0..<NPROC] s"

section \<open>Building an address space\<close>

lemma uvmcreate_ok:
  assumes "pool s (x # xs)"
  shows "\<exists>s'. uvmcreate s = Ok (x, s') \<and> kupd s s' \<and> vm_inv s' x xs \<and>
    (\<forall>va. lookup (mem s') x va = 0) \<and> tpages (mem s') x = {x}"
proof -
  let ?s' = "s\<lparr>mach := sync (mach s), mem := memset (mem s) x 0 4096, freelist := load64 (mem s) x\<rparr>"
  let ?t = "s\<lparr>mach := sync (mach s), mem := memset (mem s) x 5 4096, freelist := load64 (mem s) x\<rparr>"
  have x: "page_aligned x" "x \<noteq> 0" "x \<notin> set xs"
    using kpool.inv_usable [OF assms, of x] kpool.inv_distinct [OF assms] by (auto simp: ram_page_def)
  have p1: "pool ?t xs" using kalloc_free_list [of s x xs] assms by (simp add: pool_def)
  have "memset (mem s) x 0 4096 a = mem ?t a" if "q \<in> set xs" "in_range q 4096 a" for q a
  proof -
    have "page_aligned q" "q \<noteq> x" using kpool.inv_usable [OF p1 that(1)] that(1) x(3) by (auto simp: ram_page_def)
    then show ?thesis using pages_disjoint [OF _ x(1) _ that(2)] by (simp add: memset_page)
  qed
  then have "pool (?t\<lparr>mem := memset (mem s) x 0 4096\<rparr>) xs" using pool_mem [OF p1] by blast
  moreover have "?t\<lparr>mem := memset (mem s) x 0 4096\<rparr> = ?s'" by (rule kmem.equality) simp_all
  ultimately have p2: "pool ?s' xs" by simp
  have e: "pt_ok (mem ?s') x" "tpages (mem ?s') x = {x}" "lookup (mem ?s') x va = 0" for va
    using empty_table [OF x(1,2), of "mem ?s'"] by (simp_all add: memset_page)
  have "kalloc s = Ok (x, ?t)" using kalloc_cons [of s x xs] assms by (simp add: pool_def)
  then have "uvmcreate s = Ok (x, ?t\<lparr>mem := memset (mem s) x 0 4096\<rparr>)"
    using x(2) by (simp add: uvmcreate_def memset_memset)
  moreover have "kupd s ?s'" by (rule kupdI) simp
  ultimately show ?thesis
    using p2 e x(3) \<open>?t\<lparr>mem := _\<rparr> = ?s'\<close> by (intro exI [of _ ?s']) (simp add: vm_inv_def)
qed

text \<open>The entries of a fresh user page table.\<close>

definition fresh_entry :: "u64 \<Rightarrow> u64 \<Rightarrow> u64 \<Rightarrow> u64" where
  "fresh_entry tramp tf va =
     (if vpn va = vpn TRAMPOLINE then PA2PTE tramp OR (PTE_R OR PTE_X) OR PTE_V
      else if vpn va = vpn TRAPFRAME then PA2PTE tf OR (PTE_R OR PTE_W) OR PTE_V else 0)"

lemma kupd_vmstate:
  "kupd s s' \<Longrightarrow> trampoline s' = trampoline s" "kupd s s' \<Longrightarrow> forkret_addr s' = forkret_addr s"
  "kupd s s' \<Longrightarrow> nextpid s' = nextpid (s :: 'a vmstate_scheme)"
  by (auto simp: kupd_def)

lemma proc_pagetable_ok:
  assumes "pool s (x # xs)" "4 \<le> length xs"
  shows "\<exists>s' xs'. proc_pagetable p s = Ok (x, s') \<and> x \<noteq> 0 \<and> kupd s s' \<and> vm_inv s' x xs' \<and>
    (\<forall>va < MAXVA. lookup (mem s') x va = fresh_entry (trampoline s) (trapframe (procs s p)) va)"
proof -
  obtain s1 where s1: "uvmcreate s = Ok (x, s1)" "kupd s s1" "vm_inv s1 x xs" "\<forall>va. lookup (mem s1) x va = 0"
    using uvmcreate_ok [OF assms(1)] by blast
  have x: "x \<noteq> 0" using kpool.inv_usable [OF assms(1), of x] by simp
  have T: "TRAMPOLINE < MAXVA" "page_aligned TRAMPOLINE" "TRAPFRAME < MAXVA" "page_aligned TRAPFRAME"
    "vpn TRAPFRAME \<noteq> vpn TRAMPOLINE" by (simp_all add: layout_simps page_aligned_def)
  have "\<not> valid (mem s1) x TRAMPOLINE" using s1(4) by (simp add: valid_def)
  then obtain s2 xs2 where s2: "mappages x TRAMPOLINE PGSIZE (trampoline s) (PTE_R OR PTE_X) s1 = Ok (0, s2)"
    "extends s1 x xs s2 xs2"
    "\<forall>vb < MAXVA. lookup (mem s2) x vb = (if vpn vb = vpn TRAMPOLINE then PA2PTE (trampoline s) OR (PTE_R OR PTE_X) OR PTE_V else 0)"
    "2 \<le> length xs2"
    using map_page2 [OF s1(3) T(1,2), of "trampoline s" "PTE_R OR PTE_X"] assms(2) s1(4) by auto
  have inv2: "vm_inv s2 x xs2" and k2: "kupd s1 s2" using s2(2) by (simp_all add: extends_def)
  have "\<not> valid (mem s2) x TRAPFRAME" using s2(3) T(3,5) by (simp add: valid_def)
  then obtain s3 xs3 where s3: "mappages x TRAPFRAME PGSIZE (trapframe (procs s p)) (PTE_R OR PTE_W) s2 = Ok (0, s3)"
    "extends s2 x xs2 s3 xs3"
    "\<forall>vb < MAXVA. lookup (mem s3) x vb = (if vpn vb = vpn TRAPFRAME then PA2PTE (trapframe (procs s p)) OR (PTE_R OR PTE_W) OR PTE_V
       else lookup (mem s2) x vb)"
    using map_page [OF inv2 T(3,4) _ s2(4), of "trapframe (procs s p)" "PTE_R OR PTE_W"] by blast
  have k3: "kupd s2 s3" using s3(2) by (simp add: extends_def)
  have ks2: "kupd s s2" by (rule kupd_trans [OF s1(2) k2])
  have ks3: "kupd s s3" by (rule kupd_trans [OF ks2 k3])
  have "trampoline s1 = trampoline s" "procs s2 = procs s"
    using kupd_vmstate(1) [OF s1(2)] kupd_procs [OF ks2] by simp_all
  then have "proc_pagetable p s = Ok (x, s3)"
    using s1(1) s2(1) s3(1) x by (simp add: proc_pagetable_def)
  moreover have "lookup (mem s3) x va = fresh_entry (trampoline s) (trapframe (procs s p)) va" if "va < MAXVA" for va
    using s3(3) s2(3) that T(5) by (auto simp: fresh_entry_def)
  ultimately show ?thesis
    using x ks3 s3(2) by (intro exI [of _ s3] exI [of _ xs3]) (simp add: extends_def)
qed

section \<open>Allocating a slot\<close>

lemma kalloc_pool:
  assumes "pool s (x # xs)"
  shows "\<exists>s'. kalloc s = Ok (x, s') \<and> pool s' xs \<and> kupd s s' \<and> x \<noteq> 0"
proof -
  let ?t = "s\<lparr>mach := sync (mach s), mem := memset (mem s) x 5 4096, freelist := load64 (mem s) x\<rparr>"
  have "kalloc s = Ok (x, ?t)" using kalloc_cons [of s x xs] assms by (simp add: pool_def)
  moreover have "pool ?t xs" using kalloc_free_list [of s x xs] assms by (simp add: pool_def)
  moreover have "kupd s ?t" by (rule kupdI) simp
  ultimately show ?thesis using kpool.inv_usable [OF assms, of x] by auto
qed

lemma allocproc_scan_found:
  assumes "proc_locks_ok s" "set is \<subseteq> {0..<NPROC}" "find (\<lambda>i. pstate (procs s i) = UNUSED) is = Some p"
  shows "allocproc_scan is s = Ok (Some p, s\<lparr>mach := lockd (ProcLock p) (mach s)\<rparr>)"
  using assms
proof (induction "is" arbitrary: s)
  case (Cons i "is")
  have free: "mach_ok (mach s)" "lock_free (ProcLock i) (mach s)"
    using Cons.prems by (simp_all add: proc_locks_ok_def)
  show ?case
  proof (cases "pstate (procs s i) = UNUSED")
    case True
    with free Cons.prems(3) show ?thesis by (simp add: kacquire_free)
  next
    case False
    let ?s = "s\<lparr>mach := sync (mach s)\<rparr>"
    have "allocproc_scan (i # is) s = allocproc_scan is ?s"
      using free False by (simp add: kacquire_free krelease_lockd)
    then show ?thesis using Cons.IH [of ?s] Cons.prems False by simp
  qed
qed simp

lemma allocpid_ok [res_simps]:
  "mach_ok (mach s) \<Longrightarrow> lock_free PidLock (mach s) \<Longrightarrow>
    allocpid s = Ok (nextpid s, s\<lparr>mach := sync (mach s), nextpid := nextpid s + 1\<rparr>)"
  by (simp add: allocpid_def kacquire_free krelease_lockd Let_def)

lemma pool_cong:
  assumes "pool s xs" "mem t = mem s" "freelist t = freelist s" "kend t = kend s" "mach_ok (mach t)" "lock_free KmemLock (mach t)"
  shows "pool t xs"
  using assms by (simp add: pool_def kmem_ok_def free_list_def ram_page_def)

lemma kupd_mach: "kupd s s' \<Longrightarrow> mach s' = mach s \<or> mach s' = sync (mach s)"
  by (auto simp: kupd_def)

lemma allocproc_ok:
  assumes locks: "proc_locks_ok s" "lock_free PidLock (mach s)" and pl: "pool s (t # x # xs)" "4 \<le> length xs"
    and p: "find (\<lambda>i. pstate (procs s i) = UNUSED) [0..<NPROC] = Some p"
  shows "\<exists>s' xs'. allocproc s = Ok (Some p, s') \<and> vm_inv s' x xs' \<and>
    mach s' = lockd (ProcLock p) (mach s) \<and> nextpid s' = nextpid s + 1 \<and>
    procs s' = (procs s)(p := (procs s p)\<lparr>pid := nextpid s, pstate := USED, trapframe := t, pagetable := x,
      pcontext := \<lparr>ctx_ra = forkret_addr s, ctx_sp = kstack (procs s p) + PGSIZE, ctx_s = (\<lambda>_. 0)\<rparr>\<rparr>) \<and>
    (\<forall>va < MAXVA. lookup (mem s') x va = fresh_entry (trampoline s) t va)"
proof -
  let ?m = "lockd (ProcLock p) (mach s)"
  let ?s2 = "upd_proc p (\<lambda>q. q\<lparr>pid := nextpid s, pstate := USED\<rparr>)
    (s\<lparr>mach := ?m, nextpid := nextpid s + 1\<rparr>)"
  have mo: "mach_ok (mach s)" using locks(1) by (simp add: proc_locks_ok_def)
  have k: "lock_free KmemLock (mach s)" using pl(1) by (simp add: pool_def kmem_ok_def)
  have scan: "allocproc_scan [0..<NPROC] s = Ok (Some p, s\<lparr>mach := ?m\<rparr>)"
    by (rule allocproc_scan_found [OF locks(1) _ p]) simp
  have pid: "allocpid (s\<lparr>mach := ?m\<rparr>) = Ok (nextpid s, s\<lparr>mach := ?m, nextpid := nextpid s + 1\<rparr>)"
    using mo locks(2) by (simp add: allocpid_ok)
  have "pool ?s2 (t # x # xs)" using pl(1) mo k by (intro pool_cong [OF pl(1)]) simp_all
  then obtain s3 where s3: "kalloc ?s2 = Ok (t, s3)" "pool s3 (x # xs)" "kupd ?s2 s3" "t \<noteq> 0"
    using kalloc_pool by blast
  let ?s4 = "upd_proc p (\<lambda>q. q\<lparr>trapframe := t\<rparr>) s3"
  have m3: "mach s3 = ?m" using kupd_mach [OF s3(3)] mo by auto
  have p3: "procs s3 = procs ?s2" by (rule kupd_procs [OF s3(3)])
  have "pool ?s4 (x # xs)" using m3 mo k by (intro pool_cong [OF s3(2)]) simp_all
  from proc_pagetable_ok [OF this pl(2), of p] obtain s5 xs5 where s5:
    "proc_pagetable p ?s4 = Ok (x, s5)" "x \<noteq> 0" "kupd ?s4 s5" "vm_inv s5 x xs5"
    "\<forall>va < MAXVA. lookup (mem s5) x va = fresh_entry (trampoline ?s4) t va" by auto
  have m5: "mach s5 = ?m" using kupd_mach [OF s5(3)] m3 mo by auto
  have p5: "procs s5 = procs ?s4" by (rule kupd_procs [OF s5(3)])
  have v5: "trampoline ?s4 = trampoline s" "forkret_addr s5 = forkret_addr s" "nextpid s5 = nextpid s + 1"
    using kupd_vmstate [OF s3(3)] kupd_vmstate [OF s5(3)] by (simp_all add: upd_proc_def)
  let ?s7 = "upd_proc p (\<lambda>q. q\<lparr>pcontext := \<lparr>ctx_ra = forkret_addr s, ctx_sp = kstack q + PGSIZE, ctx_s = (\<lambda>_. 0)\<rparr>\<rparr>)
    (upd_proc p (\<lambda>q. q\<lparr>pagetable := x\<rparr>) s5)"
  have "forkret_addr (upd_proc p f s5) = forkret_addr s" for f using v5(2) by (simp add: upd_proc_def)
  then have "allocproc s = Ok (Some p, ?s7)"
    unfolding allocproc_def using scan pid s3(1,4) s5(1,2) by (simp add: Let_def)
  moreover have "vm_inv ?s7 x xs5"
    using s5(4) pool_cong [of s5 xs5 ?s7] by (simp add: vm_inv_def pool_def kmem_ok_def)
  moreover have "procs ?s7 = (procs s)(p := (procs s p)\<lparr>pid := nextpid s, pstate := USED, trapframe := t, pagetable := x,
      pcontext := \<lparr>ctx_ra = forkret_addr s, ctx_sp = kstack (procs s p) + PGSIZE, ctx_s = (\<lambda>_. 0)\<rparr>\<rparr>)"
    using p3 p5 by (auto simp: fun_eq_iff)
  ultimately show ?thesis using m5 v5 s5(5) by (intro exI [of _ ?s7] exI [of _ xs5]) simp
qed

section \<open>Handing over children\<close>

definition adopted :: "nat \<Rightarrow> nat option \<Rightarrow> nat set \<Rightarrow> (nat \<Rightarrow> proc) \<Rightarrow> nat \<Rightarrow> proc" where
  "adopted p ini is ps = (\<lambda>i. if i \<in> is \<and> parent (ps i) = Some p then (ps i)\<lparr>parent := ini\<rparr> else ps i)"

lemma parent_woken [simp]: "parent (woken ch me is ps i) = parent (ps i)"
  by (simp add: woken_def)

lemma woken_woken [simp]: "woken ch me is (woken ch me is ps) = woken ch me is ps"
  by (auto simp: woken_def fun_eq_iff)

lemma adopted_woken: "adopted p ini is (woken ch me js ps) = woken ch me js (adopted p ini is ps)"
  by (auto simp: adopted_def woken_def fun_eq_iff)

lemma reparent_list_ok:
  assumes "proc_locks_ok s" "distinct is" "set is \<subseteq> {0..<NPROC}"
  shows "\<exists>s'. rfold (reparent1 p) is s = Ok s' \<and> proc_locks_ok s' \<and> myproc s' = myproc s \<and> initproc s' = initproc s \<and>
    locks (mach s') = locks (mach s) \<and> mem s' = mem s \<and>
    procs s' = (if \<exists>i \<in> set is. parent (procs s i) = Some p
      then woken (proc_chan (initproc s)) (myproc s) {0..<NPROC} (adopted p (initproc s) (set is) (procs s))
      else procs s)"
  using assms
proof (induction "is" arbitrary: s)
  case Nil
  then show ?case by simp
next
  case (Cons i "is")
  show ?case
  proof (cases "parent (procs s i) = Some p")
    case False
    then have "adopted p (initproc s) (set (i # is)) (procs s) = adopted p (initproc s) (set is) (procs s)"
      by (auto simp: adopted_def fun_eq_iff)
    moreover have "reparent1 p i s = Ok s" using False by (simp add: reparent1_def)
    ultimately show ?thesis using Cons.IH [OF Cons.prems(1)] Cons.prems(2,3) False by (auto split: if_splits)
  next
    case True
    let ?c = "proc_chan (initproc s)" and ?me = "myproc s" and ?u = "upd_proc i (\<lambda>q. q\<lparr>parent := initproc s\<rparr>) s"
    let ?s1 = "?u\<lparr>mach := sync (mach ?u), procs := woken ?c ?me {0..<NPROC} (procs ?u)\<rparr>"
    have ok: "proc_locks_ok ?u" using Cons.prems(1) by (simp add: proc_locks_ok_def)
    have me: "myproc ?u = ?me" "myproc ?s1 = ?me" by (simp_all add: myproc_def mycpu_def cpuid_def)
    have one: "reparent1 p i s = Ok ?s1" using True wakeup_ok [OF ok, of ?c] me by (simp add: reparent1_def)
    have ok1: "proc_locks_ok ?s1" using ok by (simp add: proc_locks_ok_def)
    have ad: "adopted p (initproc s) (set is) (procs ?u) = adopted p (initproc s) (set (i # is)) (procs s)"
      using Cons.prems(2) True by (auto simp: adopted_def fun_eq_iff)
    obtain s' where s': "rfold (reparent1 p) is ?s1 = Ok s'" "proc_locks_ok s'" "myproc s' = ?me" "initproc s' = initproc s"
      "locks (mach s') = locks (mach s)" "mem s' = mem s"
      "procs s' = (if \<exists>j \<in> set is. parent (procs ?s1 j) = Some p
        then woken ?c ?me {0..<NPROC} (adopted p (initproc s) (set is) (procs ?s1)) else procs ?s1)"
      using Cons.IH [OF ok1] Cons.prems me by (auto simp: upd_proc_def)
    have "procs s' = woken ?c ?me {0..<NPROC} (adopted p (initproc s) (set (i # is)) (procs s))"
    proof (cases "\<exists>j \<in> set is. parent (procs ?s1 j) = Some p")
      case True
      then show ?thesis using s'(7) ad by (simp add: adopted_woken)
    next
      case False
      then have "adopted p (initproc s) (set is) (procs ?u) = procs ?u" by (auto simp: adopted_def fun_eq_iff)
      then show ?thesis using s'(7) False ad by simp
    qed
    then show ?thesis using one s' True by simp
  qed
qed

section \<open>Properties\<close>

text \<open>C26. Allocating a process: with free process locks, a free slot and six free pages, \<open>allocproc\<close>
  returns the first free slot with its lock held, a new pid and a context that starts at
  \<open>forkret\<close> on the slot's kernel stack; its fresh page table maps exactly the trampoline and the
  trapframe page, neither accessible to user code. The slot's \<open>killed\<close> flag is left as it was, and
  no other slot changes.\<close>

theorem allocproc_slot:
  assumes "proc_locks_ok s" "lock_free PidLock (mach s)" "pool s xs" "6 \<le> length xs"
    and "find (\<lambda>i. pstate (procs s i) = UNUSED) [0..<NPROC] = Some p"
  shows "\<exists>s' xs'. allocproc s = Ok (Some p, s') \<and> holding (ProcLock p) (mach s') \<and>
    pid (procs s' p) = nextpid s \<and> nextpid s' = nextpid s + 1 \<and> pstate (procs s' p) = USED \<and>
    ctx_ra (pcontext (procs s' p)) = forkret_addr s \<and> ctx_sp (pcontext (procs s' p)) = kstack (procs s p) + PGSIZE \<and>
    pkilled (procs s' p) = pkilled (procs s p) \<and> (\<forall>j. j \<noteq> p \<longrightarrow> procs s' j = procs s j) \<and>
    vm_inv s' (pagetable (procs s' p)) xs' \<and>
    (\<forall>va < MAXVA. lookup (mem s') (pagetable (procs s' p)) va =
       fresh_entry (trampoline s) (trapframe (procs s' p)) va)"
proof -
  obtain t x ys where xs: "xs = t # x # ys" "4 \<le> length ys"
    using assms(4) by (cases xs; cases "tl xs") auto
  from allocproc_ok [OF assms(1,2) assms(3) [unfolded xs(1)] xs(2) assms(5)] show ?thesis
  proof (elim exE conjE, goal_cases)
    case (1 s' xs')
    then show ?case by (intro exI [of _ s'] exI [of _ xs']) simp
  qed
qed

text \<open>Sixteen free pages at the end of RAM, and a process table over them.\<close>

definition boot_ex :: kmem where
  "boot_ex = (case freerange_loop 0x87FF0000 PHYSTOP (kmem_ex\<lparr>freelist := 0\<rparr>) of Ok s \<Rightarrow> s | _ \<Rightarrow> kmem_ex)"

definition vmstate_ex :: vmstate where
  "vmstate_ex = \<lparr>mach = mach_ex, mem = mem boot_ex, freelist = freelist boot_ex, kend = kend boot_ex,
     procs = procs ptable_ex, nextpid = 3, initproc = Some 0, kernel_pagetable = 0, satp = (\<lambda>_. 0),
     etext = 0x80008000, trampoline = 0x80007000, forkret_addr = 0x80001234\<rparr>"

lemma vmstate_ex_pool: "pool vmstate_ex (rev (page_list 0x87FF0000 16))"
proof -
  have "pool (kmem_ex\<lparr>freelist := 0\<rparr>) []"
    by (simp add: pool_def kmem_ok_def free_list_def kmem_ex_def mach_ex_ok)
  then have "\<exists>s'. freerange_loop 0x87FF0000 PHYSTOP (kmem_ex\<lparr>freelist := 0\<rparr>) = Ok s' \<and>
      pool s' (rev (page_list 0x87FF0000 16) @ []) \<and> kend s' = kend (kmem_ex\<lparr>freelist := 0\<rparr>)"
    by (rule freerange_loop_ok) (simp_all add: page_aligned_def kmem_ex_def layout_simps)
  then have "pool boot_ex (rev (page_list 0x87FF0000 16))" by (auto simp: boot_ex_def)
  then show ?thesis
    by (simp add: pool_def kmem_ok_def free_list_def ram_page_def vmstate_ex_def mach_ex_ok)
qed

lemma vmstate_ex_locks: "proc_locks_ok vmstate_ex" "lock_free lk (mach vmstate_ex)"
  by (simp_all add: proc_locks_ok_def vmstate_ex_def mach_ex_ok)

lemma NPROC_upt: "[0..<NPROC] = 0 # 1 # 2 # [3..<NPROC]"
  by (simp add: upt_rec NPROC_def)

theorem allocproc_slot_witness:
  "\<exists>s'. allocproc vmstate_ex = Ok (Some 2, s') \<and> holding (ProcLock 2) (mach s') \<and> pid (procs s' 2) = 3 \<and> nextpid s' = 4"
proof -
  have "find (\<lambda>i. pstate (procs vmstate_ex i) = UNUSED) [0..<NPROC] = Some 2"
    unfolding NPROC_upt by (simp add: vmstate_ex_def proc_ex_def)
  from allocproc_slot [OF vmstate_ex_locks vmstate_ex_pool _ this]
  have "\<exists>s' xs'. allocproc vmstate_ex = Ok (Some 2, s') \<and> holding (ProcLock 2) (mach s') \<and>
    pid (procs s' 2) = nextpid vmstate_ex \<and> nextpid s' = nextpid vmstate_ex + 1"
    by (auto simp: page_list_def)
  then show ?thesis by (auto simp: vmstate_ex_def)
qed

text \<open>C27. \<open>reparent\<close> gives exactly the children of a process to \<open>init\<close>, and wakes \<open>init\<close> if it is asleep in
  \<open>wait\<close> and there was a child; it changes nothing else.\<close>

theorem reparent_exact:
  assumes "proc_locks_ok s" and "initproc s = Some ini" and "ini < NPROC"
  shows "\<exists>s'. reparent p s = Ok s' \<and> locks (mach s') = locks (mach s) \<and>
    (\<forall>i < NPROC. parent (procs s' i) = (if parent (procs s i) = Some p then Some ini else parent (procs s i))) \<and>
    (\<forall>i < NPROC. pstate (procs s' i) =
      (if pstate (procs s i) = SLEEPING \<and> pchan (procs s i) = ChProc ini \<and> Some i \<noteq> myproc s \<and>
         (\<exists>j < NPROC. parent (procs s j) = Some p) then RUNNABLE else pstate (procs s i)))"
proof -
  from reparent_list_ok [OF assms(1), of "[0..<NPROC]" p] obtain s' where
    s': "reparent p s = Ok s'" "locks (mach s') = locks (mach s)"
      "procs s' = (if \<exists>i \<in> {0..<NPROC}. parent (procs s i) = Some p
        then woken (ChProc ini) (myproc s) {0..<NPROC} (adopted p (Some ini) {0..<NPROC} (procs s)) else procs s)"
    using assms(2) by (auto simp: reparent_def)
  show ?thesis
  proof (cases "\<exists>i \<in> {0..<NPROC}. parent (procs s i) = Some p")
    case True
    then show ?thesis using s' by (intro exI [of _ s']) (auto simp: adopted_def woken_def)
  next
    case False
    then show ?thesis using s' by (intro exI [of _ s']) auto
  qed
qed

theorem reparent_exact_witness:
  "\<exists>s'. reparent 1 (upd_proc 2 (\<lambda>q. q\<lparr>parent := Some 1\<rparr>) vmstate_ex) = Ok s' \<and> parent (procs s' 2) = Some 0"
proof -
  let ?s = "upd_proc 2 (\<lambda>q. q\<lparr>parent := Some 1\<rparr>) vmstate_ex"
  have "proc_locks_ok ?s" "initproc ?s = Some 0" using vmstate_ex_locks by (simp_all add: proc_locks_ok_def vmstate_ex_def)
  from reparent_exact [OF this, of 1] show ?thesis by (auto simp: NPROC_def)
qed

end
