(* ===== verification/Sleeplock.thy ===== *)
theory Sleeplock
  imports Procmem
begin

text \<open>
  Sleep locks, \<^verbatim>\<open>kernel/sleeplock.c\<close>. A sleep lock is named by the spin lock inside it, so the state
  maps lock names to \<open>struct sleeplock\<close>. \<open>acquiresleep_env\<close> is \<open>acquiresleep\<close> with the list of what the other threads do
  while the caller sleeps; the rest of the kernel model uses \<open>acquiresleep\<close>, the case of an empty list, where a call
  that has to sleep is the outcome \<open>Blocked\<close>.
\<close>

record sleeplock =
  slocked :: bool
  slname :: string
  slpid :: int

record slstate = vmstate +
  slocks :: "lock \<Rightarrow> sleeplock"

definition upd_slock :: "lock \<Rightarrow> (sleeplock \<Rightarrow> sleeplock) \<Rightarrow> 'a slstate_scheme \<Rightarrow> 'a slstate_scheme" where
  "upd_slock lk f s = s\<lparr>slocks := (slocks s)(lk := f (slocks s lk))\<rparr>"

definition initsleeplock :: "lock \<Rightarrow> string \<Rightarrow> 'a slstate_scheme \<Rightarrow> 'a slstate_scheme" where
  "initsleeplock lk name s =
     upd_slock lk (\<lambda>l. l\<lparr>slname := name, slocked := False, slpid := 0\<rparr>)
       (s\<lparr>mach := initlock lk ''sleep lock'' (mach s)\<rparr>)"

fun acquiresleep_loop :: "'a slstate_scheme env \<Rightarrow> lock \<Rightarrow> 'a slstate_scheme \<Rightarrow> ('a slstate_scheme env \<times> 'a slstate_scheme) res" where
  "acquiresleep_loop env lk s =
     (if slocked (slocks s lk)
      then (case env of [] \<Rightarrow> Blocked | e # es \<Rightarrow> rbind (sleep e (ChSleeplock lk) lk s) (acquiresleep_loop es lk))
      else Ok (env, s))"

declare acquiresleep_loop.simps [simp del]

definition acquiresleep_env :: "'a slstate_scheme env \<Rightarrow> lock \<Rightarrow> 'a slstate_scheme \<Rightarrow> ('a slstate_scheme env \<times> 'a slstate_scheme) res" where
  "acquiresleep_env env lk s = rbind (kacquire lk s) (\<lambda>s1.
     rbind (acquiresleep_loop env lk s1) (\<lambda>(env1, s2).
     with_proc s2 (\<lambda>p.
     rbind (krelease lk (upd_slock lk (\<lambda>l. l\<lparr>slocked := True, slpid := pid (procs s2 p)\<rparr>) s2)) (\<lambda>s3. Ok (env1, s3)))))"

definition acquiresleep :: "lock \<Rightarrow> 'a slstate_scheme \<Rightarrow> 'a slstate_scheme res" where
  "acquiresleep lk s = rbind (acquiresleep_env [] lk s) (\<lambda>(env, s1). Ok s1)"

definition releasesleep :: "lock \<Rightarrow> 'a slstate_scheme \<Rightarrow> 'a slstate_scheme res" where
  "releasesleep lk s = rbind (kacquire lk s) (\<lambda>s1.
     rbind (wakeup (ChSleeplock lk) (upd_slock lk (\<lambda>l. l\<lparr>slocked := False, slpid := 0\<rparr>) s1))
       (krelease lk))"

definition holdingsleep :: "lock \<Rightarrow> 'a slstate_scheme \<Rightarrow> (bool \<times> 'a slstate_scheme) res" where
  "holdingsleep lk s = rbind (kacquire lk s) (\<lambda>s1.
     if slocked (slocks s1 lk)
     then with_proc s1 (\<lambda>p.
       let r = (slpid (slocks s1 lk) = pid (procs s1 p))
       in rbind (krelease lk s1) (\<lambda>s2. Ok (r, s2)))
     else rbind (krelease lk s1) (\<lambda>s2. Ok (False, s2)))"

section \<open>Behaviour\<close>

lemma upd_slock_simps [simp]:
  "mach (upd_slock lk f s) = mach s" "procs (upd_slock lk f s) = procs s"
  "slocks (upd_slock lk f s) = (slocks s)(lk := f (slocks s lk))"
  by (simp_all add: upd_slock_def)

text \<open>\<open>sl_ok lk s\<close>: the locks the routines take are free and a process runs.\<close>

definition sl_ok :: "lock \<Rightarrow> 'a slstate_scheme \<Rightarrow> bool" where
  "sl_ok lk s \<longleftrightarrow> proc_locks_ok s \<and> lock_free lk (mach s) \<and> (\<forall>i. ProcLock i \<noteq> lk) \<and> myproc s \<noteq> None"

definition my_pid :: "'a ptable_scheme \<Rightarrow> int" where
  "my_pid s = pid (procs s (the (myproc s)))"

lemma sl_ok_mach: "sl_ok lk s \<Longrightarrow> mach_ok (mach s) \<and> lock_free lk (mach s)"
  by (simp add: sl_ok_def proc_locks_ok_def)

lemma acquiresleep_env_free:
  assumes "sl_ok lk s" "\<not> slocked (slocks s lk)"
  shows "acquiresleep_env env lk s =
    Ok (env, upd_slock lk (\<lambda>l. l\<lparr>slocked := True, slpid := my_pid s\<rparr>) (s\<lparr>mach := sync (mach s)\<rparr>))"
proof -
  obtain p where p: "myproc s = Some p" using assms(1) by (auto simp: sl_ok_def)
  have "with_proc (s\<lparr>mach := lockd lk (mach s)\<rparr>) f = f p" for f :: "nat \<Rightarrow> ('a slstate_scheme env \<times> 'a slstate_scheme) res"
    using p by (intro with_proc_Some) (simp add: myproc_def)
  then show ?thesis
    using assms sl_ok_mach [OF assms(1)] p
    by (simp add: acquiresleep_env_def acquiresleep_loop.simps kacquire_free krelease_lockd upd_slock_def my_pid_def)
qed

lemma acquiresleep_ok [res_simps]:
  assumes "sl_ok lk s" "\<not> slocked (slocks s lk)"
  shows "acquiresleep lk s =
    Ok (upd_slock lk (\<lambda>l. l\<lparr>slocked := True, slpid := my_pid s\<rparr>) (s\<lparr>mach := sync (mach s)\<rparr>))"
  by (simp add: acquiresleep_def acquiresleep_env_free [OF assms])

lemma holdingsleep_ok [res_simps]:
  assumes "sl_ok lk s"
  shows "holdingsleep lk s =
    Ok (slocked (slocks s lk) \<and> slpid (slocks s lk) = my_pid s, s\<lparr>mach := sync (mach s)\<rparr>)"
proof -
  obtain p where p: "myproc s = Some p" using assms(1) by (auto simp: sl_ok_def)
  have "with_proc (s\<lparr>mach := lockd lk (mach s)\<rparr>) f = f p" for f :: "nat \<Rightarrow> (bool \<times> 'a slstate_scheme) res"
    using p by (intro with_proc_Some) (simp add: myproc_def)
  then show ?thesis
    using assms sl_ok_mach [OF assms(1)] p
    by (simp add: holdingsleep_def kacquire_free krelease_lockd my_pid_def)
qed

lemma releasesleep_ok [res_simps]:
  assumes "sl_ok lk s"
  shows "releasesleep lk s =
    Ok (upd_slock lk (\<lambda>l. l\<lparr>slocked := False, slpid := 0\<rparr>)
      (s\<lparr>mach := sync (mach s), procs := woken (ChSleeplock lk) (myproc s) {0..<NPROC} (procs s)\<rparr>))"
proof -
  let ?u = "upd_slock lk (\<lambda>l. l\<lparr>slocked := False, slpid := 0\<rparr>) (s\<lparr>mach := lockd lk (mach s)\<rparr>)"
  have m: "mach ?u = lockd lk (mach s)" "procs ?u = procs s" by (simp_all add: upd_slock_def)
  have ok: "proc_locks_ok ?u" using assms by (auto simp: proc_locks_ok_def sl_ok_def m not_sym)
  have me: "myproc ?u = myproc s" by (simp add: myproc_def m(1))
  have "wakeup (ChSleeplock lk) ?u = Ok (?u\<lparr>mach := lockd lk (mach s),
      procs := woken (ChSleeplock lk) (myproc s) {0..<NPROC} (procs s)\<rparr>)"
    using wakeup_ok [OF ok, of "ChSleeplock lk"] me m sl_ok_mach [OF assms] by simp
  then show ?thesis
    using sl_ok_mach [OF assms] by (simp add: releasesleep_def kacquire_free krelease_lockd upd_slock_def)
qed

section \<open>Waiting\<close>

text \<open>\<open>sl_waiting p lk t\<close>: process \<open>p\<close> is asleep on the sleep lock \<open>lk\<close>, holds its own lock and not the spin lock inside \<open>lk\<close>.
  \<open>runs_again p lk t\<close>: the scheduler has switched back to \<open>p\<close>, on some hart.\<close>

definition sl_waiting :: "nat \<Rightarrow> lock \<Rightarrow> 'a slstate_scheme \<Rightarrow> bool" where
  "sl_waiting p lk t \<longleftrightarrow> pstate (procs t p) = SLEEPING \<and> pchan (procs t p) = ChSleeplock lk \<and>
     holding (ProcLock p) (mach t) \<and> lock_free lk (mach t)"

definition runs_again :: "nat \<Rightarrow> lock \<Rightarrow> 'a slstate_scheme \<Rightarrow> bool" where
  "runs_again p lk t \<longleftrightarrow> (\<exists>m. mach t = lockd (ProcLock p) m \<and> noff (mycpu m) = 0 \<and> lock_free lk m \<and>
     lock_free (ProcLock p) m \<and> cpu_proc (mycpu m) = Some p)"

text \<open>Process \<open>p\<close> at the head of the waiting loop.\<close>

definition at_loop :: "nat \<Rightarrow> lock \<Rightarrow> 'a slstate_scheme \<Rightarrow> bool" where
  "at_loop p lk s \<longleftrightarrow> (\<exists>m. mach s = lockd lk m \<and> mach_ok m \<and> noff (mycpu m) = 0 \<and> lock_free lk m \<and>
     lock_free (ProcLock p) m \<and> cpu_proc (mycpu m) = Some p)"

lemma sleep_wait:
  assumes "at_loop p lk s" "lk \<noteq> ProcLock p" and e: "\<And>t. sl_waiting p lk t \<Longrightarrow> runs_again p lk (e t)"
  shows "\<exists>s1 t. sleep e (ChSleeplock lk) lk s = Ok s1 \<and> at_loop p lk s1 \<and> sl_waiting p lk t \<and> slocks s1 = slocks (e t)"
proof -
  obtain m where m: "mach s = lockd lk m" "mach_ok m" "noff (mycpu m) = 0" "lock_free lk m" "lock_free (ProcLock p) m"
    "cpu_proc (mycpu m) = Some p" using assms(1) by (auto simp: at_loop_def)
  let ?t = "asleep p (ChSleeplock lk) m s"
  have w: "sl_waiting p lk ?t" using m(4) assms(2) by (simp add: sl_waiting_def asleep_def)
  then obtain m' where m': "mach (e ?t) = lockd (ProcLock p) m'" "noff (mycpu m') = 0" "lock_free lk m'" "lock_free (ProcLock p) m'"
    "cpu_proc (mycpu m') = Some p" using e [OF w] by (auto simp: runs_again_def)
  let ?s1 = "upd_proc p (\<lambda>q. q\<lparr>pchan := NoChan\<rparr>) (e ?t\<lparr>mach := lockd lk (resume (intr_get m) m')\<rparr>)"
  have "sleep e (ChSleeplock lk) lk s = Ok ?s1"
    using m(1-3) assms(2) m(4-6) m'(1-4) by (rule sleep_ok)
  moreover have "mach_ok (resume (intr_get m) m')" "cpu_proc (mycpu (resume (intr_get m) m')) = Some p"
    using m'(2,5) by (simp_all add: mach_ok_def) (simp add: resume_def machine_defs)
  then have "at_loop p lk ?s1" using m' unfolding at_loop_def by (intro exI [of _ "resume (intr_get m) m'"]) (simp add: upd_proc_def)
  moreover have "slocks ?s1 = slocks (e ?t)" by (simp add: upd_proc_def)
  ultimately show ?thesis using w by blast
qed

lemma acquiresleep_loop_waits:
  assumes "at_loop p lk s" "lk \<noteq> ProcLock p" "slocked (slocks s lk)"
    and "\<And>f t. f \<in> set (es @ [e]) \<Longrightarrow> sl_waiting p lk t \<Longrightarrow> runs_again p lk (f t)"
    and "\<And>f t. f \<in> set es \<Longrightarrow> sl_waiting p lk t \<Longrightarrow> slocked (slocks (f t) lk)" "\<And>t. sl_waiting p lk t \<Longrightarrow> \<not> slocked (slocks (e t) lk)"
  shows "\<exists>s1. acquiresleep_loop (es @ e # rest) lk s = Ok (rest, s1) \<and> at_loop p lk s1"
  using assms
proof (induction es arbitrary: s)
  case Nil
  obtain s1 t where "sleep e (ChSleeplock lk) lk s = Ok s1" "at_loop p lk s1" "\<not> slocked (slocks s1 lk)"
    using sleep_wait [OF Nil.prems(1,2), of e] Nil.prems(4,6) by (metis append_Nil list.set_intros(1))
  then show ?case using Nil.prems(3) by (simp add: acquiresleep_loop.simps [of "e # rest"] acquiresleep_loop.simps [of rest])
next
  case (Cons f es)
  obtain s1 where s1: "sleep f (ChSleeplock lk) lk s = Ok s1" "at_loop p lk s1" "slocked (slocks s1 lk)"
    using sleep_wait [OF Cons.prems(1,2), of f] Cons.prems(4,5) by (metis append_Cons list.set_intros(1))
  have "\<exists>s2. acquiresleep_loop (es @ e # rest) lk s1 = Ok (rest, s2) \<and> at_loop p lk s2"
    using Cons.prems(2,4-6) by (intro Cons.IH [OF s1(2) _ s1(3)]) auto
  then show ?case using s1(1) Cons.prems(3) by (simp add: acquiresleep_loop.simps [of "f # es @ e # rest"])
qed

section \<open>Properties\<close>

text \<open>C28. Waiting for a sleep lock. A process that finds the lock taken sleeps on the lock's channel without
  holding the spin lock inside, and sleeps again as long as another process has the lock when it wakes up
  (the threads \<open>es\<close>); once it finds the lock free (after \<open>e\<close>) it returns with the lock marked as held by its pid and no
  spin lock held. On a free lock it returns at once. Whoever releases the lock makes it free and makes every process
  that waits as described runnable.\<close>

theorem sleeplock_handover:
  fixes s :: "'a slstate_scheme"
  assumes "sl_ok lk s" "myproc s = Some p" "noff (mycpu (mach s)) = 0" "p < NPROC"
    and "\<And>f t. f \<in> set (es @ [e]) \<Longrightarrow> sl_waiting p lk t \<Longrightarrow> runs_again p lk (f t)"
    and "\<And>f t. f \<in> set es \<Longrightarrow> sl_waiting p lk t \<Longrightarrow> slocked (slocks (f t) lk)" "\<And>t. sl_waiting p lk t \<Longrightarrow> \<not> slocked (slocks (e t) lk)"
  shows "(\<exists>s'. acquiresleep_env (es @ e # rest) lk s = Ok (if slocked (slocks s lk) then rest else es @ e # rest, s') \<and>
      slocked (slocks s' lk) \<and> slpid (slocks s' lk) = pid (procs s' p) \<and> lock_free lk (mach s') \<and> myproc s' = Some p) \<and>
    (\<forall>u :: 'a slstate_scheme. sl_ok lk u \<and> myproc u \<noteq> Some p \<and> pstate (procs u p) = SLEEPING \<and> pchan (procs u p) = ChSleeplock lk \<longrightarrow>
      (\<exists>u'. releasesleep lk u = Ok u' \<and> \<not> slocked (slocks u' lk) \<and> pstate (procs u' p) = RUNNABLE))"
proof -
  let ?s = "s\<lparr>mach := lockd lk (mach s)\<rparr>"
  have m: "mach_ok (mach s)" "lock_free lk (mach s)" "lock_free (ProcLock p) (mach s)" "lk \<noteq> ProcLock p"
    using assms(1,4) by (auto simp: sl_ok_def proc_locks_ok_def)
  have at: "at_loop p lk ?s" using m assms(2,3) unfolding at_loop_def by (intro exI [of _ "mach s"]) (simp add: myproc_def)
  have "\<exists>s1. acquiresleep_loop (es @ e # rest) lk ?s = Ok (if slocked (slocks s lk) then rest else es @ e # rest, s1) \<and> at_loop p lk s1"
  proof (cases "slocked (slocks s lk)")
    case True
    then have "\<exists>s1. acquiresleep_loop (es @ e # rest) lk ?s = Ok (rest, s1) \<and> at_loop p lk s1"
      using assms(5-7) by (intro acquiresleep_loop_waits [OF at m(4)]) simp_all
    then show ?thesis using True by simp
  next
    case False
    then show ?thesis using at by (simp add: acquiresleep_loop.simps)
  qed
  then obtain s1 m1 where l: "acquiresleep_loop (es @ e # rest) lk ?s = Ok (if slocked (slocks s lk) then rest else es @ e # rest, s1)"
    and s1: "mach s1 = lockd lk m1" "mach_ok m1" "lock_free lk m1" "cpu_proc (mycpu m1) = Some p" by (auto simp: at_loop_def)
  have "myproc s1 = Some p" using s1(1,4) by (simp add: myproc_def)
  then have "acquiresleep_env (es @ e # rest) lk s = Ok (if slocked (slocks s lk) then rest else es @ e # rest,
      upd_slock lk (\<lambda>l. l\<lparr>slocked := True, slpid := pid (procs s1 p)\<rparr>) (s1\<lparr>mach := sync m1\<rparr>))"
    using m(2) l s1(1-3) by (simp add: acquiresleep_env_def kacquire_free krelease_lockd upd_slock_def)
  moreover have "\<exists>u'. releasesleep lk u = Ok u' \<and> \<not> slocked (slocks u' lk) \<and> pstate (procs u' p) = RUNNABLE"
    if "sl_ok lk u" "myproc u \<noteq> Some p" "pstate (procs u p) = SLEEPING" "pchan (procs u p) = ChSleeplock lk" for u :: "'a slstate_scheme"
    using releasesleep_ok [OF that(1)] that(2-4) assms(4) by (auto simp: upd_slock_def woken_def)
  ultimately show ?thesis using s1(3,4) by (fastforce simp: myproc_def)
qed

definition sl_ex :: slstate where
  "sl_ex = vmstate.extend (vmstate_ex\<lparr>mach := mach_run 0\<rparr>)
     \<lparr>slocks = (\<lambda>_. \<lparr>slocked = False, slname = [], slpid = 0\<rparr>)\<rparr>"

lemma sl_ex_simps [simp]:
  "mach sl_ex = mach_run 0" "procs sl_ex = procs ptable_ex" "slocks sl_ex = (\<lambda>_. \<lparr>slocked = False, slname = [], slpid = 0\<rparr>)"
  by (simp_all add: sl_ex_def vmstate.defs vmstate_ex_def)

lemma mach_run_ok: "mach_ok (mach_run c)" "lock_free lk (mach_run c)" "cpu_proc (mycpu (mach_run c)) = Some 0"
  by (simp_all add: mach_run_def mach_ex_def mach_ok_def lock_free_def machine_defs)

lemma sl_ex_ok: "sl_ok (BufLk 0) sl_ex"
  by (simp add: sl_ok_def proc_locks_ok_def mach_run_ok myproc_def)

text \<open>The lock is held by process 2; the first time process 0 wakes up another process has it, the second time it is
  free.\<close>

definition sl_back :: "bool \<Rightarrow> slstate \<Rightarrow> slstate" where
  "sl_back b t = upd_slock (BufLk 0) (\<lambda>l. l\<lparr>slocked := b\<rparr>) (t\<lparr>mach := lockd (ProcLock 0) (mach_run 1)\<rparr>)"

theorem sleeplock_handover_witness:
  "\<exists>s'. acquiresleep_env [sl_back True, sl_back False] (BufLk 0) (upd_slock (BufLk 0) (\<lambda>l. l\<lparr>slocked := True, slpid := 2\<rparr>) sl_ex) = Ok ([], s') \<and>
     slocked (slocks s' (BufLk 0)) \<and> slpid (slocks s' (BufLk 0)) = pid (procs s' 0)"
proof -
  let ?s = "upd_slock (BufLk 0) (\<lambda>l. l\<lparr>slocked := True, slpid := 2\<rparr>) sl_ex"
  have h: "sl_ok (BufLk 0) ?s" "myproc ?s = Some 0" "noff (mycpu (mach ?s)) = 0" "0 < NPROC"
    by (simp_all add: sl_ok_def proc_locks_ok_def mach_run_ok myproc_def NPROC_def) (simp add: mach_run_def machine_defs)
  have again: "runs_again 0 (BufLk 0) (sl_back b t)" for b t
    unfolding runs_again_def sl_back_def by (intro exI [of _ "mach_run 1"]) (simp add: mach_run_ok, simp add: mach_run_def machine_defs)
  have lck: "slocked (slocks (sl_back b t) (BufLk 0)) = b" for b t by (simp add: sl_back_def)
  show ?thesis
    using sleeplock_handover [OF h, of "[sl_back True]" "sl_back False" "[]"] again lck by fastforce
qed

end
