(* ===== verification/Ondisk.thy ===== *)
theory Ondisk
  imports Xv6_Prelude
begin

text \<open>
  Data in disk blocks, \<^verbatim>\<open>kernel/fs.h\<close>: little-endian fields in lists of bytes, and the layout of the
  super block, the inodes, the directory entries and the log header. \<open>splice off xs d\<close> stores the
  bytes \<open>xs\<close> at offset \<open>off\<close>, \<open>get_le k d off\<close> reads a word of \<open>k\<close> bytes.
\<close>

definition splice :: "nat \<Rightarrow> 'a list \<Rightarrow> 'a list \<Rightarrow> 'a list" where
  "splice off xs d = take off d @ xs @ drop (off + length xs) d"

definition le_bytes :: "nat \<Rightarrow> 'a::len word \<Rightarrow> u8 list" where
  "le_bytes k v = map (\<lambda>i. ucast (drop_bit (8 * i) v)) [0..<k]"

definition get_le :: "nat \<Rightarrow> u8 list \<Rightarrow> nat \<Rightarrow> 'a::len word" where
  "get_le k d off = word_of_int (horner_sum uint (2 ^ 8) (take k (drop off d)))"

definition put_le :: "nat \<Rightarrow> 'a::len word \<Rightarrow> nat \<Rightarrow> u8 list \<Rightarrow> u8 list" where
  "put_le k v off d = splice off (le_bytes k v) d"

abbreviation get32 :: "u8 list \<Rightarrow> nat \<Rightarrow> u32" where "get32 \<equiv> get_le 4"
abbreviation put32 :: "u32 \<Rightarrow> nat \<Rightarrow> u8 list \<Rightarrow> u8 list" where "put32 \<equiv> put_le 4"
abbreviation get16 :: "u8 list \<Rightarrow> nat \<Rightarrow> u16" where "get16 \<equiv> get_le 2"
abbreviation put16 :: "u16 \<Rightarrow> nat \<Rightarrow> u8 list \<Rightarrow> u8 list" where "put16 \<equiv> put_le 2"

lemma length_splice [simp]: "off + length xs \<le> length d \<Longrightarrow> length (splice off xs d) = length d"
  by (simp add: splice_def)

lemma splice_nth:
  assumes "off + length xs \<le> length d" "i < length d"
  shows "splice off xs d ! i = (if off \<le> i \<and> i < off + length xs then xs ! (i - off) else d ! i)"
  using assms by (auto simp: splice_def nth_append min_def)

lemma splice_self [simp]: "off + k \<le> length d \<Longrightarrow> splice off (take k (drop off d)) d = d"
  by (rule nth_equalityI) (auto simp: splice_nth)

lemma splice_all [simp]: "length xs = length d \<Longrightarrow> splice 0 xs d = xs"
  by (simp add: splice_def)

lemma splice_field [simp]: "off + length xs \<le> length d \<Longrightarrow> take (length xs) (drop off (splice off xs d)) = xs"
  by (simp add: splice_def min_def)

lemma splice_other:
  assumes "off + length xs \<le> length d" "o' + k \<le> length d" "o' + k \<le> off \<or> off + length xs \<le> o'"
  shows "take k (drop o' (splice off xs d)) = take k (drop o' d)"
  using assms by (intro nth_equalityI) (auto simp: splice_nth)

lemma length_le_bytes [simp]: "length (le_bytes k v) = k"
  by (simp add: le_bytes_def)

lemma length_put_le [simp]: "off + k \<le> length d \<Longrightarrow> length (put_le k v off d) = length d"
  by (simp add: put_le_def)

lemma bit_get_bytes:
  assumes "n < LENGTH('a)" "8 * length xs = LENGTH('a)"
  shows "bit (word_of_int (horner_sum uint (2 ^ 8) (xs :: u8 list)) :: 'a::len word) n \<longleftrightarrow> bit (xs ! (n div 8)) (n mod 8)"
proof -
  have "n div 8 < length xs" using assms by linarith
  then have "bit (horner_sum uint (2 ^ LENGTH(8)) xs) n \<longleftrightarrow> bit (xs ! (n div 8)) (n mod 8)"
    by (simp only: bit_horner_sum_uint_exp_iff) simp
  then show ?thesis using assms by (simp add: bit_word_of_int_iff)
qed

lemma le_bytes_word:
  assumes "8 * k = LENGTH('a)"
  shows "word_of_int (horner_sum uint (2 ^ 8) (le_bytes k (v :: 'a::len word))) = v"
proof (rule bit_word_eqI)
  fix n assume n: "n < LENGTH('a)"
  then have k: "n div 8 < k" using assms by linarith
  have "bit (word_of_int (horner_sum uint (2 ^ 8) (le_bytes k v)) :: 'a word) n \<longleftrightarrow>
      bit (le_bytes k v ! (n div 8)) (n mod 8)"
    using assms by (intro bit_get_bytes [OF n]) simp
  also have "\<dots> \<longleftrightarrow> bit v n"
    using k by (simp add: le_bytes_def bit_ucast_iff bit_drop_bit_eq)
  finally show "bit (word_of_int (horner_sum uint (2 ^ 8) (le_bytes k v)) :: 'a word) n \<longleftrightarrow> bit v n" .
qed

lemma get_put_le:
  assumes "8 * k = LENGTH('a)" "off + k \<le> length d"
  shows "get_le k (put_le k (v :: 'a::len word) off d) off = v"
  using assms splice_field [of off "le_bytes k v" d] le_bytes_word [OF assms(1), of v]
  by (simp add: get_le_def put_le_def)

lemma get_put_le_other:
  assumes "off + k \<le> length d" "o' + k' \<le> length d" "o' + k' \<le> off \<or> off + k \<le> o'"
  shows "get_le k' (put_le k v off d) o' = get_le k' d o'"
  using assms by (simp add: get_le_def put_le_def splice_other)

lemmas get_put32 [simp] = get_put_le [where ?'a = 32 and k = 4, simplified]
lemmas get_put16 [simp] = get_put_le [where ?'a = 16 and k = 2, simplified]

section \<open>The file system's structures\<close>

definition BSIZE :: nat where "BSIZE = 1024"
definition ROOTINO :: u32 where "ROOTINO = 1"
definition FSMAGIC :: u32 where "FSMAGIC = 0x10203040"
definition NDIRECT :: nat where "NDIRECT = 12"
definition NINDIRECT :: nat where "NINDIRECT = BSIZE div 4"
definition MAXFILE :: nat where "MAXFILE = NDIRECT + NINDIRECT"
definition IPB :: nat where "IPB = BSIZE div 64"
definition BPB :: nat where "BPB = BSIZE * 8"
definition DIRSIZ :: nat where "DIRSIZ = 14"
definition T_DIR :: u16 where "T_DIR = 1"
definition T_FILE :: u16 where "T_FILE = 2"
definition T_DEVICE :: u16 where "T_DEVICE = 3"

lemmas fs_consts = BSIZE_def ROOTINO_def FSMAGIC_def NDIRECT_def NINDIRECT_def MAXFILE_def IPB_def BPB_def
  DIRSIZ_def T_DIR_def T_FILE_def T_DEVICE_def

record superblock =
  sb_magic :: u32
  sb_size :: u32
  sb_nblocks :: u32
  sb_ninodes :: u32
  sb_nlog :: u32
  sb_logstart :: u32
  sb_inodestart :: u32
  sb_bmapstart :: u32

definition get_superblock :: "u8 list \<Rightarrow> superblock" where
  "get_superblock d = \<lparr>sb_magic = get32 d 0, sb_size = get32 d 4, sb_nblocks = get32 d 8, sb_ninodes = get32 d 12,
     sb_nlog = get32 d 16, sb_logstart = get32 d 20, sb_inodestart = get32 d 24, sb_bmapstart = get32 d 28\<rparr>"

definition IBLOCK :: "u32 \<Rightarrow> superblock \<Rightarrow> u32" where
  "IBLOCK i sb = i div of_nat IPB + sb_inodestart sb"

definition BBLOCK :: "u32 \<Rightarrow> superblock \<Rightarrow> u32" where
  "BBLOCK b sb = b div of_nat BPB + sb_bmapstart sb"

record dinode =
  d_type :: u16
  d_major :: u16
  d_minor :: u16
  d_nlink :: u16
  d_size :: u32
  d_addrs :: "u32 list"

text \<open>Inode \<open>i\<close> of a block is at offset \<open>64 * i\<close>.\<close>

definition get_dinode :: "u8 list \<Rightarrow> nat \<Rightarrow> dinode" where
  "get_dinode d i = \<lparr>d_type = get16 d (64 * i), d_major = get16 d (64 * i + 2), d_minor = get16 d (64 * i + 4),
     d_nlink = get16 d (64 * i + 6), d_size = get32 d (64 * i + 8),
     d_addrs = map (\<lambda>j. get32 d (64 * i + 12 + 4 * j)) [0..<NDIRECT + 1]\<rparr>"

definition dinode_bytes :: "dinode \<Rightarrow> u8 list" where
  "dinode_bytes x = le_bytes 2 (d_type x) @ le_bytes 2 (d_major x) @ le_bytes 2 (d_minor x) @ le_bytes 2 (d_nlink x) @
     le_bytes 4 (d_size x) @ concat (map (le_bytes 4) (d_addrs x))"

definition put_dinode :: "dinode \<Rightarrow> nat \<Rightarrow> u8 list \<Rightarrow> u8 list" where
  "put_dinode x i d = splice (64 * i) (dinode_bytes x) d"

record dirent =
  de_inum :: u16
  de_name :: "u8 list"

definition get_dirent :: "u8 list \<Rightarrow> dirent" where
  "get_dirent d = \<lparr>de_inum = get16 d 0, de_name = take DIRSIZ (drop 2 d)\<rparr>"

definition dirent_bytes :: "dirent \<Rightarrow> u8 list" where
  "dirent_bytes de = le_bytes 2 (de_inum de) @ de_name de"

record stat =
  st_dev :: u32
  st_ino :: u32
  st_type :: u16
  st_nlink :: u16
  st_size :: u64

lemma length_concat_le: "length (concat (map (le_bytes k) xs)) = k * length xs"
  by (induction xs) simp_all

lemma length_dinode_bytes: "length (d_addrs x) = NDIRECT + 1 \<Longrightarrow> length (dinode_bytes x) = 64"
  by (simp add: dinode_bytes_def length_concat_le fs_consts)

lemma get_le_append: "k \<le> length xs \<Longrightarrow> get_le k (xs @ ys) 0 = (get_le k xs 0 :: 'a::len word)"
  by (simp add: get_le_def)

lemma get_le_bytes: "8 * k = LENGTH('a) \<Longrightarrow> get_le k (pre @ le_bytes k (v :: 'a::len word) @ post) (length pre) = v"
  using le_bytes_word [of k v] by (simp add: get_le_def)

lemma get_le_at:
  assumes "off + j + k \<le> length d" "take n (drop off d) = ys" "j + k \<le> n"
  shows "get_le k d (off + j) = (get_le k ys j :: 'a::len word)"
proof -
  have "take k (drop (off + j) d) = take k (drop j ys)"
    using assms by (auto simp: drop_take add.commute min_def)
  then show ?thesis by (simp add: get_le_def)
qed

lemma concat_le_nth:
  assumes "j < length xs"
  shows "get32 (concat (map (le_bytes 4) xs)) (4 * j) = xs ! j"
proof -
  have "concat (map (le_bytes 4) xs) = concat (map (le_bytes 4) (take j xs)) @ le_bytes 4 (xs ! j) @ concat (map (le_bytes 4) (drop (Suc j) xs))"
    by (subst id_take_nth_drop [OF assms]) simp
  moreover have "length (concat (map (le_bytes 4) (take j xs))) = 4 * j" using assms by (simp add: length_concat_le)
  ultimately show ?thesis using get_le_bytes [of 4 "concat (map (le_bytes 4) (take j xs))" "xs ! j"] by simp
qed

text \<open>An inode that is stored in a block is read back, and the other inodes of the block are not
  affected.\<close>

lemma dinode_bytes_get:
  assumes "length (d_addrs x) = NDIRECT + 1"
  shows "get_dinode (dinode_bytes x) 0 = x"
proof -
  let ?b = "dinode_bytes x"
  let ?h = "le_bytes 2 (d_type x) @ le_bytes 2 (d_major x) @ le_bytes 2 (d_minor x) @ le_bytes 2 (d_nlink x) @ le_bytes 4 (d_size x)"
  have "get16 ?b 0 = d_type x" "get16 ?b 2 = d_major x" "get16 ?b 4 = d_minor x" "get16 ?b 6 = d_nlink x"
    "get32 ?b 8 = d_size x"
    using get_le_bytes [of 2 "[]" "d_type x"] get_le_bytes [of 2 "le_bytes 2 (d_type x)" "d_major x"]
      get_le_bytes [of 2 "le_bytes 2 (d_type x) @ le_bytes 2 (d_major x)" "d_minor x"]
      get_le_bytes [of 2 "le_bytes 2 (d_type x) @ le_bytes 2 (d_major x) @ le_bytes 2 (d_minor x)" "d_nlink x"]
      get_le_bytes [of 4 "le_bytes 2 (d_type x) @ le_bytes 2 (d_major x) @ le_bytes 2 (d_minor x) @ le_bytes 2 (d_nlink x)" "d_size x"]
    by (simp_all add: dinode_bytes_def)
  moreover have "get32 ?b (12 + 4 * j) = d_addrs x ! j" if "j < NDIRECT + 1" for j
  proof -
    have "take k (drop (12 + m) (?h @ zs)) = take k (drop m zs)" for k m zs by simp
    then have "get32 ?b (12 + 4 * j) = get32 (concat (map (le_bytes 4) (d_addrs x))) (4 * j)"
      by (simp add: get_le_def dinode_bytes_def)
    then show ?thesis using concat_le_nth [of j "d_addrs x"] assms that by simp
  qed
  then have "map (\<lambda>j. get32 ?b (12 + 4 * j)) [0..<NDIRECT + 1] = d_addrs x"
    using assms by (intro nth_equalityI) (simp_all del: upt_Suc)
  ultimately show ?thesis by (simp add: get_dinode_def numeral_2_eq_2)
qed

lemma get_dinode_at:
  assumes "64 * Suc i \<le> length d" "take 64 (drop (64 * i) d) = ys"
  shows "get_dinode d i = get_dinode ys 0"
proof -
  have at: "get_le k d (64 * i + j) = (get_le k ys j :: 'a::len word)" if "j + k \<le> 64" for j k
    using assms that by (intro get_le_at [where n = 64]) auto
  have "get32 d (64 * i + 12 + 4 * j) = get32 ys (12 + 4 * j)" if "j < NDIRECT + 1" for j
    using at [of "12 + 4 * j" 4] that by (simp add: fs_consts add.assoc)
  then have "map (\<lambda>j. get32 d (64 * i + 12 + 4 * j)) [0..<NDIRECT + 1] = map (\<lambda>j. get32 ys (12 + 4 * j)) [0..<NDIRECT + 1]"
    by (intro map_cong) auto
  then show ?thesis using at [of 0 2] at [of 2 2] at [of 4 2] at [of 6 2] at [of 8 4] by (simp add: get_dinode_def numeral_2_eq_2)
qed

lemma get_put_dinode:
  assumes "length d = BSIZE" "i < IPB" "j < IPB" "length (d_addrs x) = NDIRECT + 1"
  shows "get_dinode (put_dinode x i d) j = (if j = i then x else get_dinode d j)"
proof -
  have l: "length (dinode_bytes x) = 64" using assms(4) by (rule length_dinode_bytes)
  have b: "64 * Suc i \<le> length d" "64 * Suc j \<le> length d" "64 * i + 64 \<le> length d" using assms by (simp_all add: fs_consts)
  have lp: "length (put_dinode x i d) = length d" using l b by (simp add: put_dinode_def)
  show ?thesis
  proof (cases "j = i")
    case True
    have "take 64 (drop (64 * i) (put_dinode x i d)) = dinode_bytes x"
      using splice_field [of "64 * i" "dinode_bytes x" d] l b by (simp add: put_dinode_def)
    then show ?thesis using True get_dinode_at [of i "put_dinode x i d"] b lp dinode_bytes_get [OF assms(4)] by simp
  next
    case False
    then have "64 * j + 64 \<le> 64 * i \<or> 64 * i + 64 \<le> 64 * j" by linarith
    then have "take 64 (drop (64 * j) (put_dinode x i d)) = take 64 (drop (64 * j) d)"
      using l b by (simp add: put_dinode_def splice_other)
    then show ?thesis using False get_dinode_at [of j "put_dinode x i d"] get_dinode_at [of j d] b lp by simp
  qed
qed

lemma get_dirent_bytes:
  assumes "length (de_name de) = DIRSIZ"
  shows "get_dirent (dirent_bytes de) = de"
  using assms get_le_bytes [of 2 "[]" "de_inum de" "de_name de"] by (simp add: get_dirent_def dirent_bytes_def)

end
