(* ===== verification/Bio.thy ===== *)
theory Bio
  imports Sleeplock Ondisk
begin

text \<open>
  The buffer cache, \<^verbatim>\<open>kernel/bio.c\<close>: an array of \<open>NBUF\<close> buffers threaded on a circular doubly
  linked list in order of last use. Buffers are array indices and index \<open>NBUF\<close> is \<open>bcache.head\<close>.
  The first part is the code and the effect of its pointer surgery on the list (\<open>ring\<close>). The
  second part, \<open>block_cache\<close>, is the contract of the cache as its clients use it: blocks with a
  current content, a content on disk, a number of pins and a holder. \<open>bio_rel\<close> relates the two and the
  interpretation \<open>bc\<close> shows that the code keeps the contract.

  The disk is a map from block numbers to contents together with the sequence of the writes made to
  it. \<open>disk_rw\<close> is the contract of \<open>virtio_disk_rw\<close>: the transfer is complete on return.
\<close>

type_synonym block = "u8 list"

record buf =
  bvalid :: bool
  bdisk :: bool
  bdev :: u32
  blockno :: u32
  refcnt :: u32
  bprev :: nat
  bnext :: nat
  bdata :: block

record bstate = slstate +
  bufs :: "nat \<Rightarrow> buf"
  disk :: "u32 \<Rightarrow> block"
  dwrites :: "(u32 \<times> block) list"

definition head :: nat where "head = NBUF"

definition upd_buf :: "nat \<Rightarrow> (buf \<Rightarrow> buf) \<Rightarrow> 'a bstate_scheme \<Rightarrow> 'a bstate_scheme" where
  "upd_buf b f s = s\<lparr>bufs := (bufs s)(b := f (bufs s b))\<rparr>"

definition set_next :: "nat \<Rightarrow> nat \<Rightarrow> (nat \<Rightarrow> buf) \<Rightarrow> nat \<Rightarrow> buf" where
  "set_next b v bs = bs(b := (bs b)\<lparr>bnext := v\<rparr>)"

definition set_prev :: "nat \<Rightarrow> nat \<Rightarrow> (nat \<Rightarrow> buf) \<Rightarrow> nat \<Rightarrow> buf" where
  "set_prev b v bs = bs(b := (bs b)\<lparr>bprev := v\<rparr>)"

text \<open>The pointer assignments of \<open>binit\<close> and \<open>brelse\<close>: take \<open>b\<close> out of the list, put it in front.\<close>

definition unlink :: "nat \<Rightarrow> (nat \<Rightarrow> buf) \<Rightarrow> nat \<Rightarrow> buf" where
  "unlink b bs =
     (let bs1 = set_prev (bnext (bs b)) (bprev (bs b)) bs
      in set_next (bprev (bs1 b)) (bnext (bs1 b)) bs1)"

definition link_front :: "nat \<Rightarrow> (nat \<Rightarrow> buf) \<Rightarrow> nat \<Rightarrow> buf" where
  "link_front b bs =
     (let bs1 = set_next b (bnext (bs head)) bs;
          bs2 = set_prev b head bs1;
          bs3 = set_prev (bnext (bs2 head)) b bs2
      in set_next head b bs3)"

definition binit :: "'a bstate_scheme \<Rightarrow> 'a bstate_scheme" where
  "binit s =
     (let s1 = s\<lparr>mach := initlock BcacheLock ''bcache'' (mach s),
                 bufs := set_next head head (set_prev head head (bufs s))\<rparr>
      in fold (\<lambda>b s. initsleeplock (BufLk b) ''buffer'' (s\<lparr>bufs := link_front b (bufs s)\<rparr>)) [0..<NBUF] s1)"

text \<open>A loop over the list, forwards or backwards, that stops at the first buffer with a property;
  \<open>Endless\<close> when it has not come back to the head after the given number of buffers.\<close>

datatype scan_result = Found nat | NotFound | Endless

fun scan :: "(buf \<Rightarrow> nat) \<Rightarrow> (buf \<Rightarrow> bool) \<Rightarrow> (nat \<Rightarrow> buf) \<Rightarrow> nat \<Rightarrow> nat \<Rightarrow> scan_result" where
  "scan link P bs 0 b = (if b = head then NotFound else Endless)"
| "scan link P bs (Suc k) b =
     (if b = head then NotFound else if P (bs b) then Found b else scan link P bs k (link (bs b)))"

definition bget :: "u32 \<Rightarrow> u32 \<Rightarrow> 'a bstate_scheme \<Rightarrow> (nat \<times> 'a bstate_scheme) res" where
  "bget dev bno s = rbind (kacquire BcacheLock s) (\<lambda>s1.
     case scan bnext (\<lambda>b. bdev b = dev \<and> blockno b = bno) (bufs s1) NBUF (bnext (bufs s1 head)) of
       Found b \<Rightarrow>
         rbind (krelease BcacheLock (upd_buf b (\<lambda>x. x\<lparr>refcnt := refcnt x + 1\<rparr>) s1)) (\<lambda>s2.
         rbind (acquiresleep (BufLk b) s2) (\<lambda>s3. Ok (b, s3)))
     | Endless \<Rightarrow> Blocked
     | NotFound \<Rightarrow>
         (case scan bprev (\<lambda>b. refcnt b = 0) (bufs s1) NBUF (bprev (bufs s1 head)) of
            Found b \<Rightarrow>
              rbind (krelease BcacheLock
                (upd_buf b (\<lambda>x. x\<lparr>bdev := dev, blockno := bno, bvalid := False, refcnt := 1\<rparr>) s1)) (\<lambda>s2.
              rbind (acquiresleep (BufLk b) s2) (\<lambda>s3. Ok (b, s3)))
          | Endless \<Rightarrow> Blocked
          | NotFound \<Rightarrow> Panic ''bget: no buffers''))"

definition disk_rw :: "nat \<Rightarrow> bool \<Rightarrow> 'a bstate_scheme \<Rightarrow> 'a bstate_scheme" where
  "disk_rw b wr s =
     (let n = blockno (bufs s b) in
      if wr then s\<lparr>disk := (disk s)(n := bdata (bufs s b)), dwrites := dwrites s @ [(n, bdata (bufs s b))]\<rparr>
      else upd_buf b (\<lambda>x. x\<lparr>bdata := disk s n\<rparr>) s)"

definition bread :: "u32 \<Rightarrow> u32 \<Rightarrow> 'a bstate_scheme \<Rightarrow> (nat \<times> 'a bstate_scheme) res" where
  "bread dev bno s = rbind (bget dev bno s) (\<lambda>(b, s1).
     Ok (b, if bvalid (bufs s1 b) then s1
            else upd_buf b (\<lambda>x. x\<lparr>bvalid := True\<rparr>) (disk_rw b False s1)))"

definition bwrite :: "nat \<Rightarrow> 'a bstate_scheme \<Rightarrow> 'a bstate_scheme res" where
  "bwrite b s = rbind (holdingsleep (BufLk b) s) (\<lambda>(h, s1).
     if \<not> h then Panic ''bwrite'' else Ok (disk_rw b True s1))"

definition brelse :: "nat \<Rightarrow> 'a bstate_scheme \<Rightarrow> 'a bstate_scheme res" where
  "brelse b s = rbind (holdingsleep (BufLk b) s) (\<lambda>(h, s1).
     if \<not> h then Panic ''brelse''
     else rbind (releasesleep (BufLk b) s1) (\<lambda>s2.
       rbind (kacquire BcacheLock s2) (\<lambda>s3.
         let s4 = upd_buf b (\<lambda>x. x\<lparr>refcnt := refcnt x - 1\<rparr>) s3;
             s5 = (if refcnt (bufs s4 b) = 0
                   then s4\<lparr>bufs := link_front b (unlink b (bufs s4))\<rparr> else s4)
         in krelease BcacheLock s5)))"

definition bpin :: "nat \<Rightarrow> 'a bstate_scheme \<Rightarrow> 'a bstate_scheme res" where
  "bpin b s = rbind (kacquire BcacheLock s) (\<lambda>s1.
     krelease BcacheLock (upd_buf b (\<lambda>x. x\<lparr>refcnt := refcnt x + 1\<rparr>) s1))"

definition bunpin :: "nat \<Rightarrow> 'a bstate_scheme \<Rightarrow> 'a bstate_scheme res" where
  "bunpin b s = rbind (kacquire BcacheLock s) (\<lambda>s1.
     krelease BcacheLock (upd_buf b (\<lambda>x. x\<lparr>refcnt := refcnt x - 1\<rparr>) s1))"

text \<open>What callers do with \<open>b->data\<close>.\<close>

definition get_data :: "nat \<Rightarrow> 'a bstate_scheme \<Rightarrow> block" where
  "get_data b s = bdata (bufs s b)"

definition set_data :: "nat \<Rightarrow> block \<Rightarrow> 'a bstate_scheme \<Rightarrow> 'a bstate_scheme" where
  "set_data b d = upd_buf b (\<lambda>x. x\<lparr>bdata := d\<rparr>)"

section \<open>The list of buffers\<close>

text \<open>\<open>seg f a xs z\<close>: from \<open>a\<close> the links \<open>f\<close> lead through \<open>xs\<close> to \<open>z\<close>.\<close>

fun seg :: "(nat \<Rightarrow> nat) \<Rightarrow> nat \<Rightarrow> nat list \<Rightarrow> nat \<Rightarrow> bool" where
  "seg f a [] z = (f a = z)"
| "seg f a (x # xs) z = (f a = x \<and> seg f x xs z)"

definition ring :: "(nat \<Rightarrow> buf) \<Rightarrow> nat list \<Rightarrow> bool" where
  "ring bs xs \<longleftrightarrow> distinct (head # xs) \<and> seg (\<lambda>i. bnext (bs i)) head xs head \<and>
     seg (\<lambda>i. bprev (bs i)) head (rev xs) head"

lemma seg_append [simp]: "seg f a (xs @ y # ys) z \<longleftrightarrow> seg f a xs y \<and> seg f y ys z"
  by (induction xs arbitrary: a) auto

lemma seg_first: "seg f a xs z \<Longrightarrow> f a = hd (xs @ [z])"
  by (cases xs) auto

lemma seg_upd [simp]: "k \<notin> set (a # xs) \<Longrightarrow> seg (f(k := v)) a xs z = seg f a xs z"
  by (induction xs arbitrary: a) auto

lemma seg_upd_last: "distinct (a # xs) \<Longrightarrow> seg f a xs z \<Longrightarrow> seg (f(last (a # xs) := z')) a xs z'"
proof (induction xs arbitrary: a)
  case (Cons x xs)
  then have "a \<noteq> last (x # xs)" by (auto dest: last_in_set split: if_splits)
  with Cons show ?case by simp
qed simp

lemma seg_cut:
  assumes "distinct (a # xs @ b # ys)" and "seg f a (xs @ b # ys) z"
  shows "seg (f(last (a # xs) := hd (ys @ [z]))) a (xs @ ys) z"
proof -
  have l: "last (a # xs) \<in> set (a # xs)" by (rule last_in_set) simp
  have seg: "seg f a xs b" "seg f b ys z" using assms by simp_all
  show ?thesis
  proof (cases ys)
    case Nil
    then show ?thesis using assms seg_upd_last [of a xs f b z] seg by simp
  next
    case (Cons y ys')
    have "last (a # xs) \<notin> set (y # ys')" using l assms(1) Cons by auto
    then have "seg (f(last (a # xs) := y)) y ys' z" using seg Cons by simp
    moreover have "seg (f(last (a # xs) := y)) a xs y" using assms seg_upd_last [of a xs f b y] seg by simp
    ultimately show ?thesis using Cons by simp
  qed
qed

lemma links_upd [simp]:
  "(\<lambda>i. bnext (set_next b v bs i)) = (\<lambda>i. bnext (bs i))(b := v)"
  "(\<lambda>i. bprev (set_prev b v bs i)) = (\<lambda>i. bprev (bs i))(b := v)"
  "(\<lambda>i. bnext (set_prev b v bs i)) = (\<lambda>i. bnext (bs i))"
  "(\<lambda>i. bprev (set_next b v bs i)) = (\<lambda>i. bprev (bs i))"
  by (auto simp: set_next_def set_prev_def fun_eq_iff)

lemma set_links_at [simp]:
  "bnext (set_next b v bs i) = (if i = b then v else bnext (bs i))"
  "bprev (set_prev b v bs i) = (if i = b then v else bprev (bs i))"
  "bnext (set_prev b v bs i) = bnext (bs i)" "bprev (set_next b v bs i) = bprev (bs i)"
  by (simp_all add: set_next_def set_prev_def)

lemma ring_unlink:
  assumes "ring bs (xs @ b # ys)"
  shows "ring (unlink b bs) (xs @ ys)"
proof -
  have d: "distinct (head # xs @ b # ys)" using assms by (simp add: ring_def)
  have n: "bnext (bs b) = hd (ys @ [head])" and p: "bprev (bs b) = hd (rev xs @ [head])"
    using assms by (auto simp: ring_def dest: seg_first)
  have l: "hd (rev xs @ [head]) = last (head # xs)" "hd (ys @ [head]) = last (head # rev ys)"
    by (simp_all add: hd_append hd_rev last_rev)
  have nb: "hd (ys @ [head]) \<noteq> b" using d by (cases ys) auto
  have "seg ((\<lambda>i. bnext (bs i))(last (head # xs) := hd (ys @ [head]))) head (xs @ ys) head"
    using assms by (intro seg_cut [of _ _ b]) (simp_all add: ring_def)
  moreover have "seg ((\<lambda>i. bprev (bs i))(last (head # rev ys) := hd (rev xs @ [head]))) head (rev ys @ rev xs) head"
    using assms by (intro seg_cut [of _ _ b]) (auto simp: ring_def)
  ultimately show ?thesis
    using d nb by (auto simp: ring_def unlink_def Let_def n p l fun_upd_def simp del: last.simps cong: if_cong)
qed

lemma ring_link_front:
  assumes "ring bs xs" "b \<notin> set xs" "b \<noteq> head"
  shows "ring (link_front b bs) (b # xs)"
proof -
  let ?n = "\<lambda>i. bnext (bs i)" and ?p = "\<lambda>i. bprev (bs i)"
  have n: "bnext (bs head) = hd (xs @ [head])" using assms by (auto simp: ring_def dest: seg_first)
  have nb: "hd (xs @ [head]) \<noteq> b" using assms by (cases xs) auto
  have nx: "seg (?n(b := hd (xs @ [head]))) b xs head"
  proof (cases xs)
    case (Cons x ys)
    then show ?thesis using assms by (auto simp: ring_def)
  qed simp
  then have "seg (?n(b := hd (xs @ [head]), head := b)) head (b # xs) head"
    using assms by (auto simp: ring_def)
  moreover have "seg (?p(b := head, hd (xs @ [head]) := b)) head (rev xs @ [b]) head"
  proof -
    have l: "hd (xs @ [head]) = last (head # rev xs)" by (simp add: hd_append last_rev)
    have "seg (?p(b := head)) head (rev xs) head" using assms by (simp add: ring_def)
    then have "seg (?p(b := head, hd (xs @ [head]) := b)) head (rev xs) b"
      unfolding l using assms by (intro seg_upd_last) (auto simp: ring_def)
    then show ?thesis using nb by simp
  qed
  ultimately show ?thesis
    using assms nb by (auto simp: ring_def link_front_def Let_def n fun_upd_def cong: if_cong)
qed

lemma ring_move_front:
  assumes "ring bs (xs @ b # ys)"
  shows "ring (link_front b (unlink b bs)) (b # xs @ ys)"
  using assms by (intro ring_link_front ring_unlink) (auto simp: ring_def)

text \<open>A loop over the list sees the buffers in order and ends.\<close>

lemma scan_seg:
  assumes "seg (\<lambda>i. link (bs i)) a xs head" "head \<notin> set xs" "length xs \<le> k"
  shows "scan link P bs k (link (bs a)) =
    (case List.find (\<lambda>i. P (bs i)) xs of Some b \<Rightarrow> Found b | None \<Rightarrow> NotFound)"
  using assms
proof (induction xs arbitrary: a k)
  case Nil
  then show ?case by (cases k) auto
next
  case (Cons x xs)
  then obtain k' where k: "k = Suc k'" by (cases k) auto
  show ?case
    using Cons.prems Cons.IH [of x k'] by (auto simp: k)
qed

lemma scan_next:
  "ring bs xs \<Longrightarrow> length xs \<le> k \<Longrightarrow> scan bnext P bs k (bnext (bs head)) =
    (case List.find (\<lambda>i. P (bs i)) xs of Some b \<Rightarrow> Found b | None \<Rightarrow> NotFound)"
  by (rule scan_seg) (auto simp: ring_def)

lemma scan_prev:
  "ring bs xs \<Longrightarrow> length xs \<le> k \<Longrightarrow> scan bprev P bs k (bprev (bs head)) =
    (case List.find (\<lambda>i. P (bs i)) (rev xs) of Some b \<Rightarrow> Found b | None \<Rightarrow> NotFound)"
  by (rule scan_seg) (auto simp: ring_def)

text \<open>Pointer surgery leaves the rest of every buffer alone, and the other way round.\<close>

lemma set_links_data [simp]:
  "bvalid (set_next b v bs i) = bvalid (bs i)" "bvalid (set_prev b v bs i) = bvalid (bs i)"
  "bdev (set_next b v bs i) = bdev (bs i)" "bdev (set_prev b v bs i) = bdev (bs i)"
  "blockno (set_next b v bs i) = blockno (bs i)" "blockno (set_prev b v bs i) = blockno (bs i)"
  "refcnt (set_next b v bs i) = refcnt (bs i)" "refcnt (set_prev b v bs i) = refcnt (bs i)"
  "bdata (set_next b v bs i) = bdata (bs i)" "bdata (set_prev b v bs i) = bdata (bs i)"
  by (simp_all add: set_next_def set_prev_def)

lemma relink_data [simp]:
  "bvalid (link_front b bs i) = bvalid (bs i)" "bvalid (unlink b bs i) = bvalid (bs i)"
  "bdev (link_front b bs i) = bdev (bs i)" "bdev (unlink b bs i) = bdev (bs i)"
  "blockno (link_front b bs i) = blockno (bs i)" "blockno (unlink b bs i) = blockno (bs i)"
  "refcnt (link_front b bs i) = refcnt (bs i)" "refcnt (unlink b bs i) = refcnt (bs i)"
  "bdata (link_front b bs i) = bdata (bs i)" "bdata (unlink b bs i) = bdata (bs i)"
  by (simp_all add: link_front_def unlink_def Let_def)

lemma ring_cong:
  assumes "\<And>i. bnext (bs i) = bnext (bs' i)" "\<And>i. bprev (bs i) = bprev (bs' i)"
  shows "ring bs xs = ring bs' xs"
  by (simp add: ring_def assms)

section \<open>The contract of the cache\<close>

text \<open>What clients see: the current content of every block, what the disk holds, the writes made so
  far, how often a block is pinned, and which buffers the caller holds for which block.\<close>

record cache =
  view :: "u32 \<Rightarrow> block"
  cdisk :: "u32 \<Rightarrow> block"
  cwrites :: "(u32 \<times> block) list"
  pins :: "u32 \<Rightarrow> nat"
  holds :: "nat \<Rightarrow> u32 option"

text \<open>The blocks that must stay in the cache. There is room for \<open>n\<close> while these and \<open>n\<close> fit.\<close>

definition active :: "cache \<Rightarrow> u32 set" where
  "active c = {n. 0 < pins c n} \<union> ran (holds c)"

definition room :: "cache \<Rightarrow> u32 \<Rightarrow> bool" where
  "room c n \<longleftrightarrow> card (insert n (active c)) \<le> NBUF"

locale block_cache =
  fixes rel :: "'s \<Rightarrow> cache \<Rightarrow> bool"
    and rd :: "u32 \<Rightarrow> 's \<Rightarrow> (nat \<times> 's) res"
    and wr :: "nat \<Rightarrow> 's \<Rightarrow> 's res"
    and rls :: "nat \<Rightarrow> 's \<Rightarrow> 's res"
    and pin :: "nat \<Rightarrow> 's \<Rightarrow> 's res"
    and unpin :: "nat \<Rightarrow> 's \<Rightarrow> 's res"
    and get :: "nat \<Rightarrow> 's \<Rightarrow> block"
    and put :: "nat \<Rightarrow> block \<Rightarrow> 's \<Rightarrow> 's"
  assumes rd_ok: "rel s c \<Longrightarrow> n \<notin> ran (holds c) \<Longrightarrow> room c n \<Longrightarrow>
      \<exists>b s'. rd n s = Ok (b, s') \<and> holds c b = None \<and> rel s' (c\<lparr>holds := (holds c)(b \<mapsto> n)\<rparr>)"
    and get_ok: "rel s c \<Longrightarrow> holds c b = Some n \<Longrightarrow> get b s = view c n"
    and put_ok: "rel s c \<Longrightarrow> holds c b = Some n \<Longrightarrow> rel (put b d s) (c\<lparr>view := (view c)(n := d)\<rparr>)"
    and wr_ok: "rel s c \<Longrightarrow> holds c b = Some n \<Longrightarrow> \<exists>s'. wr b s = Ok s' \<and>
      rel s' (c\<lparr>cdisk := (cdisk c)(n := view c n), cwrites := cwrites c @ [(n, view c n)]\<rparr>)"
    and rls_ok: "rel s c \<Longrightarrow> holds c b = Some n \<Longrightarrow> pins c n = 0 \<longrightarrow> view c n = cdisk c n \<Longrightarrow>
      \<exists>s'. rls b s = Ok s' \<and> rel s' (c\<lparr>holds := (holds c)(b := None)\<rparr>)"
    and pin_ok: "rel s c \<Longrightarrow> holds c b = Some n \<Longrightarrow> Suc (pins c n) < 2 ^ 31 \<Longrightarrow>
      \<exists>s'. pin b s = Ok s' \<and> rel s' (c\<lparr>pins := (pins c)(n := Suc (pins c n))\<rparr>)"
    and unpin_ok: "rel s c \<Longrightarrow> holds c b = Some n \<Longrightarrow> 0 < pins c n \<Longrightarrow>
      \<exists>s'. unpin b s = Ok s' \<and> rel s' (c\<lparr>pins := (pins c)(n := pins c n - 1)\<rparr>)"
begin

text \<open>Reading a block, using its content and releasing it changes nothing.\<close>

lemma rd_rls:
  assumes "rel s c" "n \<notin> ran (holds c)" "room c n" "pins c n = 0 \<longrightarrow> view c n = cdisk c n"
  shows "\<exists>b s1 s2. rd n s = Ok (b, s1) \<and> get b s1 = view c n \<and> rls b s1 = Ok s2 \<and> rel s2 c"
proof -
  obtain b s1 where b: "rd n s = Ok (b, s1)" "holds c b = None" "rel s1 (c\<lparr>holds := (holds c)(b \<mapsto> n)\<rparr>)"
    using rd_ok [OF assms(1-3)] by blast
  have g: "get b s1 = view c n" using get_ok [OF b(3), of b n] by simp
  have "(holds c)(b := None) = holds c" using b(2) by auto
  then have "\<exists>s2. rls b s1 = Ok s2 \<and> rel s2 c"
    using rls_ok [OF b(3), of b n] assms(4) by simp
  then show ?thesis using b g by blast
qed

text \<open>Replacing the content of a block through to the disk.\<close>

lemma rd_put_wr_rls:
  assumes "rel s c" "n \<notin> ran (holds c)" "room c n"
  shows "\<exists>b s1 s2 s3. rd n s = Ok (b, s1) \<and> get b s1 = view c n \<and> wr b (put b d s1) = Ok s2 \<and>
    rls b s2 = Ok s3 \<and> rel s1 (c\<lparr>holds := (holds c)(b \<mapsto> n)\<rparr>) \<and>
    rel s3 (c\<lparr>view := (view c)(n := d), cdisk := (cdisk c)(n := d), cwrites := cwrites c @ [(n, d)]\<rparr>)"
proof -
  obtain b s1 where b: "rd n s = Ok (b, s1)" "holds c b = None" "rel s1 (c\<lparr>holds := (holds c)(b \<mapsto> n)\<rparr>)"
    using rd_ok [OF assms(1-3)] by blast
  have g: "get b s1 = view c n" using get_ok [OF b(3), of b n] by simp
  have p: "rel (put b d s1) (c\<lparr>holds := (holds c)(b \<mapsto> n), view := (view c)(n := d)\<rparr>)"
    using put_ok [OF b(3), of b n d] by simp
  obtain s2 where s2: "wr b (put b d s1) = Ok s2" "rel s2 (c\<lparr>holds := (holds c)(b \<mapsto> n), view := (view c)(n := d),
      cdisk := (cdisk c)(n := d), cwrites := cwrites c @ [(n, d)]\<rparr>)"
    using wr_ok [OF p, of b n] by auto
  have "(holds c)(b := None) = holds c" using b(2) by auto
  then have "\<exists>s3. rls b s2 = Ok s3 \<and>
      rel s3 (c\<lparr>view := (view c)(n := d), cdisk := (cdisk c)(n := d), cwrites := cwrites c @ [(n, d)]\<rparr>)"
    using rls_ok [OF s2(2), of b n] by simp
  then show ?thesis using b g s2 by blast
qed

text \<open>Holding two blocks at once, and copying one to the other through to the disk.\<close>

lemma rd_rd:
  assumes "rel s c" "a \<noteq> n" "a \<notin> ran (holds c)" "n \<notin> ran (holds c)" "card (insert a (insert n (active c))) \<le> NBUF"
  shows "\<exists>x y s1 s2. rd a s = Ok (x, s1) \<and> rd n s1 = Ok (y, s2) \<and> x \<noteq> y \<and> holds c x = None \<and> holds c y = None \<and>
    get x s2 = view c a \<and> get y s2 = view c n \<and> rel s1 (c\<lparr>holds := (holds c)(x \<mapsto> a)\<rparr>) \<and>
    rel s2 (c\<lparr>holds := (holds c)(x \<mapsto> a, y \<mapsto> n)\<rparr>)"
proof -
  have "room c a" using assms(5) card_mono [of "insert a (insert n (active c))" "insert a (active c)"]
    by (simp add: room_def) (meson finite le_trans subset_insertI2 subset_insertI insert_mono)
  then obtain x s1 where x: "rd a s = Ok (x, s1)" "holds c x = None" "rel s1 (c\<lparr>holds := (holds c)(x \<mapsto> a)\<rparr>)"
    using rd_ok [OF assms(1,3)] by blast
  have "active (c\<lparr>holds := (holds c)(x \<mapsto> a)\<rparr>) = insert a (active c)" using x(2) by (auto simp: active_def)
  then have r: "room (c\<lparr>holds := (holds c)(x \<mapsto> a)\<rparr>) n" using assms(5) by (simp add: room_def insert_commute)
  have "n \<notin> ran (holds (c\<lparr>holds := (holds c)(x \<mapsto> a)\<rparr>))" using assms(2,4) x(2) by simp
  then obtain y s2 where y: "rd n s1 = Ok (y, s2)" "((holds c)(x \<mapsto> a)) y = None"
      "rel s2 (c\<lparr>holds := (holds c)(x \<mapsto> a, y \<mapsto> n)\<rparr>)"
    using rd_ok [OF x(3) _ r] by auto
  then have "x \<noteq> y" by auto
  then show ?thesis
    using x y get_ok [OF y(3), of x a] get_ok [OF y(3), of y n] by (auto split: if_splits)
qed

lemma rls_rls:
  assumes "rel s (c\<lparr>holds := (holds c)(x \<mapsto> a, y \<mapsto> n)\<rparr>)" "x \<noteq> y" "holds c x = None" "holds c y = None"
    "pins c a = 0 \<longrightarrow> view c a = cdisk c a" "pins c n = 0 \<longrightarrow> view c n = cdisk c n"
  shows "\<exists>s1 s2. rls x s = Ok s1 \<and> rls y s1 = Ok s2 \<and> rel s2 c" "\<exists>s1 s2. rls y s = Ok s1 \<and> rls x s1 = Ok s2 \<and> rel s2 c"
proof -
  obtain s1 where s1: "rls x s = Ok s1" "rel s1 (c\<lparr>holds := (holds c)(x \<mapsto> a, y \<mapsto> n, x := None)\<rparr>)"
    using rls_ok [OF assms(1), of x a] assms(2,5) by auto
  have "((holds c)(x \<mapsto> a, y \<mapsto> n, x := None, y := None)) = holds c" using assms(3,4) by auto
  then show "\<exists>s1 s2. rls x s = Ok s1 \<and> rls y s1 = Ok s2 \<and> rel s2 c"
    using s1 rls_ok [OF s1(2), of y n] assms(2,6) by auto
  obtain s1 where s1: "rls y s = Ok s1" "rel s1 (c\<lparr>holds := (holds c)(x \<mapsto> a, y \<mapsto> n, y := None)\<rparr>)"
    using rls_ok [OF assms(1), of y n] assms(6) by auto
  have "((holds c)(x \<mapsto> a, y \<mapsto> n, y := None, x := None)) = holds c" using assms(3,4) by auto
  then show "\<exists>s1 s2. rls y s = Ok s1 \<and> rls x s1 = Ok s2 \<and> rel s2 c"
    using s1 rls_ok [OF s1(2), of x a] assms(2,5) by auto
qed

lemma put_wr:
  assumes "rel s c" "holds c b = Some n"
  shows "\<exists>s'. wr b (put b d s) = Ok s' \<and>
    rel s' (c\<lparr>view := (view c)(n := d), cdisk := (cdisk c)(n := d), cwrites := cwrites c @ [(n, d)]\<rparr>)"
  using put_ok [OF assms, of d] wr_ok [of "put b d s" "c\<lparr>view := (view c)(n := d)\<rparr>" b n] assms(2) by auto

end

section \<open>The code keeps the contract\<close>

definition caches :: "u32 \<Rightarrow> (nat \<Rightarrow> buf) \<Rightarrow> nat \<Rightarrow> u32 \<Rightarrow> bool" where
  "caches d bs b n \<longleftrightarrow> b < NBUF \<and> bdev (bs b) = d \<and> blockno (bs b) = n"

text \<open>One buffer: unused since boot, or caching a block of the disk with the right content and count.
  The buffer's sleep lock is taken exactly when the caller holds the buffer.\<close>

definition buf_ok :: "u32 \<Rightarrow> int \<Rightarrow> cache \<Rightarrow> nat \<Rightarrow> buf \<Rightarrow> sleeplock \<Rightarrow> bool" where
  "buf_ok d me c b x l \<longleftrightarrow>
     (if bdev x = d then bvalid x \<and> bdata x = view c (blockno x) \<and>
        refcnt x = of_nat (pins c (blockno x) + (if holds c b = None then 0 else 1))
      else bdev x = 0 \<and> refcnt x = 0) \<and>
     (case holds c b of None \<Rightarrow> \<not> slocked l
      | Some n \<Rightarrow> bdev x = d \<and> blockno x = n \<and> slocked l \<and> slpid l = me)"

definition cache_ok :: "u32 \<Rightarrow> int \<Rightarrow> (nat \<Rightarrow> buf) \<Rightarrow> (lock \<Rightarrow> sleeplock) \<Rightarrow> cache \<Rightarrow> bool" where
  "cache_ok d me bs sl c \<longleftrightarrow> d \<noteq> 0 \<and> dom (holds c) \<subseteq> {0..<NBUF} \<and>
     (\<forall>b < NBUF. buf_ok d me c b (bs b) (sl (BufLk b))) \<and>
     (\<forall>b b' n. caches d bs b n \<and> caches d bs b' n \<longrightarrow> b = b') \<and>
     (\<forall>n. pins c n < 2 ^ 31 \<and> (0 < pins c n \<longrightarrow> (\<exists>b. caches d bs b n))) \<and>
     (\<forall>n. n \<notin> active c \<longrightarrow> view c n = cdisk c n)"

definition bio_env :: "'a bstate_scheme \<Rightarrow> bool" where
  "bio_env s \<longleftrightarrow> proc_locks_ok s \<and> myproc s \<noteq> None \<and> lock_free BcacheLock (mach s) \<and>
     (\<forall>b. lock_free (BufLk b) (mach s)) \<and> (\<exists>xs. ring (bufs s) xs \<and> set xs = {0..<NBUF})"

definition bio_rel :: "u32 \<Rightarrow> 'a bstate_scheme \<Rightarrow> cache \<Rightarrow> bool" where
  "bio_rel d s c \<longleftrightarrow> bio_env s \<and> disk s = cdisk c \<and> dwrites s = cwrites c \<and>
     cache_ok d (my_pid s) (bufs s) (slocks s) c"

lemma buf_ok_relink [simp]:
  "buf_ok d me c b (link_front b' bs i) l = buf_ok d me c b (bs i) l"
  "buf_ok d me c b (unlink b' bs i) l = buf_ok d me c b (bs i) l"
  unfolding buf_ok_def relink_data by (rule refl)+

lemma caches_relink [simp]:
  "caches d (link_front b' bs) = caches d bs" "caches d (unlink b' bs) = caches d bs"
  by (simp_all add: caches_def fun_eq_iff)

lemma cache_ok_relink [simp]:
  "cache_ok d me (link_front b bs) sl c = cache_ok d me bs sl c"
  "cache_ok d me (unlink b bs) sl c = cache_ok d me bs sl c"
  by (simp_all add: cache_ok_def)

lemma cache_okD:
  assumes "cache_ok d me bs sl c"
  shows "d \<noteq> 0" "dom (holds c) \<subseteq> {0..<NBUF}" "b < NBUF \<Longrightarrow> buf_ok d me c b (bs b) (sl (BufLk b))"
    "caches d bs b n \<Longrightarrow> caches d bs b' n \<Longrightarrow> b = b'" "pins c n < 2 ^ 31"
    "0 < pins c n \<Longrightarrow> \<exists>b. caches d bs b n" "n \<notin> active c \<Longrightarrow> view c n = cdisk c n"
  using assms unfolding cache_ok_def by (simp_all, blast)

lemma cache_okI:
  assumes "d \<noteq> 0" "dom (holds c) \<subseteq> {0..<NBUF}" "\<And>b. b < NBUF \<Longrightarrow> buf_ok d me c b (bs b) (sl (BufLk b))"
    "\<And>b b' n. caches d bs b n \<Longrightarrow> caches d bs b' n \<Longrightarrow> b = b'" "\<And>n. pins c n < 2 ^ 31"
    "\<And>n. 0 < pins c n \<Longrightarrow> \<exists>b. caches d bs b n" "\<And>n. n \<notin> active c \<Longrightarrow> view c n = cdisk c n"
  shows "cache_ok d me bs sl c"
  using assms unfolding cache_ok_def by blast

lemma holds_caches: "cache_ok d me bs sl c \<Longrightarrow> holds c b = Some n \<Longrightarrow> caches d bs b n"
  using cache_okD(2) [of d me bs sl c] cache_okD(3) [of d me bs sl c b] by (auto simp: buf_ok_def caches_def)

lemma active_cached: "cache_ok d me bs sl c \<Longrightarrow> n \<in> active c \<Longrightarrow> \<exists>b. caches d bs b n"
  by (auto simp: active_def ran_def dest: cache_okD(6) holds_caches)

lemma refcnt_word: "k < 2 ^ 31 \<Longrightarrow> j \<le> 1 \<Longrightarrow> (of_nat (k + j) = (0 :: u32)) = (k + j = 0)"
  using word_of_nat_eq_0_iff [of "k + j", where ?'a = 32] dvd_imp_le [of 4294967296 "k + j"]
  by (cases "k + j = 0") (auto simp del: of_nat_add)

lemma unused_iff:
  assumes "cache_ok d me bs sl c" "b < NBUF"
  shows "refcnt (bs b) = 0 \<longleftrightarrow> bdev (bs b) \<noteq> d \<or> pins c (blockno (bs b)) = 0 \<and> holds c b = None"
  using cache_okD(3) [OF assms] cache_okD(5) [OF assms(1), of "blockno (bs b)"]
    refcnt_word [of "pins c (blockno (bs b))" "if holds c b = None then 0 else 1"]
  by (auto simp: buf_ok_def split: if_splits)

text \<open>A buffer is free whenever there is room for a block that is not cached.\<close>

lemma free_buffer:
  assumes c: "cache_ok d me bs sl c" and n: "\<And>b. \<not> caches d bs b n" and r: "room c n"
  shows "\<exists>b < NBUF. refcnt (bs b) = 0"
proof (rule ccontr)
  assume "\<not> ?thesis"
  then have used: "bdev (bs b) = d \<and> (0 < pins c (blockno (bs b)) \<or> holds c b \<noteq> None)" if "b < NBUF" for b
    using that unused_iff [OF c, of b] by auto
  have "inj_on (\<lambda>b. blockno (bs b)) {0..<NBUF}"
  proof (rule inj_onI)
    fix b b' assume "b \<in> {0..<NBUF}" "b' \<in> {0..<NBUF}" "blockno (bs b) = blockno (bs b')"
    then show "b = b'" using used [of b] used [of b'] cache_okD(4) [OF c, of b "blockno (bs b)" b'] by (simp add: caches_def)
  qed
  then have card: "card ((\<lambda>b. blockno (bs b)) ` {0..<NBUF}) = NBUF" by (simp add: card_image)
  have "blockno (bs b) \<in> active c" if "b < NBUF" for b
    using used [OF that] holds_caches [OF c, of b] by (auto simp: active_def caches_def ran_def)
  then have "(\<lambda>b. blockno (bs b)) ` {0..<NBUF} \<subseteq> active c" by auto
  moreover have "n \<notin> active c" using active_cached [OF c, of n] n by auto
  ultimately have "Suc NBUF \<le> card (insert n (active c))"
    using card_mono [of "active c" "(\<lambda>b. blockno (bs b)) ` {0..<NBUF}"] card by simp
  then show False using r by (simp add: room_def)
qed

section \<open>Effects on the cache\<close>

lemma cache_hit:
  assumes c: "cache_ok d me bs sl c" and b: "caches d bs b n" and n: "n \<notin> ran (holds c)"
  shows "cache_ok d me (bs(b := (bs b)\<lparr>refcnt := refcnt (bs b) + 1\<rparr>))
    (sl(BufLk b := (sl (BufLk b))\<lparr>slocked := True, slpid := me\<rparr>)) (c\<lparr>holds := (holds c)(b \<mapsto> n)\<rparr>)"
    and "holds c b = None"
proof -
  show h: "holds c b = None" using n holds_caches [OF c, of b] b by (cases "holds c b") (auto simp: caches_def ran_def)
  have a: "active (c\<lparr>holds := (holds c)(b \<mapsto> n)\<rparr>) = insert n (active c)"
    using h by (auto simp: active_def)
  have bb: "b < NBUF" "bdev (bs b) = d" "blockno (bs b) = n" using b by (auto simp: caches_def)
  have "buf_ok d me (c\<lparr>holds := (holds c)(b \<mapsto> n)\<rparr>) b' ((bs(b := (bs b)\<lparr>refcnt := refcnt (bs b) + 1\<rparr>)) b')
      ((sl(BufLk b := (sl (BufLk b))\<lparr>slocked := True, slpid := me\<rparr>)) (BufLk b'))" if "b' < NBUF" for b'
    using cache_okD(3) [OF c that] h bb by (auto simp: buf_ok_def)
  moreover have "caches d (bs(b := (bs b)\<lparr>refcnt := refcnt (bs b) + 1\<rparr>)) b' m = caches d bs b' m" for b' m
    by (simp add: caches_def)
  ultimately show "cache_ok d me (bs(b := (bs b)\<lparr>refcnt := refcnt (bs b) + 1\<rparr>))
    (sl(BufLk b := (sl (BufLk b))\<lparr>slocked := True, slpid := me\<rparr>)) (c\<lparr>holds := (holds c)(b \<mapsto> n)\<rparr>)"
    using c bb by (simp add: cache_ok_def a)
qed

lemma cache_miss:
  assumes c: "cache_ok d me bs sl c" and b: "b < NBUF" "refcnt (bs b) = 0" and n: "\<And>b. \<not> caches d bs b n"
  shows "cache_ok d me (bs(b := (bs b)\<lparr>bdev := d, blockno := n, refcnt := 1, bdata := cdisk c n, bvalid := True\<rparr>))
    (sl(BufLk b := (sl (BufLk b))\<lparr>slocked := True, slpid := me\<rparr>)) (c\<lparr>holds := (holds c)(b \<mapsto> n)\<rparr>)"
      (is "cache_ok d me ?bs ?sl ?c")
    and "holds c b = None"
proof -
  have na: "n \<notin> active c" using n active_cached [OF c] by auto
  then have v: "view c n = cdisk c n" "pins c n = 0" using cache_okD(7) [OF c, of n] by (auto simp: active_def)
  show h: "holds c b = None"
    using unused_iff [OF c b(1)] b(2) holds_caches [OF c, of b] by (cases "holds c b") (auto simp: caches_def)
  have a: "active ?c = insert n (active c)" using h by (auto simp: active_def)
  have ca: "caches d ?bs b' m \<longleftrightarrow> (if b' = b then m = n else caches d bs b' m)" for b' m
    using b(1) by (auto simp: caches_def)
  have "buf_ok d me ?c b' (?bs b') (?sl (BufLk b'))" if "b' < NBUF" for b'
    using cache_okD(3) [OF c that] h v by (auto simp: buf_ok_def)
  moreover have "\<exists>b'. caches d ?bs b' m" if m: "0 < pins c m" for m
  proof -
    obtain b' where b': "caches d bs b' m" using cache_okD(6) [OF c m] by blast
    have "b' \<noteq> b" using unused_iff [OF c b(1)] b(2) m b' by (auto simp: caches_def)
    then show ?thesis using b' ca [of b' m] by auto
  qed
  moreover have "x = y" if "caches d ?bs x m" "caches d ?bs y m" for x y m
    using that cache_okD(4) [OF c, of x m y] n ca [of x m] ca [of y m] by (auto split: if_splits)
  ultimately show "cache_ok d me ?bs ?sl ?c"
    using c b(1) cache_okD(2) [OF c] by (intro cache_okI) (auto simp: a dest: cache_okD)
qed

text \<open>Changing one buffer that keeps its block: only that buffer's own condition is new.\<close>

lemma cache_ok_upd:
  assumes c: "cache_ok d me bs sl c" and b: "holds c b = Some n"
    and x: "bdev x = d" "blockno x = n" "buf_ok d me c' b x l"
    and l: "\<And>b'. b' \<noteq> b \<Longrightarrow> sl' (BufLk b') = sl (BufLk b')" "sl' (BufLk b) = l"
    and c': "\<And>b'. b' \<noteq> b \<Longrightarrow> holds c' b' = holds c b'" "\<And>m. m \<noteq> n \<Longrightarrow> view c' m = view c m"
      "\<And>m. m \<noteq> n \<Longrightarrow> pins c' m = pins c m" "pins c' n < 2 ^ 31"
      "\<And>m. m \<notin> active c' \<Longrightarrow> view c' m = cdisk c' m"
  shows "cache_ok d me (bs(b := x)) sl' c'"
proof -
  have b0: "b < NBUF" "bdev (bs b) = d" "blockno (bs b) = n" using holds_caches [OF c b] by (auto simp: caches_def)
  have ca: "caches d (bs(b := x)) = caches d bs" using b0 x by (auto simp: caches_def fun_eq_iff)
  have "buf_ok d me c' b' ((bs(b := x)) b') (sl' (BufLk b'))" if b': "b' < NBUF" for b'
  proof (cases "b' = b")
    case True
    then show ?thesis using x l by simp
  next
    case False
    then have "bdev (bs b') = d \<longrightarrow> blockno (bs b') \<noteq> n"
      using cache_okD(4) [OF c, of b n b'] b0 b' by (auto simp: caches_def)
    then show ?thesis using cache_okD(3) [OF c b'] False l c' by (simp add: buf_ok_def)
  qed
  moreover have "\<exists>b'. caches d bs b' m" if "0 < pins c' m" for m
    using that cache_okD(6) [OF c, of m] holds_caches [OF c b] c'(3) [of m] by (cases "m = n") auto
  moreover have "pins c' m < 2 ^ 31" for m using c' cache_okD(5) [OF c, of m] by (cases "m = n") auto
  moreover have "dom (holds c') \<subseteq> {0..<NBUF}" using cache_okD(2) [OF c] c'(1) b0(1) by (force simp: dom_def)
  ultimately show ?thesis
    using cache_okD(1) [OF c] c'(5) cache_okD(4) [OF c] by (intro cache_okI) (simp_all add: ca)
qed

lemma held_buf:
  assumes "cache_ok d me bs sl c" "holds c b = Some n"
  shows "b < NBUF" "bdev (bs b) = d" "blockno (bs b) = n" "bvalid (bs b)" "bdata (bs b) = view c n"
    "refcnt (bs b) = of_nat (Suc (pins c n))" "slocked (sl (BufLk b))" "slpid (sl (BufLk b)) = me"
  using holds_caches [OF assms] cache_okD(3) [OF assms(1), of b] assms(2)
  by (auto simp: caches_def buf_ok_def)

lemma holds_inj:
  assumes "cache_ok d me bs sl c" "holds c b = Some n" "holds c b' = Some n"
  shows "b = b'"
  using assms cache_okD(4) [OF assms(1), of b n b'] by (simp add: holds_caches)

lemma active_held: "holds c b = Some n \<Longrightarrow> n \<in> active c"
  by (auto simp: active_def ran_def)

lemma cache_put:
  assumes c: "cache_ok d me bs sl c" and b: "holds c b = Some n"
  shows "cache_ok d me (bs(b := (bs b)\<lparr>bdata := x\<rparr>)) sl (c\<lparr>view := (view c)(n := x)\<rparr>)"
proof (rule cache_ok_upd [OF c b])
  show "m \<notin> active (c\<lparr>view := (view c)(n := x)\<rparr>) \<Longrightarrow>
      view (c\<lparr>view := (view c)(n := x)\<rparr>) m = cdisk (c\<lparr>view := (view c)(n := x)\<rparr>) m" for m
    using cache_okD(7) [OF c, of m] active_held [OF b] by (auto simp: active_def)
qed (use held_buf [OF c b] b cache_okD(5) [OF c] in \<open>simp_all add: buf_ok_def\<close>)

lemma buf_ok_cong:
  "holds c = holds c' \<Longrightarrow> view c = view c' \<Longrightarrow> pins c = pins c' \<Longrightarrow> buf_ok d me c b x l = buf_ok d me c' b x l"
  by (simp add: buf_ok_def)

lemma cache_wr:
  assumes c: "cache_ok d me bs sl c" and b: "holds c b = Some n"
  shows "cache_ok d me bs sl (c\<lparr>cdisk := (cdisk c)(n := view c n), cwrites := w\<rparr>)"
proof -
  have a: "active (c\<lparr>cdisk := (cdisk c)(n := view c n), cwrites := w\<rparr>) = active c" by (simp add: active_def)
  have "buf_ok d me (c\<lparr>cdisk := (cdisk c)(n := view c n), cwrites := w\<rparr>) = buf_ok d me c"
    by (intro ext buf_ok_cong) simp_all
  then show ?thesis using c held_buf [OF c b] active_held [OF b] by (simp add: cache_ok_def a)
qed

lemma cache_count:
  assumes c: "cache_ok d me bs sl c" and b: "holds c b = Some n" and k: "k < 2 ^ 31"
  shows "cache_ok d me (bs(b := (bs b)\<lparr>refcnt := of_nat (Suc k)\<rparr>)) sl (c\<lparr>pins := (pins c)(n := k)\<rparr>)"
proof (rule cache_ok_upd [OF c b])
  have "active (c\<lparr>pins := (pins c)(n := k)\<rparr>) = active c"
    using b by (auto simp: active_def ran_def split: if_splits)
  then show "m \<notin> active (c\<lparr>pins := (pins c)(n := k)\<rparr>) \<Longrightarrow>
      view (c\<lparr>pins := (pins c)(n := k)\<rparr>) m = cdisk (c\<lparr>pins := (pins c)(n := k)\<rparr>) m" for m
    using cache_okD(7) [OF c, of m] by simp
qed (use held_buf [OF c b] b k in \<open>simp_all add: buf_ok_def\<close>)

lemma cache_rls:
  assumes c: "cache_ok d me bs sl c" and b: "holds c b = Some n" and clean: "pins c n = 0 \<longrightarrow> view c n = cdisk c n"
  shows "cache_ok d me (bs(b := (bs b)\<lparr>refcnt := refcnt (bs b) - 1\<rparr>))
    (sl(BufLk b := (sl (BufLk b))\<lparr>slocked := False, slpid := 0\<rparr>)) (c\<lparr>holds := (holds c)(b := None)\<rparr>)"
proof (rule cache_ok_upd [OF c b])
  fix m assume m: "m \<notin> active (c\<lparr>holds := (holds c)(b := None)\<rparr>)"
  have "m \<notin> active c" if "m \<noteq> n"
  proof
    assume "m \<in> active c"
    then obtain b' where b': "holds c b' = Some m" using m by (auto simp: active_def ran_def)
    then have "b' \<noteq> b" using that b by auto
    then have "((holds c)(b := None)) b' = Some m" using b' by simp
    then show False using m ranI [of "(holds c)(b := None)" b' m] by (simp add: active_def)
  qed
  then show "view (c\<lparr>holds := (holds c)(b := None)\<rparr>) m = cdisk (c\<lparr>holds := (holds c)(b := None)\<rparr>) m"
    using cache_okD(7) [OF c, of m] clean m by (cases "m = n") (auto simp: active_def)
qed (use held_buf [OF c b] b cache_okD(5) [OF c] in \<open>simp_all add: buf_ok_def\<close>)

section \<open>The operations\<close>

lemma bio_env_free:
  assumes "bio_env s"
  shows "mach_ok (mach s)" "lock_free BcacheLock (mach s)" "lock_free (BufLk b) (mach s)" "sl_ok (BufLk b) s"
  using assms by (auto simp: bio_env_def sl_ok_def proc_locks_ok_def)

lemma bio_env_upd:
  assumes "bio_env s" "mach s' = sync (mach s)" "\<exists>xs. ring (bufs s') xs \<and> set xs = {0..<NBUF}"
  shows "bio_env s'"
  using assms by (simp add: bio_env_def proc_locks_ok_def myproc_def)

lemma my_pid_upd:
  "mach s' = sync (mach s) \<Longrightarrow> (\<And>i. pid (procs s' i) = pid (procs s i)) \<Longrightarrow> my_pid s' = my_pid s"
  by (simp add: my_pid_def myproc_def)

text \<open>What any of the routines may change at all: cache, disk, and, through the wakeups of
  \<open>releasesleep\<close>, whether processes are runnable. Matched lock calls leave the machine as it was up
  to \<open>sync\<close>.\<close>

definition bstep :: "'a bstate_scheme \<Rightarrow> 'a bstate_scheme \<Rightarrow> bool" where
  "bstep s s' \<longleftrightarrow> s' = s\<lparr>mach := mach s', procs := procs s', slocks := slocks s', bufs := bufs s',
       disk := disk s', dwrites := dwrites s'\<rparr> \<and>
     (mach s' = mach s \<or> mach s' = sync (mach s)) \<and>
     (\<forall>i. procs s' i = (procs s i)\<lparr>pstate := pstate (procs s' i)\<rparr>) \<and>
     (\<forall>lk. (\<forall>b. lk \<noteq> BufLk b) \<longrightarrow> slocks s' lk = slocks s lk)"

lemma bstep_refl [simp, intro]: "bstep s s"
  by (simp add: bstep_def)

lemma bstep_trans:
  assumes "bstep s t" "bstep t u"
  shows "bstep s u"
proof -
  have t: "t = s\<lparr>mach := mach t, procs := procs t, slocks := slocks t, bufs := bufs t, disk := disk t, dwrites := dwrites t\<rparr>"
    and u: "u = t\<lparr>mach := mach u, procs := procs u, slocks := slocks u, bufs := bufs u, disk := disk u, dwrites := dwrites u\<rparr>"
    and p: "\<And>i. procs t i = (procs s i)\<lparr>pstate := pstate (procs t i)\<rparr>" "\<And>i. procs u i = (procs t i)\<lparr>pstate := pstate (procs u i)\<rparr>"
    using assms by (auto simp: bstep_def)
  have "u = s\<lparr>mach := mach u, procs := procs u, slocks := slocks u, bufs := bufs u, disk := disk u, dwrites := dwrites u\<rparr>"
    by (subst u, subst t) simp
  moreover have "procs u i = (procs s i)\<lparr>pstate := pstate (procs u i)\<rparr>" for i
    by (subst p(2), subst p(1)) simp
  moreover have "mach u = mach s \<or> mach u = sync (mach s)"
    using assms by (auto simp: bstep_def)
  moreover have "\<forall>lk. (\<forall>b. lk \<noteq> BufLk b) \<longrightarrow> slocks u lk = slocks s lk" using assms by (simp add: bstep_def)
  ultimately show ?thesis by (simp add: bstep_def)
qed

lemma bio_relI:
  assumes "bio_rel d s c" "mach s' = sync (mach s)" "\<And>i. pid (procs s' i) = pid (procs s i)"
    "\<exists>xs. ring (bufs s') xs \<and> set xs = {0..<NBUF}" "disk s' = cdisk c'" "dwrites s' = cwrites c'"
    "cache_ok d (my_pid s) (bufs s') (slocks s') c'"
  shows "bio_rel d s' c'"
  using assms bio_env_upd [of s s'] my_pid_upd [of s' s] by (simp add: bio_rel_def)

lemma ring_upd:
  "bnext x = bnext (bs b) \<Longrightarrow> bprev x = bprev (bs b) \<Longrightarrow> ring (bs(b := x)) xs = ring bs xs"
  by (rule ring_cong) auto

lemma length_ring: "ring bs xs \<Longrightarrow> set xs = {0..<NBUF} \<Longrightarrow> length xs = NBUF"
  using distinct_card [of xs] by (auto simp: ring_def)

lemma find_in: "List.find P xs = Some b \<Longrightarrow> b \<in> set xs \<and> P b"
  by (auto simp: find_Some_iff)

lemma find_unique:
  assumes "b \<in> set xs" "P b" "\<And>i. i \<in> set xs \<Longrightarrow> i \<noteq> b \<Longrightarrow> \<not> P i"
  shows "List.find P xs = Some b"
  using assms by (induction xs) auto

text \<open>\<open>bget\<close> on a cached and on an uncached block.\<close>

lemma bget_hit:
  assumes r: "bio_rel d s c" and b: "caches d (bufs s) b n" and n: "n \<notin> ran (holds c)"
  shows "\<exists>s'. bget d n s = Ok (b, s') \<and> bufs s' = (bufs s)(b := (bufs s b)\<lparr>refcnt := refcnt (bufs s b) + 1\<rparr>) \<and>
    mach s' = sync (mach s) \<and> procs s' = procs s \<and> disk s' = disk s \<and> dwrites s' = dwrites s \<and>
    slocks s' = (slocks s)(BufLk b := (slocks s (BufLk b))\<lparr>slocked := True, slpid := my_pid s\<rparr>) \<and> bstep s s'"
proof -
  have e: "bio_env s" and c: "cache_ok d (my_pid s) (bufs s) (slocks s) c" using r by (auto simp: bio_rel_def)
  obtain xs where xs: "ring (bufs s) xs" "set xs = {0..<NBUF}" using e by (auto simp: bio_env_def)
  let ?P = "\<lambda>i. bdev (bufs s i) = d \<and> blockno (bufs s i) = n"
  have u: "\<not> ?P i" if "i < NBUF" "i \<noteq> b" for i
    using that cache_okD(4) [OF c, of b n i] b by (auto simp: caches_def)
  have "List.find ?P xs = Some b"
    using b xs(2) u by (intro find_unique) (auto simp: caches_def)
  then have f: "scan bnext (\<lambda>b. bdev b = d \<and> blockno b = n) (bufs s) NBUF (bnext (bufs s head)) = Found b"
    using scan_next [OF xs(1)] length_ring [OF xs] by simp
  let ?s2 = "(upd_buf b (\<lambda>x. x\<lparr>refcnt := refcnt x + 1\<rparr>) s)\<lparr>mach := sync (mach s)\<rparr>"
  have ok: "sl_ok (BufLk b) ?s2" using bio_env_free(4) [OF e, of b]
    by (simp add: sl_ok_def upd_buf_def proc_locks_ok_def myproc_def)
  have "\<not> slocked (slocks s (BufLk b))"
    using cache_hit(2) [OF c b n] cache_okD(3) [OF c, of b] b by (simp add: buf_ok_def caches_def)
  then have "acquiresleep (BufLk b) ?s2 =
      Ok (upd_slock (BufLk b) (\<lambda>l. l\<lparr>slocked := True, slpid := my_pid ?s2\<rparr>) (?s2\<lparr>mach := sync (mach ?s2)\<rparr>))"
    by (intro acquiresleep_ok [OF ok]) (simp add: upd_buf_def)
  moreover have "my_pid ?s2 = my_pid s" by (rule my_pid_upd) (simp_all add: upd_buf_def)
  ultimately show ?thesis
    using bio_env_free [OF e] f
    by (simp add: bget_def kacquire_free krelease_lockd upd_buf_def upd_slock_def bstep_def)
qed

lemma bget_miss:
  assumes r: "bio_rel d s c" and n: "\<And>b. \<not> caches d (bufs s) b n" and rm: "room c n"
  shows "\<exists>b s'. bget d n s = Ok (b, s') \<and> b < NBUF \<and> refcnt (bufs s b) = 0 \<and>
    bufs s' = (bufs s)(b := (bufs s b)\<lparr>bdev := d, blockno := n, bvalid := False, refcnt := 1\<rparr>) \<and>
    mach s' = sync (mach s) \<and> procs s' = procs s \<and> disk s' = disk s \<and> dwrites s' = dwrites s \<and>
    slocks s' = (slocks s)(BufLk b := (slocks s (BufLk b))\<lparr>slocked := True, slpid := my_pid s\<rparr>) \<and> bstep s s'"
proof -
  have e: "bio_env s" and c: "cache_ok d (my_pid s) (bufs s) (slocks s) c" using r by (auto simp: bio_rel_def)
  obtain xs where xs: "ring (bufs s) xs" "set xs = {0..<NBUF}" using e by (auto simp: bio_env_def)
  have "List.find (\<lambda>i. bdev (bufs s i) = d \<and> blockno (bufs s i) = n) xs = None"
    using n xs(2) by (auto simp: find_None_iff caches_def)
  then have f1: "scan bnext (\<lambda>b. bdev b = d \<and> blockno b = n) (bufs s) NBUF (bnext (bufs s head)) = NotFound"
    using scan_next [OF xs(1)] length_ring [OF xs] by simp
  have "List.find (\<lambda>i. refcnt (bufs s i) = 0) (rev xs) \<noteq> None"
    using free_buffer [OF c n rm] xs(2) by (auto simp: find_None_iff)
  then obtain b where b: "List.find (\<lambda>i. refcnt (bufs s i) = 0) (rev xs) = Some b" by blast
  then have bb: "b < NBUF" "refcnt (bufs s b) = 0"
    using find_in [OF b] xs(2) by simp_all
  have f2: "scan bprev (\<lambda>b. refcnt b = 0) (bufs s) NBUF (bprev (bufs s head)) = Found b"
    using scan_prev [OF xs(1)] length_ring [OF xs] b by simp
  let ?s2 = "(upd_buf b (\<lambda>x. x\<lparr>bdev := d, blockno := n, bvalid := False, refcnt := 1\<rparr>) s)\<lparr>mach := sync (mach s)\<rparr>"
  have ok: "sl_ok (BufLk b) ?s2" using bio_env_free(4) [OF e, of b]
    by (simp add: sl_ok_def upd_buf_def proc_locks_ok_def myproc_def)
  have "\<not> slocked (slocks s (BufLk b))"
    using cache_miss(2) [OF c bb n] cache_okD(3) [OF c bb(1)] by (simp add: buf_ok_def)
  then have "acquiresleep (BufLk b) ?s2 =
      Ok (upd_slock (BufLk b) (\<lambda>l. l\<lparr>slocked := True, slpid := my_pid ?s2\<rparr>) (?s2\<lparr>mach := sync (mach ?s2)\<rparr>))"
    by (intro acquiresleep_ok [OF ok]) (simp add: upd_buf_def)
  moreover have "my_pid ?s2 = my_pid s" by (rule my_pid_upd) (simp_all add: upd_buf_def)
  ultimately show ?thesis
    using bio_env_free [OF e] f1 f2 bb
    by (simp add: bget_def kacquire_free krelease_lockd upd_buf_def upd_slock_def bstep_def)
qed

lemma bstep_upd [simp]: "bstep s (upd_buf b f s)" "bstep s (disk_rw b w s)" "bstep s (set_data b x s)"
  "bstep s (s\<lparr>mach := sync (mach s)\<rparr>)"
  by (simp_all add: bstep_def upd_buf_def disk_rw_def set_data_def Let_def)

lemma bread_ok:
  assumes r: "bio_rel d s c" and n: "n \<notin> ran (holds c)" and rm: "room c n"
  shows "\<exists>b s'. bread d n s = Ok (b, s') \<and> holds c b = None \<and> bio_rel d s' (c\<lparr>holds := (holds c)(b \<mapsto> n)\<rparr>) \<and> bstep s s'"
proof -
  have c: "cache_ok d (my_pid s) (bufs s) (slocks s) c" "disk s = cdisk c" using r by (auto simp: bio_rel_def)
  obtain xs where xs: "ring (bufs s) xs" "set xs = {0..<NBUF}" using r by (auto simp: bio_rel_def bio_env_def)
  show ?thesis
  proof (cases "\<exists>b. caches d (bufs s) b n")
    case True
    then obtain b where b: "caches d (bufs s) b n" by blast
    obtain s' where s': "bget d n s = Ok (b, s')" "mach s' = sync (mach s)" "procs s' = procs s"
      "disk s' = disk s" "dwrites s' = dwrites s"
      "bufs s' = (bufs s)(b := (bufs s b)\<lparr>refcnt := refcnt (bufs s b) + 1\<rparr>)"
      "slocks s' = (slocks s)(BufLk b := (slocks s (BufLk b))\<lparr>slocked := True, slpid := my_pid s\<rparr>)" "bstep s s'"
      using bget_hit [OF r b n] by blast
    have "bvalid (bufs s' b)" using cache_okD(3) [OF c(1), of b] b s'(6) by (simp add: buf_ok_def caches_def)
    moreover have "bio_rel d s' (c\<lparr>holds := (holds c)(b \<mapsto> n)\<rparr>)"
      using cache_hit(1) [OF c(1) b n] r s' xs by (intro bio_relI [OF r]) (auto simp: bio_rel_def ring_upd)
    ultimately show ?thesis using s'(1,8) cache_hit(2) [OF c(1) b n] by (simp add: bread_def)
  next
    case False
    then have n': "\<not> caches d (bufs s) b n" for b by blast
    obtain b s' where s': "bget d n s = Ok (b, s')" "b < NBUF" "refcnt (bufs s b) = 0"
      "bufs s' = (bufs s)(b := (bufs s b)\<lparr>bdev := d, blockno := n, bvalid := False, refcnt := 1\<rparr>)"
      "mach s' = sync (mach s)" "procs s' = procs s" "disk s' = disk s" "dwrites s' = dwrites s"
      "slocks s' = (slocks s)(BufLk b := (slocks s (BufLk b))\<lparr>slocked := True, slpid := my_pid s\<rparr>)" "bstep s s'"
      using bget_miss [OF r n' rm] by blast
    let ?t = "upd_buf b (\<lambda>x. x\<lparr>bvalid := True\<rparr>) (disk_rw b False s')"
    have bt: "bufs ?t = (bufs s)(b := (bufs s b)\<lparr>bdev := d, blockno := n, refcnt := 1, bdata := cdisk c n, bvalid := True\<rparr>)"
      using s' c(2) by (simp add: upd_buf_def disk_rw_def)
    have "bio_rel d ?t (c\<lparr>holds := (holds c)(b \<mapsto> n)\<rparr>)"
    proof (rule bio_relI [OF r])
      show "cache_ok d (my_pid s) (bufs ?t) (slocks ?t) (c\<lparr>holds := (holds c)(b \<mapsto> n)\<rparr>)"
        using cache_miss(1) [OF c(1) s'(2,3) n'] unfolding bt by (simp add: upd_buf_def disk_rw_def s'(9))
      show "\<exists>xs. ring (bufs ?t) xs \<and> set xs = {0..<NBUF}" using xs unfolding bt by (auto simp: ring_upd)
    qed (use s' r in \<open>simp_all add: upd_buf_def disk_rw_def bio_rel_def\<close>)
    moreover have "bstep s ?t" using s'(10) bstep_trans [OF bstep_upd(2) bstep_upd(1)] bstep_trans by blast
    moreover have "\<not> bvalid (bufs s' b)" using s'(4) by simp
    ultimately show ?thesis using s'(1) cache_miss(2) [OF c(1) s'(2,3) n'] by (simp add: bread_def)
  qed
qed

lemma holdingsleep_held:
  assumes "bio_rel d s c" "holds c b = Some n"
  shows "holdingsleep (BufLk b) s = Ok (True, s\<lparr>mach := sync (mach s)\<rparr>)"
  using holdingsleep_ok [OF bio_env_free(4), of s b] held_buf(7,8) [OF _ assms(2)] assms(1)
  by (auto simp: bio_rel_def)

lemma bwrite_ok:
  assumes r: "bio_rel d s c" and b: "holds c b = Some n"
  shows "\<exists>s'. bwrite b s = Ok s' \<and>
    bio_rel d s' (c\<lparr>cdisk := (cdisk c)(n := view c n), cwrites := cwrites c @ [(n, view c n)]\<rparr>) \<and> bstep s s'"
proof -
  have c: "cache_ok d (my_pid s) (bufs s) (slocks s) c" using r by (simp add: bio_rel_def)
  have "bio_rel d (disk_rw b True (s\<lparr>mach := sync (mach s)\<rparr>))
      (c\<lparr>cdisk := (cdisk c)(n := view c n), cwrites := cwrites c @ [(n, view c n)]\<rparr>)"
    using held_buf [OF c b] cache_wr [OF c b] r
    by (intro bio_relI [OF r]) (auto simp: disk_rw_def Let_def bio_rel_def bio_env_def)
  moreover have "bstep s (disk_rw b True (s\<lparr>mach := sync (mach s)\<rparr>))"
    using bstep_trans [OF bstep_upd(4) bstep_upd(2)] by blast
  ultimately show ?thesis by (simp add: bwrite_def holdingsleep_held [OF r b])
qed

lemma brelse_ok:
  assumes r: "bio_rel d s c" and b: "holds c b = Some n" and clean: "pins c n = 0 \<longrightarrow> view c n = cdisk c n"
  shows "\<exists>s'. brelse b s = Ok s' \<and> bio_rel d s' (c\<lparr>holds := (holds c)(b := None)\<rparr>) \<and> bstep s s'"
proof -
  have e: "bio_env s" and c: "cache_ok d (my_pid s) (bufs s) (slocks s) c" using r by (auto simp: bio_rel_def)
  obtain xs where xs: "ring (bufs s) xs" "set xs = {0..<NBUF}" using e by (auto simp: bio_env_def)
  let ?s1 = "s\<lparr>mach := sync (mach s)\<rparr>"
  have ok: "sl_ok (BufLk b) ?s1"
    using bio_env_free(4) [OF e, of b] by (simp add: sl_ok_def proc_locks_ok_def myproc_def)
  let ?s2 = "upd_slock (BufLk b) (\<lambda>l. l\<lparr>slocked := False, slpid := 0\<rparr>) (s\<lparr>mach := sync (mach s),
      procs := woken (ChSleeplock (BufLk b)) (myproc s) {0..<NPROC} (procs s)\<rparr>)"
  have rel: "releasesleep (BufLk b) ?s1 = Ok ?s2"
    using releasesleep_ok [OF ok] by (simp add: myproc_def)
  let ?bs = "(bufs s)(b := (bufs s b)\<lparr>refcnt := refcnt (bufs s b) - 1\<rparr>)"
  let ?bs' = "if refcnt (?bs b) = 0 then link_front b (unlink b ?bs) else ?bs"
  have "brelse b s = Ok (?s2\<lparr>bufs := ?bs', mach := sync (mach s)\<rparr>)" (is "_ = Ok ?t")
    using bio_env_free [OF e] rel
    by (simp add: brelse_def holdingsleep_held [OF r b] kacquire_free krelease_lockd upd_buf_def upd_slock_def)
  moreover have "bio_rel d ?t (c\<lparr>holds := (holds c)(b := None)\<rparr>)"
  proof (rule bio_relI [OF r])
    have "ring ?bs xs" using xs(1) by (simp add: ring_upd)
    moreover obtain ys zs where yz: "xs = ys @ b # zs"
      using xs(2) held_buf(1) [OF c b] by (metis atLeastLessThan_iff in_set_conv_decomp le0)
    ultimately have "ring (link_front b (unlink b ?bs)) (b # ys @ zs)" "ring ?bs xs"
      using ring_move_front [of ?bs ys b zs] by simp_all
    moreover have "set (b # ys @ zs) = {0..<NBUF}" using xs(2) yz by auto
    ultimately have "\<exists>xs. ring (link_front b (unlink b ?bs)) xs \<and> set xs = {0..<NBUF}"
      "\<exists>xs. ring ?bs xs \<and> set xs = {0..<NBUF}" using xs(2) by blast+
    then show "\<exists>xs. ring (bufs ?t) xs \<and> set xs = {0..<NBUF}"
      by (cases "refcnt (bufs s b) = 1") simp_all
    show "cache_ok d (my_pid s) (bufs ?t) (slocks ?t) (c\<lparr>holds := (holds c)(b := None)\<rparr>)"
      using cache_rls [OF c b clean] by (cases "refcnt (bufs s b) = 1") (simp_all add: upd_slock_def)
  qed (use r in \<open>simp_all add: bio_rel_def upd_slock_def woken_def\<close>)
  moreover have "bstep s ?t" by (simp add: bstep_def upd_slock_def woken_def)
  ultimately show ?thesis by blast
qed

lemma bpin_ok:
  assumes r: "bio_rel d s c" and b: "holds c b = Some n" and k: "Suc (pins c n) < 2 ^ 31"
  shows "\<exists>s'. bpin b s = Ok s' \<and> bio_rel d s' (c\<lparr>pins := (pins c)(n := Suc (pins c n))\<rparr>) \<and> bstep s s'"
proof -
  have e: "bio_env s" and c: "cache_ok d (my_pid s) (bufs s) (slocks s) c" using r by (auto simp: bio_rel_def)
  let ?t = "(upd_buf b (\<lambda>x. x\<lparr>refcnt := refcnt x + 1\<rparr>) s)\<lparr>mach := sync (mach s)\<rparr>"
  have "bpin b s = Ok ?t"
    using bio_env_free [OF e] by (simp add: bpin_def kacquire_free krelease_lockd upd_buf_def)
  moreover have "refcnt (bufs s b) + 1 = of_nat (Suc (Suc (pins c n)))" using held_buf(6) [OF c b] by simp
  then have "bio_rel d ?t (c\<lparr>pins := (pins c)(n := Suc (pins c n))\<rparr>)"
    using cache_count [OF c b k] r
    by (intro bio_relI [OF r]) (auto simp: upd_buf_def bio_rel_def bio_env_def ring_upd simp del: of_nat_Suc)
  moreover have "bstep s ?t" by (simp add: bstep_def upd_buf_def)
  ultimately show ?thesis by blast
qed

lemma bunpin_ok:
  assumes r: "bio_rel d s c" and b: "holds c b = Some n" and k: "0 < pins c n"
  shows "\<exists>s'. bunpin b s = Ok s' \<and> bio_rel d s' (c\<lparr>pins := (pins c)(n := pins c n - 1)\<rparr>) \<and> bstep s s'"
proof -
  have e: "bio_env s" and c: "cache_ok d (my_pid s) (bufs s) (slocks s) c" using r by (auto simp: bio_rel_def)
  let ?t = "(upd_buf b (\<lambda>x. x\<lparr>refcnt := refcnt x - 1\<rparr>) s)\<lparr>mach := sync (mach s)\<rparr>"
  have "bunpin b s = Ok ?t"
    using bio_env_free [OF e] by (simp add: bunpin_def kacquire_free krelease_lockd upd_buf_def)
  moreover have "refcnt (bufs s b) - 1 = of_nat (Suc (pins c n - 1))" using held_buf(6) [OF c b] k by simp
  then have "bio_rel d ?t (c\<lparr>pins := (pins c)(n := pins c n - 1)\<rparr>)"
    using cache_count [OF c b, of "pins c n - 1"] cache_okD(5) [OF c, of n] r
    by (intro bio_relI [OF r]) (auto simp: upd_buf_def bio_rel_def bio_env_def ring_upd simp del: of_nat_Suc)
  moreover have "bstep s ?t" by (simp add: bstep_def upd_buf_def)
  ultimately show ?thesis by blast
qed

lemma set_data_ok:
  assumes r: "bio_rel d s c" and b: "holds c b = Some n"
  shows "bio_rel d (set_data b x s) (c\<lparr>view := (view c)(n := x)\<rparr>)"
  using r cache_put [of d "my_pid s" "bufs s" "slocks s" c b n x] b
  by (auto simp: bio_rel_def bio_env_def set_data_def upd_buf_def ring_upd proc_locks_ok_def myproc_def my_pid_def)

text \<open>The relation the contract is stated for also records that nothing else changed since \<open>s0\<close>.\<close>

definition brel :: "u32 \<Rightarrow> 'a bstate_scheme \<Rightarrow> 'a bstate_scheme \<Rightarrow> cache \<Rightarrow> bool" where
  "brel d s0 s c \<longleftrightarrow> bio_rel d s c \<and> bstep s0 s"

lemma brel_step: "brel d s0 s c \<Longrightarrow> bio_rel d s' c' \<and> bstep s s' \<Longrightarrow> brel d s0 s' c'"
  using bstep_trans by (auto simp: brel_def)

lemma brel_start: "bio_rel d s c \<Longrightarrow> brel d s s c"
  by (simp add: brel_def)

interpretation bc: block_cache "brel d s0" "bread d" bwrite brelse bpin bunpin get_data set_data for d s0
proof (unfold_locales, goal_cases)
  case (1 s c n)
  then show ?case using bread_ok [of d s c n] brel_step [OF 1(1)] by (auto simp: brel_def)
next
  case (2 s c b n)
  then show ?case using held_buf(5) [of d "my_pid s" "bufs s" "slocks s" c b n]
    by (simp add: get_data_def bio_rel_def brel_def)
next
  case (3 s c b n x)
  then show ?case using set_data_ok [of d s c b n x] by (intro brel_step [OF 3(1)]) (simp add: brel_def)
next
  case (4 s c b n)
  then show ?case using bwrite_ok [of d s c b n] brel_step [OF 4(1)] by (auto simp: brel_def)
next
  case (5 s c b n)
  then show ?case using brelse_ok [of d s c b n] brel_step [OF 5(1)] by (auto simp: brel_def)
next
  case (6 s c b n)
  then show ?case using bpin_ok [of d s c b n] brel_step [OF 6(1)] by (auto simp: brel_def)
next
  case (7 s c b n)
  then show ?case using bunpin_ok [of d s c b n] brel_step [OF 7(1)] by (auto simp: brel_def)
qed

section \<open>Initialisation\<close>

definition idle_cache :: "(u32 \<Rightarrow> block) \<Rightarrow> (u32 \<times> block) list \<Rightarrow> cache" where
  "idle_cache dk ws = \<lparr>view = dk, cdisk = dk, cwrites = ws, pins = (\<lambda>_. 0), holds = (\<lambda>_. None)\<rparr>"

lemma lock_free_initlock [simp]: "lock_free lk (initlock lk' nm m) \<longleftrightarrow> lk = lk' \<or> lock_free lk m"
  by (simp add: lock_free_def initlock_def machine_defs)

lemma mach_ok_initlock [simp]: "mach_ok (initlock lk nm m) = mach_ok m"
  by (simp add: mach_ok_def initlock_def machine_defs)

lemma mycpu_initlock [simp]: "mycpu (initlock lk nm m) = mycpu m"
  by (simp add: initlock_def machine_defs)

definition binit1 :: "nat \<Rightarrow> 'a bstate_scheme \<Rightarrow> 'a bstate_scheme" where
  "binit1 b s = initsleeplock (BufLk b) ''buffer'' (s\<lparr>bufs := link_front b (bufs s)\<rparr>)"

lemma binit_loop:
  assumes "ring (bufs s) xs" "distinct is" "set is \<inter> set xs = {}" "head \<notin> set is"
  shows "let s' = fold binit1 is s in
    ring (bufs s') (rev is @ xs) \<and> (\<forall>b \<in> set is. \<not> slocked (slocks s' (BufLk b)) \<and> lock_free (BufLk b) (mach s')) \<and>
    (\<forall>i. bdev (bufs s' i) = bdev (bufs s i) \<and> refcnt (bufs s' i) = refcnt (bufs s i)) \<and>
    mycpu (mach s') = mycpu (mach s) \<and> mach_ok (mach s') = mach_ok (mach s) \<and>
    (\<forall>lk. lock_free lk (mach s) \<longrightarrow> lock_free lk (mach s')) \<and>
    (\<forall>lk. \<not> slocked (slocks s lk) \<longrightarrow> \<not> slocked (slocks s' lk)) \<and>
    procs s' = procs s \<and> disk s' = disk s \<and> dwrites s' = dwrites s"
  using assms
proof (induction "is" arbitrary: s xs)
  case (Cons i "is")
  have "ring (bufs (binit1 i s)) (i # xs)"
    using Cons.prems by (auto simp: binit1_def initsleeplock_def upd_slock_def intro: ring_link_front)
  moreover have "\<not> slocked (slocks (binit1 i s) (BufLk i))" "lock_free (BufLk i) (mach (binit1 i s))"
    "\<forall>j. bdev (bufs (binit1 i s) j) = bdev (bufs s j) \<and> refcnt (bufs (binit1 i s) j) = refcnt (bufs s j)"
    "mycpu (mach (binit1 i s)) = mycpu (mach s)" "mach_ok (mach (binit1 i s)) = mach_ok (mach s)"
    "\<forall>lk. lock_free lk (mach s) \<longrightarrow> lock_free lk (mach (binit1 i s))"
    "\<forall>lk. \<not> slocked (slocks s lk) \<longrightarrow> \<not> slocked (slocks (binit1 i s) lk)"
    "procs (binit1 i s) = procs s" "disk (binit1 i s) = disk s" "dwrites (binit1 i s) = dwrites s"
    by (simp_all add: binit1_def initsleeplock_def upd_slock_def)
  moreover have "set is \<inter> set (i # xs) = {}" using Cons.prems by auto
  ultimately show ?case
    using Cons.IH [of "binit1 i s" "i # xs"] Cons.prems by (auto simp: Let_def)
qed simp

lemma binit_facts:
  shows "ring (bufs (binit s)) (rev [0..<NBUF])" "b < NBUF \<Longrightarrow> \<not> slocked (slocks (binit s) (BufLk b))"
    "bdev (bufs (binit s) i) = bdev (bufs s i)" "refcnt (bufs (binit s) i) = refcnt (bufs s i)"
    "mycpu (mach (binit s)) = mycpu (mach s)" "mach_ok (mach (binit s)) = mach_ok (mach s)"
    "lk = BcacheLock \<or> lock_free lk (mach s) \<Longrightarrow> lock_free lk (mach (binit s))"
    "procs (binit s) = procs s" "disk (binit s) = disk s" "dwrites (binit s) = dwrites s"
proof -
  let ?s1 = "s\<lparr>mach := initlock BcacheLock ''bcache'' (mach s),
    bufs := set_next head head (set_prev head head (bufs s))\<rparr>"
  define t where "t = fold binit1 [0..<NBUF] ?s1"
  have t: "binit s = t" by (simp add: t_def binit_def binit1_def [abs_def])
  have "ring (bufs ?s1) []" by (simp add: ring_def)
  then have "ring (bufs t) (rev [0..<NBUF] @ []) \<and> (\<forall>b \<in> set [0..<NBUF]. \<not> slocked (slocks t (BufLk b)) \<and> lock_free (BufLk b) (mach t)) \<and>
      (\<forall>i. bdev (bufs t i) = bdev (bufs ?s1 i) \<and> refcnt (bufs t i) = refcnt (bufs ?s1 i)) \<and>
      mycpu (mach t) = mycpu (mach ?s1) \<and> mach_ok (mach t) = mach_ok (mach ?s1) \<and>
      (\<forall>lk. lock_free lk (mach ?s1) \<longrightarrow> lock_free lk (mach t)) \<and>
      (\<forall>lk. \<not> slocked (slocks ?s1 lk) \<longrightarrow> \<not> slocked (slocks t lk)) \<and>
      procs t = procs ?s1 \<and> disk t = disk ?s1 \<and> dwrites t = dwrites ?s1"
    using binit_loop [of ?s1 "[]" "[0..<NBUF]"] unfolding Let_def t_def [symmetric] by (simp add: head_def)
  then show "ring (bufs (binit s)) (rev [0..<NBUF])" "b < NBUF \<Longrightarrow> \<not> slocked (slocks (binit s) (BufLk b))"
    "bdev (bufs (binit s) i) = bdev (bufs s i)" "refcnt (bufs (binit s) i) = refcnt (bufs s i)"
    "mycpu (mach (binit s)) = mycpu (mach s)" "mach_ok (mach (binit s)) = mach_ok (mach s)"
    "lk = BcacheLock \<or> lock_free lk (mach s) \<Longrightarrow> lock_free lk (mach (binit s))"
    "procs (binit s) = procs s" "disk (binit s) = disk s" "dwrites (binit s) = dwrites s"
    unfolding t by (simp_all, blast)
qed

lemma binit_ok:
  assumes "proc_locks_ok s" "myproc s \<noteq> None" "d \<noteq> 0"
    and "\<And>b. b < NBUF \<Longrightarrow> bdev (bufs s b) = 0 \<and> refcnt (bufs s b) = 0" "\<And>b. lock_free (BufLk b) (mach s)"
  shows "bio_rel d (binit s) (idle_cache (disk s) (dwrites s))"
proof -
  have "ring (bufs (binit s)) (rev [0..<NBUF]) \<and> set (rev [0..<NBUF]) = {0..<NBUF}"
    using binit_facts(1) [of s] by simp
  then have "bio_env (binit s)"
    using assms binit_facts(5,6) [of s] binit_facts(7) [of _ s] unfolding bio_env_def proc_locks_ok_def myproc_def by auto
  moreover have "cache_ok d me (bufs (binit s)) (slocks (binit s)) (idle_cache (disk s) (dwrites s))" for me
    using assms binit_facts(2) [of _ s] binit_facts(3,4) [of s]
    by (auto simp: cache_ok_def buf_ok_def caches_def idle_cache_def active_def)
  ultimately show ?thesis using binit_facts(9,10) [of s] by (simp add: bio_rel_def idle_cache_def)
qed

section \<open>Properties\<close>

lemma bget_uncached:
  assumes "ring (bufs s) xs" and "length xs = NBUF" and "lock_free BcacheLock (mach s)"
    and "\<forall>b \<in> set xs. \<not> (bdev (bufs s b) = d \<and> blockno (bufs s b) = n)"
  shows "bget d n s = (case List.find (\<lambda>b. refcnt (bufs s b) = 0) (rev xs) of
      None \<Rightarrow> Panic ''bget: no buffers''
    | Some b \<Rightarrow> rbind (krelease BcacheLock
        (upd_buf b (\<lambda>x. x\<lparr>bdev := d, blockno := n, bvalid := False, refcnt := 1\<rparr>) (s\<lparr>mach := lockd BcacheLock (mach s)\<rparr>)))
        (\<lambda>s2. rbind (acquiresleep (BufLk b) s2) (\<lambda>s3. Ok (b, s3))))"
proof -
  have "List.find (\<lambda>i. bdev (bufs s i) = d \<and> blockno (bufs s i) = n) xs = None"
    using assms(4) by (auto simp: find_None_iff)
  then have "scan bnext (\<lambda>b. bdev b = d \<and> blockno b = n) (bufs s) NBUF (bnext (bufs s head)) = NotFound"
    using scan_next [OF assms(1), of NBUF] assms(2) by simp
  then show ?thesis
    using scan_prev [OF assms(1), of NBUF "\<lambda>b. refcnt b = 0"] assms(2,3)
    by (simp add: bget_def kacquire_free split: option.splits)
qed

lemma bread_full:
  assumes r: "bio_rel d s c" and p: "NBUF \<le> card {m. 0 < pins c m}" and n: "n \<notin> {m. 0 < pins c m}"
  shows "bread d n s = Panic ''bget: no buffers''"
proof -
  have e: "bio_env s" and c: "cache_ok d (my_pid s) (bufs s) (slocks s) c" using r by (auto simp: bio_rel_def)
  obtain xs where xs: "ring (bufs s) xs" "set xs = {0..<NBUF}" using e by (auto simp: bio_env_def)
  let ?B = "{b. b < NBUF \<and> bdev (bufs s b) = d \<and> 0 < pins c (blockno (bufs s b))}"
  have "{m. 0 < pins c m} \<subseteq> (\<lambda>b. blockno (bufs s b)) ` ?B"
  proof
    fix m assume "m \<in> {m. 0 < pins c m}"
    then have m: "0 < pins c m" by simp
    obtain b where "caches d (bufs s) b m" using cache_okD(6) [OF c m] by blast
    then show "m \<in> (\<lambda>b. blockno (bufs s b)) ` ?B" using m by (intro image_eqI [of _ _ b]) (auto simp: caches_def)
  qed
  then have "card {m. 0 < pins c m} \<le> card ?B" by (intro surj_card_le) simp_all
  moreover have "?B \<subseteq> {0..<NBUF}" by auto
  ultimately have B: "?B = {0..<NBUF}" using p card_subset_eq [of "{0..<NBUF}" ?B] card_mono [of "{0..<NBUF}" ?B] by simp
  have B': "bdev (bufs s b) = d \<and> 0 < pins c (blockno (bufs s b))" if "b < NBUF" for b
  proof -
    have "b \<in> ?B" unfolding B using that by simp
    then show ?thesis by simp
  qed
  then have "refcnt (bufs s b) \<noteq> 0" if "b < NBUF" for b using unused_iff [OF c that] that by auto
  then have "List.find (\<lambda>b. refcnt (bufs s b) = 0) (rev xs) = None"
    using xs(2) by (auto simp: find_None_iff)
  moreover have "\<forall>b \<in> set xs. \<not> (bdev (bufs s b) = d \<and> blockno (bufs s b) = n)"
    using B' xs(2) n by (metis atLeastLessThan_iff mem_Collect_eq)
  ultimately show ?thesis
    using bget_uncached [OF xs(1) length_ring [OF xs] bio_env_free(2) [OF e], of d n] by (simp add: bread_def)
qed

text \<open>The two idioms of the cache's clients: read a block, and replace a block on disk.\<close>

definition read_block :: "u32 \<Rightarrow> u32 \<Rightarrow> 'a bstate_scheme \<Rightarrow> (block \<times> 'a bstate_scheme) res" where
  "read_block d n s = rbind (bread d n s) (\<lambda>(b, s1). rbind (brelse b s1) (\<lambda>s2. Ok (get_data b s1, s2)))"

definition write_block :: "u32 \<Rightarrow> u32 \<Rightarrow> block \<Rightarrow> 'a bstate_scheme \<Rightarrow> 'a bstate_scheme res" where
  "write_block d n x s = rbind (bread d n s) (\<lambda>(b, s1).
     rbind (bwrite b (set_data b x s1)) (\<lambda>s2. brelse b s2))"

lemma read_block_ok:
  assumes "bio_rel d s c" "n \<notin> ran (holds c)" "room c n" "pins c n = 0 \<longrightarrow> view c n = cdisk c n"
  shows "\<exists>s'. read_block d n s = Ok (view c n, s') \<and> bio_rel d s' c"
  using bc.rd_rls [OF brel_start [OF assms(1)] assms(2-4)] by (auto simp: read_block_def brel_def)

lemma write_block_ok:
  assumes "bio_rel d s c" "n \<notin> ran (holds c)" "room c n"
  shows "\<exists>s'. write_block d n x s = Ok s' \<and> bio_rel d s'
    (c\<lparr>view := (view c)(n := x), cdisk := (cdisk c)(n := x), cwrites := cwrites c @ [(n, x)]\<rparr>)"
  using bc.rd_put_wr_rls [OF brel_start [OF assms(1)] assms(2,3), of x] by (auto simp: write_block_def brel_def)

lemma idle_cache_simps [simp]:
  "view (idle_cache dk ws) = dk" "cdisk (idle_cache dk ws) = dk" "cwrites (idle_cache dk ws) = ws"
  "pins (idle_cache dk ws) = (\<lambda>_. 0)" "holds (idle_cache dk ws) = (\<lambda>_. None)"
  "room (idle_cache dk ws) n"
  by (simp_all add: idle_cache_def room_def active_def param_defs)

lemma idle_cache_upd:
  "(idle_cache dk ws)\<lparr>view := v, cdisk := v, cwrites := w\<rparr> = idle_cache v w"
  by (simp add: idle_cache_def)

lemma reads_ok:
  assumes "bio_rel d s (idle_cache dk ws)"
  shows "\<exists>s'. rfold (\<lambda>m s. rbind (read_block d m s) (\<lambda>(x, s'). Ok s')) ms s = Ok s' \<and> bio_rel d s' (idle_cache dk ws)"
  using assms
proof (induction ms arbitrary: s)
  case (Cons m ms)
  obtain s' where s': "read_block d m s = Ok (dk m, s')" "bio_rel d s' (idle_cache dk ws)"
    using read_block_ok [OF Cons.prems, of m] by auto
  then show ?case using Cons.IH [OF s'(2)] by simp
qed simp

text \<open>C5. From a freshly initialised cache on, a block that was written is read back unchanged, no matter
  which and how many other blocks are read in between and so recycle its buffer; no call panics or waits.\<close>

theorem bio_read_after_write:
  assumes "proc_locks_ok s" and "myproc s \<noteq> None" and "d \<noteq> 0"
    and "\<forall>b < NBUF. bdev (bufs s b) = 0 \<and> refcnt (bufs s b) = 0"
    and "\<forall>b. lock_free (BufLk b) (mach s)"
  shows "\<exists>s1 s2 s3. write_block d n x (binit s) = Ok s1 \<and>
    rfold (\<lambda>m s. rbind (read_block d m s) (\<lambda>(y, s'). Ok s')) ms s1 = Ok s2 \<and>
    read_block d n s2 = Ok (x, s3) \<and> disk s3 n = x"
proof -
  have "bio_rel d (binit s) (idle_cache (disk s) (dwrites s))" using assms by (intro binit_ok) auto
  from write_block_ok [OF this, of n x]
  obtain s1 where s1: "write_block d n x (binit s) = Ok s1"
    "bio_rel d s1 (idle_cache ((disk s)(n := x)) (dwrites s @ [(n, x)]))"
    by (auto simp: idle_cache_upd)
  obtain s2 where s2: "rfold (\<lambda>m s. rbind (read_block d m s) (\<lambda>(y, s'). Ok s')) ms s1 = Ok s2"
    "bio_rel d s2 (idle_cache ((disk s)(n := x)) (dwrites s @ [(n, x)]))"
    using reads_ok [OF s1(2), of ms] by blast
  obtain s3 where "read_block d n s2 = Ok (x, s3)" "disk s3 n = x"
    using read_block_ok [OF s2(2), of n] by (auto simp: bio_rel_def)
  then show ?thesis using s1 s2 by blast
qed

definition bio_ex :: bstate where
  "bio_ex = slstate.extend sl_ex
     \<lparr>bufs = (\<lambda>_. \<lparr>bvalid = False, bdisk = False, bdev = 0, blockno = 0, refcnt = 0, bprev = 0, bnext = 0,
        bdata = replicate BSIZE 0\<rparr>), disk = (\<lambda>_. replicate BSIZE 0), dwrites = []\<rparr>"

lemma bio_ex_simps [simp]:
  "mach bio_ex = mach_run 0" "procs bio_ex = procs ptable_ex"
  "slocks bio_ex = (\<lambda>_. \<lparr>slocked = False, slname = [], slpid = 0\<rparr>)" "bdev (bufs bio_ex b) = 0"
  "refcnt (bufs bio_ex b) = 0" "disk bio_ex = (\<lambda>_. replicate BSIZE 0)" "dwrites bio_ex = []"
  by (simp_all add: bio_ex_def slstate.defs sl_ex_def vmstate.defs vmstate_ex_def)

theorem bio_read_after_write_witness:
  "\<exists>s1 s2 s3. write_block 1 5 (replicate BSIZE 7) (binit bio_ex) = Ok s1 \<and>
    rfold (\<lambda>m s. rbind (read_block 1 m s) (\<lambda>(y, s'). Ok s')) (map of_nat [100..<200]) s1 = Ok s2 \<and>
    read_block 1 5 s2 = Ok (replicate BSIZE 7, s3) \<and> disk s3 5 = replicate BSIZE 7"
  by (rule bio_read_after_write) (simp_all add: proc_locks_ok_def mach_run_ok myproc_def)

text \<open>C25. \<open>bget\<close> looks for an unused buffer only when the block is not cached. It then takes the unused
  buffer whose last use is longest ago, the last one in the list's order, and panics when every buffer
  is in use.\<close>

theorem bget_recycles_lru:
  assumes "ring (bufs s) xs" and "length xs = NBUF" and "lock_free BcacheLock (mach s)"
    and "\<forall>b \<in> set xs. \<not> (bdev (bufs s b) = d \<and> blockno (bufs s b) = n)"
  shows "bget d n s = (case List.find (\<lambda>b. refcnt (bufs s b) = 0) (rev xs) of
      None \<Rightarrow> Panic ''bget: no buffers''
    | Some b \<Rightarrow> rbind (krelease BcacheLock
        (upd_buf b (\<lambda>x. x\<lparr>bdev := d, blockno := n, bvalid := False, refcnt := 1\<rparr>) (s\<lparr>mach := lockd BcacheLock (mach s)\<rparr>)))
        (\<lambda>s2. rbind (acquiresleep (BufLk b) s2) (\<lambda>s3. Ok (b, s3))))"
  using assms by (rule bget_uncached)

theorem bget_recycles_lru_witness:
  "bget 1 7 (binit bio_ex) = rbind (krelease BcacheLock
     (upd_buf 0 (\<lambda>x. x\<lparr>bdev := 1, blockno := 7, bvalid := False, refcnt := 1\<rparr>)
       ((binit bio_ex)\<lparr>mach := lockd BcacheLock (mach (binit bio_ex))\<rparr>)))
     (\<lambda>s2. rbind (acquiresleep (BufLk 0) s2) (\<lambda>s3. Ok (0, s3)))"
proof -
  have "[0..<NBUF] = 0 # [1..<NBUF]" by (simp add: param_defs upt_rec)
  then have "List.find (\<lambda>b. refcnt (bufs (binit bio_ex) b) = 0) [0..<NBUF] = Some 0"
    by (simp add: binit_facts(4))
  then show ?thesis
    using bget_recycles_lru [OF binit_facts(1) [of bio_ex], of 1 7] binit_facts(3) [of bio_ex] binit_facts(7) [of BcacheLock bio_ex]
    by simp
qed

end
