(* ===== verification/Log.thy ===== *)
theory Log
  imports Bio
begin

text \<open>
  The write-ahead log, \<^verbatim>\<open>kernel/log.c\<close>. The log occupies the block \<open>start\<close>, its header, and the
  blocks after it. The routines are modelled on the buffer cache of theory \<open>Bio\<close>. The main result
  is crash safety: at whatever point between two disk writes of \<open>commit\<close> the machine stops, recovery
  produces either the disk before the transaction or the disk after it.

  The waiting loop of \<open>begin_op\<close> is \<open>begin_op_loop\<close>; how operations share the log is the subject of the
  step relation \<open>lstep\<close>. The message that \<open>install_trans\<close> prints during recovery is not part of
  the state.
\<close>

record logrec =
  lstart :: u32
  outstanding :: int
  committing :: bool
  ldev :: u32
  lh_n :: int
  lh_block :: "nat \<Rightarrow> u32"

record logst = bstate +
  klog :: logrec

definition upd_log :: "(logrec \<Rightarrow> logrec) \<Rightarrow> 'a logst_scheme \<Rightarrow> 'a logst_scheme" where
  "upd_log f s = s\<lparr>klog := f (klog s)\<rparr>"

definition install_trans1 :: "bool \<Rightarrow> nat \<Rightarrow> 'a logst_scheme \<Rightarrow> 'a logst_scheme res" where
  "install_trans1 recovering tail s =
     rbind (bread (ldev (klog s)) (lstart (klog s) + of_nat tail + 1) s) (\<lambda>(lbuf, s1).
     rbind (bread (ldev (klog s1)) (lh_block (klog s1) tail) s1) (\<lambda>(dbuf, s2).
     rbind (bwrite dbuf (set_data dbuf (get_data lbuf s2) s2)) (\<lambda>s3.
     rbind (if recovering then Ok s3 else bunpin dbuf s3) (\<lambda>s4.
     rbind (brelse lbuf s4) (brelse dbuf)))))"

definition install_trans :: "bool \<Rightarrow> 'a logst_scheme \<Rightarrow> 'a logst_scheme res" where
  "install_trans recovering s = rfold (install_trans1 recovering) [0..<nat (lh_n (klog s))] s"

text \<open>The header block: \<open>n\<close> at offset 0 and \<open>block[i]\<close> at offset \<open>4 + 4 * i\<close>.\<close>

definition hdr_n :: "block \<Rightarrow> int" where
  "hdr_n d = sint (get32 d 0)"

definition hdr_block :: "block \<Rightarrow> nat \<Rightarrow> u32" where
  "hdr_block d i = get32 d (4 + 4 * i)"

definition hdr_put :: "int \<Rightarrow> (nat \<Rightarrow> u32) \<Rightarrow> block \<Rightarrow> block" where
  "hdr_put n bl d = fold (\<lambda>i. put32 (bl i) (4 + 4 * i)) [0..<nat n] (put32 (of_int n) 0 d)"

definition read_head :: "'a logst_scheme \<Rightarrow> 'a logst_scheme res" where
  "read_head s = rbind (bread (ldev (klog s)) (lstart (klog s)) s) (\<lambda>(b, s1).
     let d = get_data b s1; n = hdr_n d
     in brelse b (upd_log (\<lambda>l. l\<lparr>lh_n := n,
          lh_block := (\<lambda>i. if int i < n then hdr_block d i else lh_block l i)\<rparr>) s1))"

definition write_head :: "'a logst_scheme \<Rightarrow> 'a logst_scheme res" where
  "write_head s = rbind (bread (ldev (klog s)) (lstart (klog s)) s) (\<lambda>(b, s1).
     let hb = hdr_put (lh_n (klog s1)) (lh_block (klog s1)) (get_data b s1)
     in rbind (bwrite b (set_data b hb s1)) (brelse b))"

definition recover_from_log :: "'a logst_scheme \<Rightarrow> 'a logst_scheme res" where
  "recover_from_log s = rbind (read_head s) (\<lambda>s1. rbind (install_trans True s1) (\<lambda>s2.
     write_head (upd_log (\<lambda>l. l\<lparr>lh_n := 0\<rparr>) s2)))"

definition initlog :: "u32 \<Rightarrow> u32 \<Rightarrow> 'a logst_scheme \<Rightarrow> 'a logst_scheme res" where
  "initlog dev logstart s =
     (if BSIZE \<le> 4 + 4 * LOGBLOCKS then Panic ''initlog: too big logheader''
      else recover_from_log (upd_log (\<lambda>l. l\<lparr>lstart := logstart, ldev := dev\<rparr>)
        (s\<lparr>mach := initlock LogLock ''log'' (mach s)\<rparr>)))"

text \<open>\<open>begin_op\<close> waits in a loop. Each element of the environment is what the rest of the system does during one of
  its sleeps; \<open>begin_op\<close> itself is the case of the empty environment, \<open>Blocked\<close> where it has to wait.\<close>

fun begin_op_loop :: "'a logst_scheme env \<Rightarrow> 'a logst_scheme \<Rightarrow> ('a logst_scheme env \<times> 'a logst_scheme) res" where
  "begin_op_loop env s =
     (if committing (klog s)
      then (case env of [] \<Rightarrow> Blocked | e # es \<Rightarrow> rbind (sleep e ChLog LogLock s) (begin_op_loop es))
      else if lh_n (klog s) + (outstanding (klog s) + 1) * int MAXOPBLOCKS > int LOGBLOCKS
      then (case env of [] \<Rightarrow> Blocked | e # es \<Rightarrow> rbind (sleep e ChLog LogLock s) (begin_op_loop es))
      else rbind (krelease LogLock (upd_log (\<lambda>l. l\<lparr>outstanding := outstanding l + 1\<rparr>) s)) (\<lambda>s1. Ok (env, s1)))"

declare begin_op_loop.simps [simp del]

definition begin_op_env :: "'a logst_scheme env \<Rightarrow> 'a logst_scheme \<Rightarrow> ('a logst_scheme env \<times> 'a logst_scheme) res" where
  "begin_op_env env s = rbind (kacquire LogLock s) (begin_op_loop env)"

definition begin_op :: "'a logst_scheme \<Rightarrow> 'a logst_scheme res" where
  "begin_op s = rbind (begin_op_env [] s) (\<lambda>(env, s1). Ok s1)"

definition write_log1 :: "nat \<Rightarrow> 'a logst_scheme \<Rightarrow> 'a logst_scheme res" where
  "write_log1 tail s =
     rbind (bread (ldev (klog s)) (lstart (klog s) + of_nat tail + 1) s) (\<lambda>(to, s1).
     rbind (bread (ldev (klog s1)) (lh_block (klog s1) tail) s1) (\<lambda>(frm, s2).
     rbind (bwrite to (set_data to (get_data frm s2) s2)) (\<lambda>s3.
     rbind (brelse frm s3) (brelse to))))"

definition write_log :: "'a logst_scheme \<Rightarrow> 'a logst_scheme res" where
  "write_log s = rfold write_log1 [0..<nat (lh_n (klog s))] s"

definition commit :: "'a logst_scheme \<Rightarrow> 'a logst_scheme res" where
  "commit s =
     (if 0 < lh_n (klog s)
      then rbind (write_log s) (\<lambda>s1. rbind (write_head s1) (\<lambda>s2. rbind (install_trans False s2) (\<lambda>s3.
             write_head (upd_log (\<lambda>l. l\<lparr>lh_n := 0\<rparr>) s3))))
      else Ok s)"

text \<open>\<open>end_op\<close> up to the first \<open>release\<close>, with the value of \<open>do_commit\<close>, and what it does when that is set.\<close>

definition end_op_leave :: "'a logst_scheme \<Rightarrow> (bool \<times> 'a logst_scheme) res" where
  "end_op_leave s = rbind (kacquire LogLock s) (\<lambda>s1.
     let s2 = upd_log (\<lambda>l. l\<lparr>outstanding := outstanding l - 1\<rparr>) s1 in
     if committing (klog s2) then Panic ''log.committing''
     else rbind (if outstanding (klog s2) = 0 then Ok (True, upd_log (\<lambda>l. l\<lparr>committing := True\<rparr>) s2)
                 else rbind (wakeup ChLog s2) (\<lambda>s3. Ok (False, s3))) (\<lambda>(do_commit, s4).
          rbind (krelease LogLock s4) (\<lambda>s5. Ok (do_commit, s5))))"

definition end_op_commit :: "'a logst_scheme \<Rightarrow> 'a logst_scheme res" where
  "end_op_commit s = rbind (commit s) (\<lambda>s1. rbind (kacquire LogLock s1) (\<lambda>s2.
     rbind (wakeup ChLog (upd_log (\<lambda>l. l\<lparr>committing := False\<rparr>) s2)) (krelease LogLock)))"

definition end_op :: "'a logst_scheme \<Rightarrow> 'a logst_scheme res" where
  "end_op s = rbind (end_op_leave s) (\<lambda>(do_commit, s1). if do_commit then end_op_commit s1 else Ok s1)"

text \<open>The index at which \<open>log_write\<close> records a block: its present place, or the end.\<close>

definition log_slot :: "logrec \<Rightarrow> u32 \<Rightarrow> nat" where
  "log_slot l bno = (case List.find (\<lambda>i. lh_block l i = bno) [0..<nat (lh_n l)] of Some i \<Rightarrow> i | None \<Rightarrow> nat (lh_n l))"

definition log_write :: "nat \<Rightarrow> 'a logst_scheme \<Rightarrow> 'a logst_scheme res" where
  "log_write b s = rbind (kacquire LogLock s) (\<lambda>s1.
     if int LOGBLOCKS \<le> lh_n (klog s1) then Panic ''too big a transaction''
     else if outstanding (klog s1) < 1 then Panic ''log_write outside of trans''
     else
       let bno = blockno (bufs s1 b);
           i = log_slot (klog s1) bno;
           s2 = upd_log (\<lambda>l. l\<lparr>lh_block := (lh_block l)(i := bno)\<rparr>) s1
       in if int i = lh_n (klog s2)
          then rbind (bpin b s2) (\<lambda>s3. krelease LogLock (upd_log (\<lambda>l. l\<lparr>lh_n := lh_n l + 1\<rparr>) s3))
          else krelease LogLock s2)"

section \<open>Sequences of disk writes\<close>

definition applyw :: "(u32 \<times> block) list \<Rightarrow> (u32 \<Rightarrow> block) \<Rightarrow> u32 \<Rightarrow> block" where
  "applyw ws d = fold (\<lambda>(n, x) d. d(n := x)) ws d"

lemma applyw_simps [simp]: "applyw [] d = d" "applyw ((n, x) # ws) d = applyw ws (d(n := x))"
  "applyw (ws @ ws') d = applyw ws' (applyw ws d)"
  by (simp_all add: applyw_def)

lemma applyw_other: "m \<notin> fst ` set ws \<Longrightarrow> applyw ws d m = d m"
proof (induction ws arbitrary: d)
  case (Cons w ws)
  then show ?case by (cases w) auto
qed simp

lemma applyw_at: "distinct (map fst ws) \<Longrightarrow> (m, x) \<in> set ws \<Longrightarrow> applyw ws d m = x"
proof (induction ws arbitrary: d)
  case (Cons w ws)
  then show ?case by (cases w) (auto simp: applyw_other)
qed simp

text \<open>Writing values that are written again later changes nothing.\<close>

lemma applyw_prefix:
  assumes "distinct (map fst ws)"
  shows "applyw ws (applyw (take k ws) d) = applyw ws d"
proof
  fix m
  show "applyw ws (applyw (take k ws) d) m = applyw ws d m"
  proof (cases "m \<in> fst ` set ws")
    case True
    then obtain x where "(m, x) \<in> set ws" by force
    then show ?thesis using applyw_at [OF assms] by simp
  next
    case False
    then have "m \<notin> fst ` set (take k ws)" by (auto dest: in_set_takeD)
    then show ?thesis using False by (simp add: applyw_other)
  qed
qed

section \<open>The header block\<close>

lemma hdr_put_length [simp]:
  assumes "length d = BSIZE" "nat n \<le> LOGBLOCKS"
  shows "length (hdr_put n bl d) = BSIZE"
proof -
  have "length (fold (\<lambda>i. put32 (bl i) (4 + 4 * i)) is e) = BSIZE"
    if "length e = BSIZE" "\<forall>i \<in> set is. i < LOGBLOCKS" for "is" e
    using that by (induction "is" arbitrary: e) (simp_all add: BSIZE_def param_defs)
  then show ?thesis using assms by (simp add: hdr_put_def BSIZE_def)
qed

lemma hdr_puts:
  assumes "length d = BSIZE" "k \<le> LOGBLOCKS"
  shows "length (fold (\<lambda>i. put32 (bl i) (4 + 4 * i)) [0..<k] d) = BSIZE \<and>
    get32 (fold (\<lambda>i. put32 (bl i) (4 + 4 * i)) [0..<k] d) 0 = get32 d 0 \<and>
    (\<forall>i < k. get32 (fold (\<lambda>i. put32 (bl i) (4 + 4 * i)) [0..<k] d) (4 + 4 * i) = bl i)"
  using assms(2)
proof (induction k)
  case 0
  then show ?case using assms(1) by simp
next
  case (Suc k)
  let ?e = "fold (\<lambda>i. put32 (bl i) (4 + 4 * i)) [0..<k] d"
  have e: "length ?e = 1024" "k < 30" using Suc by (simp_all add: BSIZE_def param_defs)
  have "get32 (put32 (bl k) (4 + 4 * k) ?e) (4 + 4 * i) = (if i = k then bl k else get32 ?e (4 + 4 * i))" if "i \<le> k" for i
    using that e by (auto simp: get_put_le_other)
  moreover have "get32 (put32 (bl k) (4 + 4 * k) ?e) 0 = get32 ?e 0" using e by (simp add: get_put_le_other)
  ultimately show ?case using Suc e by (auto simp: BSIZE_def less_Suc_eq_le)
qed

lemma hdr_put_get:
  assumes "length d = BSIZE" "0 \<le> n" "n \<le> int LOGBLOCKS"
  shows "hdr_n (hdr_put n bl d) = n" "i < nat n \<Longrightarrow> hdr_block (hdr_put n bl d) i = bl i"
proof -
  have l: "length (put32 (word_of_int n) 0 d) = BSIZE" "nat n \<le> LOGBLOCKS" using assms by (simp_all add: BSIZE_def)
  have "sint (word_of_int n :: u32) = n" using assms by (simp add: int_word_sint param_defs)
  then show "hdr_n (hdr_put n bl d) = n"
    using hdr_puts [OF l, of bl] assms(1) by (simp add: hdr_n_def hdr_put_def BSIZE_def)
  show "i < nat n \<Longrightarrow> hdr_block (hdr_put n bl d) i = bl i"
    using hdr_puts [OF l, of bl] by (simp add: hdr_block_def hdr_put_def)
qed

section \<open>Where the log is\<close>

definition logblk :: "u32 \<Rightarrow> nat \<Rightarrow> u32" where
  "logblk st i = st + of_nat i + 1"

definition log_region :: "u32 \<Rightarrow> u32 set" where
  "log_region st = insert st (logblk st ` {0..<LOGBLOCKS})"

lemma logblk_inj: "i < LOGBLOCKS \<Longrightarrow> j < LOGBLOCKS \<Longrightarrow> logblk st i = logblk st j \<longleftrightarrow> i = j"
  by (simp add: logblk_def word_of_nat_eq_iff take_bit_nat_eq_self param_defs)

lemma logblk_start: "i < LOGBLOCKS \<Longrightarrow> logblk st i \<noteq> st"
proof
  assume i: "i < LOGBLOCKS" and "logblk st i = st"
  then have "of_nat (Suc i) = (0 :: u32)" by (simp add: logblk_def add.commute)
  then show False using i unfolding word_of_nat_eq_0_iff by (auto simp: param_defs dest: dvd_imp_le)
qed

lemma logblk_region: "i < LOGBLOCKS \<Longrightarrow> logblk st i \<in> log_region st" "st \<in> log_region st"
  by (simp_all add: log_region_def)

lemma log_region_iff:
  assumes "unat st + LOGBLOCKS < 2 ^ 32"
  shows "m \<in> log_region st \<longleftrightarrow> unat st \<le> unat m \<and> unat m \<le> unat st + LOGBLOCKS"
proof -
  have u: "unat (logblk st i) = unat st + i + 1" if "i < LOGBLOCKS" for i
    using assms that by (simp add: logblk_def unat_word_ariths unat_of_nat param_defs)
  show ?thesis
  proof
    assume "unat st \<le> unat m \<and> unat m \<le> unat st + LOGBLOCKS"
    then obtain k where k: "unat m = unat st + k" "k \<le> LOGBLOCKS" by (metis le_add_diff_inverse le_diff_conv add.commute)
    show "m \<in> log_region st"
    proof (cases k)
      case 0
      then show ?thesis using k logblk_region(2) by (metis add_0_right word_unat_eq_iff)
    next
      case (Suc i)
      then have "m = logblk st i" using k u [of i] by (simp add: word_unat_eq_iff)
      then show ?thesis using k Suc logblk_region(1) by simp
    qed
  qed (auto simp: log_region_def u)
qed

section \<open>The steps of a commit\<close>

lemma bstep_klog: "bstep s s' \<Longrightarrow> klog s' = klog s"
proof -
  assume "bstep s s'"
  then have "klog s' = klog (s\<lparr>mach := mach s', procs := procs s', slocks := slocks s', bufs := bufs s',
      disk := disk s', dwrites := dwrites s'\<rparr>)" by (intro arg_cong [where f = klog]) (simp add: bstep_def)
  then show ?thesis by simp
qed

lemma brel_klog: "brel d s0 s c \<Longrightarrow> klog s = klog s0"
  by (simp add: brel_def bstep_klog)

text \<open>Copying block \<open>a\<close> to block \<open>n\<close> through to the disk.\<close>

definition put_block :: "u32 \<Rightarrow> block \<Rightarrow> cache \<Rightarrow> cache" where
  "put_block n x c = c\<lparr>view := (view c)(n := x), cdisk := (cdisk c)(n := x), cwrites := cwrites c @ [(n, x)]\<rparr>"

lemma put_block_simps [simp]:
  "view (put_block n x c) = (view c)(n := x)" "cdisk (put_block n x c) = (cdisk c)(n := x)"
  "cwrites (put_block n x c) = cwrites c @ [(n, x)]" "pins (put_block n x c) = pins c"
  "holds (put_block n x c) = holds c" "active (put_block n x c) = active c"
  "c\<lparr>holds := h, view := (view c)(n := x), cdisk := (cdisk c)(n := x), cwrites := cwrites c @ [(n, x)]\<rparr> =
    (put_block n x c)\<lparr>holds := h\<rparr>"
  by (simp_all add: put_block_def active_def)

text \<open>What both kinds of copy need: two different blocks that nobody holds, and room for both.\<close>

definition two_free :: "cache \<Rightarrow> u32 \<Rightarrow> u32 \<Rightarrow> bool" where
  "two_free c a n \<longleftrightarrow> a \<noteq> n \<and> a \<notin> ran (holds c) \<and> n \<notin> ran (holds c) \<and> card (insert a (insert n (active c))) \<le> NBUF \<and>
     (pins c a = 0 \<longrightarrow> view c a = cdisk c a) \<and> (pins c n = 0 \<longrightarrow> view c n = cdisk c n)"

lemma write_log1_ok:
  assumes r: "brel d s0 s c" and d: "ldev (klog s0) = d"
    and t: "two_free c (logblk (lstart (klog s0)) i) (lh_block (klog s0) i)"
  shows "\<exists>s'. write_log1 i s = Ok s' \<and>
    brel d s0 s' (put_block (logblk (lstart (klog s0)) i) (view c (lh_block (klog s0) i)) c)"
proof -
  let ?a = "logblk (lstart (klog s0)) i" and ?n = "lh_block (klog s0) i"
  have f: "?a \<noteq> ?n" "?a \<notin> ran (holds c)" "?n \<notin> ran (holds c)" "card (insert ?a (insert ?n (active c))) \<le> NBUF"
    using t by (auto simp: two_free_def)
  obtain x y s1 s2 where xy: "bread d ?a s = Ok (x, s1)" "bread d ?n s1 = Ok (y, s2)" "x \<noteq> y"
      "holds c x = None" "holds c y = None" "get_data y s2 = view c ?n"
    and r1: "brel d s0 s1 (c\<lparr>holds := (holds c)(x \<mapsto> ?a)\<rparr>)"
    and r2: "brel d s0 s2 (c\<lparr>holds := (holds c)(x \<mapsto> ?a, y \<mapsto> ?n)\<rparr>)"
    using bc.rd_rd [OF r f] by blast
  obtain s3 where s3: "bwrite x (set_data x (view c ?n) s2) = Ok s3"
    "brel d s0 s3 ((put_block ?a (view c ?n) c)\<lparr>holds := (holds c)(x \<mapsto> ?a, y \<mapsto> ?n)\<rparr>)"
    using bc.put_wr [OF r2, of x ?a "view c ?n"] xy(3) by auto
  obtain s4 s5 where s5: "brelse y s3 = Ok s4" "brelse x s4 = Ok s5" "brel d s0 s5 (put_block ?a (view c ?n) c)"
    using bc.rls_rls(2) [of d s0 s3 "put_block ?a (view c ?n) c" x ?a y ?n] s3(2) xy(3-5) t
    by (auto simp: two_free_def)
  have "klog s = klog s0" "klog s1 = klog s0"
    using brel_klog [OF r] brel_klog [OF r1] by auto
  then show ?thesis using xy s3 s5 d by (auto simp: write_log1_def logblk_def)
qed

definition unpin_block :: "bool \<Rightarrow> u32 \<Rightarrow> cache \<Rightarrow> cache" where
  "unpin_block recovering n c = (if recovering then c else c\<lparr>pins := (pins c)(n := pins c n - 1)\<rparr>)"

lemma unpin_block_simps [simp]:
  "view (unpin_block r n c) = view c" "cdisk (unpin_block r n c) = cdisk c" "cwrites (unpin_block r n c) = cwrites c"
  "holds (unpin_block r n c) = holds c"
  by (simp_all add: unpin_block_def)

lemma pins_holds: "c\<lparr>holds := h, pins := p\<rparr> = (c :: cache)\<lparr>pins := p, holds := h\<rparr>"
  by simp

lemma install_trans1_ok:
  assumes r: "brel d s0 s c" and d: "ldev (klog s0) = d"
    and t: "two_free c (logblk (lstart (klog s0)) i) (lh_block (klog s0) i)"
    and p: "\<not> rc \<Longrightarrow> 0 < pins c (lh_block (klog s0) i)"
  shows "\<exists>s'. install_trans1 rc i s = Ok s' \<and> brel d s0 s'
    (unpin_block rc (lh_block (klog s0) i) (put_block (lh_block (klog s0) i) (view c (logblk (lstart (klog s0)) i)) c))"
proof -
  let ?a = "logblk (lstart (klog s0)) i" and ?n = "lh_block (klog s0) i"
  have f: "?a \<noteq> ?n" "?a \<notin> ran (holds c)" "?n \<notin> ran (holds c)" "card (insert ?a (insert ?n (active c))) \<le> NBUF"
    using t by (auto simp: two_free_def)
  obtain x y s1 s2 where xy: "bread d ?a s = Ok (x, s1)" "bread d ?n s1 = Ok (y, s2)" "x \<noteq> y"
      "holds c x = None" "holds c y = None" "get_data x s2 = view c ?a"
    and r1: "brel d s0 s1 (c\<lparr>holds := (holds c)(x \<mapsto> ?a)\<rparr>)"
    and r2: "brel d s0 s2 (c\<lparr>holds := (holds c)(x \<mapsto> ?a, y \<mapsto> ?n)\<rparr>)"
    using bc.rd_rd [OF r f] by blast
  let ?c = "put_block ?n (view c ?a) c"
  obtain s3 where s3: "bwrite y (set_data y (view c ?a) s2) = Ok s3"
    "brel d s0 s3 (?c\<lparr>holds := (holds c)(x \<mapsto> ?a, y \<mapsto> ?n)\<rparr>)"
    using bc.put_wr [OF r2, of y ?n "view c ?a"] by auto
  obtain s4 where s4: "(if rc then Ok s3 else bunpin y s3) = Ok s4"
    "brel d s0 s4 ((unpin_block rc ?n ?c)\<lparr>holds := (holds c)(x \<mapsto> ?a, y \<mapsto> ?n)\<rparr>)"
    using s3(2) bc.unpin_ok [OF s3(2), of y ?n] p by (cases rc) (auto simp: unpin_block_def pins_holds)
  have "pins (unpin_block rc ?n ?c) ?a = pins c ?a" using f(1) by (simp add: unpin_block_def)
  then obtain s5 s6 where s6: "brelse x s4 = Ok s5" "brelse y s5 = Ok s6" "brel d s0 s6 (unpin_block rc ?n ?c)"
    using bc.rls_rls(1) [of d s0 s4 "unpin_block rc ?n ?c" x ?a y ?n] s4(2) xy(3-5) t
    by (auto simp: two_free_def)
  have "klog s = klog s0" "klog s1 = klog s0" using brel_klog [OF r] brel_klog [OF r1] by auto
  then show ?thesis using xy s3 s4 s6 d by (auto simp: install_trans1_def logblk_def)
qed

lemma write_head_ok:
  assumes r: "bio_rel d s c" and d: "ldev (klog s) = d" "lstart (klog s) \<notin> ran (holds c)" "room c (lstart (klog s))"
  shows "\<exists>s'. write_head s = Ok s' \<and> brel d s s' (put_block (lstart (klog s))
    (hdr_put (lh_n (klog s)) (lh_block (klog s)) (view c (lstart (klog s)))) c)"
proof -
  let ?n = "lstart (klog s)" and ?x = "hdr_put (lh_n (klog s)) (lh_block (klog s)) (view c (lstart (klog s)))"
  obtain b s1 s2 s3 where b: "bread d ?n s = Ok (b, s1)" "get_data b s1 = view c ?n" "bwrite b (set_data b ?x s1) = Ok s2"
    "brelse b s2 = Ok s3" "brel d s s3 (put_block ?n ?x c)" "bstep s s1"
    using bc.rd_put_wr_rls [OF brel_start [OF r] d(2,3), of ?x] by (auto simp: put_block_def brel_def)
  then show ?thesis using d bstep_klog [of s s1] by (auto simp: write_head_def)
qed

definition put_blocks :: "(u32 \<times> block) list \<Rightarrow> cache \<Rightarrow> cache" where
  "put_blocks ws c = c\<lparr>view := applyw ws (view c), cdisk := applyw ws (cdisk c), cwrites := cwrites c @ ws\<rparr>"

lemma put_blocks_simps [simp]:
  "view (put_blocks ws c) = applyw ws (view c)" "cdisk (put_blocks ws c) = applyw ws (cdisk c)"
  "cwrites (put_blocks ws c) = cwrites c @ ws" "pins (put_blocks ws c) = pins c" "holds (put_blocks ws c) = holds c"
  "active (put_blocks ws c) = active c" "put_blocks [] c = c"
  "put_block n x (put_blocks ws c) = put_blocks (ws @ [(n, x)]) c"
  "put_block n x (c\<lparr>pins := p\<rparr>) = (put_block n x c)\<lparr>pins := p\<rparr>"
  "put_blocks ws (put_blocks ws' c) = put_blocks (ws' @ ws) c"
  by (simp_all add: put_blocks_def put_block_def active_def)

lemma put_block_blocks: "put_block n x c = put_blocks [(n, x)] c"
  by (simp add: put_blocks_def put_block_def)

lemma applyw_eq_at: "f m = g m \<Longrightarrow> applyw ws f m = applyw ws g m"
proof (induction ws arbitrary: f g)
  case (Cons w ws)
  obtain n x where w: "w = (n, x)" by (cases w)
  have "(f(n := x)) m = (g(n := x)) m" using Cons.prems by simp
  from Cons.IH [of "f(n := x)" "g(n := x)", OF this] show ?case by (simp only: w applyw_simps)
qed simp

text \<open>A log record and the cache during a transaction: the logged blocks are distinct, lie outside the
  log, and are exactly the pinned ones; the header on disk says that the log is empty.\<close>

definition logged :: "logrec \<Rightarrow> u32 set" where
  "logged L = lh_block L ` {0..<nat (lh_n L)}"

definition in_trans :: "logrec \<Rightarrow> cache \<Rightarrow> bool" where
  "in_trans L c \<longleftrightarrow> 0 \<le> lh_n L \<and> lh_n L < int LOGBLOCKS \<and> holds c = (\<lambda>_. None) \<and>
     inj_on (lh_block L) {0..<nat (lh_n L)} \<and> (\<forall>m \<in> logged L. m \<notin> log_region (lstart L)) \<and>
     pins c = (\<lambda>m. if m \<in> logged L then 1 else 0) \<and> length (view c (lstart L)) = BSIZE \<and>
     (\<forall>m. m \<notin> logged L \<longrightarrow> view c m = cdisk c m) \<and> hdr_n (cdisk c (lstart L)) = 0"

lemma in_transD:
  assumes "in_trans L c"
  shows "nat (lh_n L) < LOGBLOCKS" "holds c = (\<lambda>_. None)" "active c = logged L" "card (logged L) = nat (lh_n L)"
    "i < nat (lh_n L) \<Longrightarrow> lh_block L i \<in> logged L" "i < nat (lh_n L) \<Longrightarrow> lh_block L i \<notin> log_region (lstart L)"
    "m \<in> log_region (lstart L) \<Longrightarrow> m \<notin> logged L" "m \<notin> logged L \<Longrightarrow> view c m = cdisk c m"
    "pins c m = (if m \<in> logged L then 1 else 0)" "int (nat (lh_n L)) = lh_n L"
    "length (view c (lstart L)) = BSIZE" "hdr_n (cdisk c (lstart L)) = 0"
  using assms by (auto simp: in_trans_def active_def logged_def card_image)

definition log_writes :: "logrec \<Rightarrow> (u32 \<Rightarrow> block) \<Rightarrow> nat \<Rightarrow> (u32 \<times> block) list" where
  "log_writes L v k = map (\<lambda>i. (logblk (lstart L) i, v (lh_block L i))) [0..<k]"

definition home_writes :: "logrec \<Rightarrow> (u32 \<Rightarrow> block) \<Rightarrow> nat \<Rightarrow> (u32 \<times> block) list" where
  "home_writes L v k = map (\<lambda>i. (lh_block L i, v (logblk (lstart L) i))) [0..<k]"

lemma fst_log_writes: "fst ` set (log_writes L v k) = logblk (lstart L) ` {0..<k}"
  and fst_home_writes: "fst ` set (home_writes L v k) = lh_block L ` {0..<k}"
  by (force simp: log_writes_def home_writes_def)+

lemma write_log_ok:
  assumes r: "bio_rel d s c" and d: "ldev (klog s) = d" and t: "in_trans (klog s) c" and k: "k \<le> nat (lh_n (klog s))"
  shows "\<exists>s'. rfold write_log1 [0..<k] s = Ok s' \<and> brel d s s' (put_blocks (log_writes (klog s) (view c) k) c)"
  using k
proof (induction k)
  case 0
  then show ?case using brel_start [OF r] by (simp add: log_writes_def)
next
  case (Suc k)
  let ?L = "klog s" and ?c = "put_blocks (log_writes (klog s) (view c) k) c"
  let ?a = "logblk (lstart ?L) k" and ?n = "lh_block ?L k"
  obtain s1 where s1: "rfold write_log1 [0..<k] s = Ok s1" "brel d s s1 ?c" using Suc by auto
  have k: "k < nat (lh_n ?L)" "k < LOGBLOCKS" using Suc.prems in_transD(1) [OF t] by linarith+
  have a: "?a \<in> log_region (lstart ?L)" using logblk_region k by blast
  have vn: "applyw (log_writes ?L (view c) k) (view c) ?n = view c ?n"
    using in_transD(6) [OF t k(1)] k logblk_region(1) [of _ "lstart ?L"]
    by (intro applyw_other) (auto simp: fst_log_writes)
  have "card (insert ?a (logged ?L)) \<le> NBUF"
    using in_transD(1,4) [OF t] card_insert_le_m1 [of NBUF "logged ?L" ?a] by (simp add: param_defs)
  then have "two_free ?c ?a ?n"
    using in_transD(2,3) [OF t] in_transD(5,6) [OF t k(1)] in_transD(7) [OF t a] a in_transD(8,9) [OF t]
    by (auto simp: two_free_def insert_absorb intro!: applyw_eq_at)
  from write_log1_ok [OF s1(2) d this]
  show ?case using s1(1) vn by (auto simp: rfold_append log_writes_def)
qed

text \<open>Installing works on a committed transaction whose blocks are pinned, and after a restart on one
  whose blocks are not.\<close>

definition inst_ok :: "bool \<Rightarrow> logrec \<Rightarrow> cache \<Rightarrow> bool" where
  "inst_ok rc L c \<longleftrightarrow> nat (lh_n L) \<le> LOGBLOCKS \<and> holds c = (\<lambda>_. None) \<and>
     inj_on (lh_block L) {0..<nat (lh_n L)} \<and> (\<forall>m \<in> logged L. m \<notin> log_region (lstart L)) \<and>
     (\<forall>i < nat (lh_n L). card (insert (logblk (lstart L) i) (insert (lh_block L i) (active c))) \<le> NBUF) \<and>
     (\<forall>m. pins c m = 0 \<longrightarrow> view c m = cdisk c m) \<and> (\<not> rc \<longrightarrow> (\<forall>m \<in> logged L. 0 < pins c m))"

definition installed :: "bool \<Rightarrow> logrec \<Rightarrow> nat \<Rightarrow> cache \<Rightarrow> cache" where
  "installed rc L k c = (put_blocks (home_writes L (view c) k) c)
     \<lparr>pins := (\<lambda>m. if \<not> rc \<and> m \<in> lh_block L ` {0..<k} then pins c m - 1 else pins c m)\<rparr>"

lemma installed_Suc:
  assumes "inj_on (lh_block L) {0..<n}" "k < n"
  shows "unpin_block rc (lh_block L k) (put_block (lh_block L k) (view c (logblk (lstart L) k)) (installed rc L k c)) =
    installed rc L (Suc k) c"
proof -
  have k: "lh_block L k \<notin> lh_block L ` {0..<k}" using assms inj_on_image_mem_iff [OF assms(1), of k "{0..<k}"] by auto
  have i: "lh_block L ` {0..<Suc k} = insert (lh_block L k) (lh_block L ` {0..<k})" by (simp add: atLeast0_lessThan_Suc)
  show ?thesis
    using k by (cases rc) (auto simp: installed_def unpin_block_def home_writes_def i intro!: cache.equality)
qed

lemma install_loop:
  assumes r: "bio_rel d s c" and d: "ldev (klog s) = d" and t: "inst_ok rc (klog s) c" and k: "k \<le> nat (lh_n (klog s))"
  shows "\<exists>s'. rfold (install_trans1 rc) [0..<k] s = Ok s' \<and> brel d s s' (installed rc (klog s) k c)"
  using k
proof (induction k)
  case 0
  have "installed rc (klog s) 0 c = c" by (simp add: installed_def home_writes_def)
  then show ?case using brel_start [OF r] by simp
next
  case (Suc k)
  let ?L = "klog s" and ?c = "installed rc (klog s) k c"
  let ?a = "logblk (lstart ?L) k" and ?n = "lh_block ?L k"
  obtain s1 where s1: "rfold (install_trans1 rc) [0..<k] s = Ok s1" "brel d s s1 ?c" using Suc by auto
  have k: "k < nat (lh_n ?L)" "k < LOGBLOCKS" using Suc.prems t by (auto simp: inst_ok_def)
  have inj: "inj_on (lh_block ?L) {0..<nat (lh_n ?L)}" using t by (simp add: inst_ok_def)
  have n: "?n \<in> logged ?L" "?n \<notin> lh_block ?L ` {0..<k}"
    using k inj_on_image_mem_iff [OF inj, of k "{0..<k}"] by (auto simp: logged_def)
  have a: "?a \<in> log_region (lstart ?L)" "?a \<notin> logged ?L" using logblk_region(1) [OF k(2)] t by (auto simp: inst_ok_def)
  have na: "?a \<notin> lh_block ?L ` {0..<k}" using a(2) k by (auto simp: logged_def)
  then have va: "view ?c ?a = view c ?a" "cdisk ?c ?a = cdisk c ?a" "pins ?c ?a = pins c ?a"
    by (simp_all add: installed_def applyw_other fst_home_writes)
  have pn: "view ?c ?n = view c ?n" "cdisk ?c ?n = cdisk c ?n" "pins ?c ?n = pins c ?n" "holds ?c = holds c"
    using n by (simp_all add: installed_def applyw_other fst_home_writes)
  have "active ?c \<subseteq> active c" by (auto simp: active_def installed_def split: if_splits)
  then have "card (insert ?a (insert ?n (active ?c))) \<le> card (insert ?a (insert ?n (active c)))"
    by (intro card_mono) auto
  moreover have "?a \<noteq> ?n" using a n by auto
  ultimately have "two_free ?c ?a ?n"
    using t k(1) unfolding two_free_def inst_ok_def va pn by (auto intro: le_trans)
  moreover have "0 < pins ?c ?n" if "\<not> rc" using that t n pn by (simp add: inst_ok_def)
  ultimately obtain s2 where "install_trans1 rc k s1 = Ok s2"
      "brel d s s2 (unpin_block rc ?n (put_block ?n (view ?c ?a) ?c))"
    using install_trans1_ok [OF s1(2) d, of k rc] by blast
  then show ?case using s1(1) installed_Suc [OF inj k(1), of rc c] va by (simp add: rfold_append)
qed

lemma bio_rel_upd_log [simp]: "bio_rel d (upd_log f s) c = bio_rel d s c" "bio_rel d (s\<lparr>klog := L\<rparr>) c = bio_rel d s c"
  by (simp_all add: bio_rel_def bio_env_def proc_locks_ok_def myproc_def my_pid_def upd_log_def)

lemma bstep_upd_log:
  assumes "bstep s s'"
  shows "bstep (s\<lparr>klog := L\<rparr>) (s'\<lparr>klog := L\<rparr>)"
proof -
  have "s' = s\<lparr>mach := mach s', procs := procs s', slocks := slocks s', bufs := bufs s', disk := disk s', dwrites := dwrites s'\<rparr>"
    using assms by (simp add: bstep_def)
  then have "s'\<lparr>klog := L\<rparr> = s\<lparr>mach := mach s', procs := procs s', slocks := slocks s', bufs := bufs s', disk := disk s', dwrites := dwrites s'\<rparr>\<lparr>klog := L\<rparr>"
    by (rule arg_cong [where f = "\<lambda>s. s\<lparr>klog := L\<rparr>"])
  also have "\<dots> = s\<lparr>klog := L\<rparr>\<lparr>mach := mach s', procs := procs s', slocks := slocks s', bufs := bufs s', disk := disk s', dwrites := dwrites s'\<rparr>"
    by simp
  finally show ?thesis using assms by (simp add: bstep_def)
qed

definition commit_writes :: "logrec \<Rightarrow> (u32 \<Rightarrow> block) \<Rightarrow> (u32 \<times> block) list" where
  "commit_writes L v =
     (let n = nat (lh_n L); st = lstart L; h = hdr_put (lh_n L) (lh_block L) (v st)
      in log_writes L v n @ [(st, h)] @ map (\<lambda>i. (lh_block L i, v (lh_block L i))) [0..<n] @
         [(st, hdr_put 0 (lh_block L) h)])"

lemma applyw_log_writes:
  assumes "n \<le> LOGBLOCKS" "i < n"
  shows "applyw (log_writes L v n) d (logblk (lstart L) i) = v (lh_block L i)"
proof (rule applyw_at)
  have "inj_on (logblk (lstart L)) {0..<n}" using assms by (auto simp: inj_on_def logblk_inj)
  then show "distinct (map fst (log_writes L v n))"
    by (simp add: log_writes_def distinct_map comp_def)
qed (use assms in \<open>auto simp: log_writes_def\<close>)

lemma applyw_log_writes_other: "m \<notin> log_region (lstart L) \<or> m = lstart L \<Longrightarrow> n \<le> LOGBLOCKS \<Longrightarrow> applyw (log_writes L v n) d m = d m"
  using logblk_start [of _ "lstart L"] logblk_region(1) [of _ "lstart L"]
  by (intro applyw_other) (auto simp: fst_log_writes)

lemma commit_ok:
  assumes r: "bio_rel d s c" and d: "ldev (klog s) = d" and t: "in_trans (klog s) c" and n: "0 < lh_n (klog s)"
  shows "\<exists>s'. commit s = Ok s' \<and> klog s' = (klog s)\<lparr>lh_n := 0\<rparr> \<and> bstep (s\<lparr>klog := klog s'\<rparr>) s' \<and>
    bio_rel d s' ((put_blocks (commit_writes (klog s) (view c)) c)\<lparr>pins := (\<lambda>_. 0)\<rparr>)"
proof -
  define L where "L = klog s"
  define N where "N = nat (lh_n L)"
  let ?st = "lstart L" and ?h = "hdr_put (lh_n L) (lh_block L) (view c (lstart L))"
  let ?w1 = "log_writes L (view c) N"
  have N: "N < LOGBLOCKS" using in_transD(1) [OF t] by (simp add: N_def L_def)
  have t': "in_trans L c" using t by (simp add: L_def)
  obtain s1 where s1: "write_log s = Ok s1" "brel d s s1 (put_blocks ?w1 c)"
    using write_log_ok [OF r d t order_refl] by (auto simp: write_log_def L_def N_def)
  have L1: "klog s1 = L" using brel_klog [OF s1(2)] by (simp add: L_def)
  have v1: "applyw ?w1 (view c) ?st = view c ?st" using N by (intro applyw_log_writes_other) auto
  have "room (put_blocks ?w1 c) ?st"
    using in_transD(3,4) [OF t'] N card_insert_le_m1 [of NBUF "logged L" ?st] by (simp add: room_def N_def param_defs)
  then obtain s2 where s2: "write_head s1 = Ok s2" "brel d s1 s2 (put_blocks (?w1 @ [(?st, ?h)]) c)"
    using write_head_ok [of d s1 "put_blocks ?w1 c"] s1(2) L1 d in_transD(2) [OF t'] v1 by (auto simp: brel_def L_def)
  have L2: "klog s2 = L" using brel_klog [OF s2(2)] L1 by simp
  let ?c2 = "put_blocks (?w1 @ [(?st, ?h)]) c"
  have "card (insert a (insert b (active ?c2))) \<le> NBUF" if "b \<in> logged L" for a b
    using in_transD(3,4) [OF t'] N that card_insert_le_m1 [of NBUF "logged L" a]
    by (simp add: insert_absorb N_def param_defs)
  then have i2: "inst_ok False L ?c2"
    using t' in_transD(5) [OF t'] by (auto simp: inst_ok_def in_trans_def intro!: applyw_eq_at)
  then obtain s3 where s3: "install_trans False s2 = Ok s3" "brel d s2 s3 (installed False L N ?c2)"
    using install_loop [of d s2 ?c2 False N] s2(2) L2 d by (auto simp: install_trans_def brel_def N_def L_def)
  have L3: "klog s3 = L" using brel_klog [OF s3(2)] L2 by simp
  have hw: "home_writes L (view ?c2) N = map (\<lambda>i. (lh_block L i, view c (lh_block L i))) [0..<N]"
    using N by (auto simp: home_writes_def applyw_log_writes logblk_start)
  have pz: "(\<lambda>m. if \<not> False \<and> m \<in> lh_block L ` {0..<N} then pins ?c2 m - 1 else pins ?c2 m) = (\<lambda>_. 0)"
    using in_transD(9) [OF t'] by (auto simp: logged_def N_def)
  let ?w3 = "?w1 @ (?st, ?h) # map (\<lambda>i. (lh_block L i, view c (lh_block L i))) [0..<N]"
  have c3: "installed False L N ?c2 = (put_blocks ?w3 c)\<lparr>pins := (\<lambda>_. 0)\<rparr>"
    unfolding installed_def pz hw by simp
  have st: "?st \<notin> fst ` set (map (\<lambda>i. (lh_block L i, view c (lh_block L i))) [0..<N])"
    using in_transD(7) [OF t' logblk_region(2)] by (auto simp: logged_def N_def)
  have v3: "applyw ?w3 (view c) ?st = ?h" using applyw_other [OF st] by simp
  let ?s4 = "upd_log (\<lambda>l. l\<lparr>lh_n := 0\<rparr>) s3"
  have "room ((put_blocks ?w3 c)\<lparr>pins := (\<lambda>_. 0)\<rparr>) ?st"
    using in_transD(2) [OF t'] by (simp add: room_def active_def param_defs)
  then obtain s5 where s5: "write_head ?s4 = Ok s5"
    "brel d ?s4 s5 (put_block ?st (hdr_put 0 (lh_block L) ?h) ((put_blocks ?w3 c)\<lparr>pins := (\<lambda>_. 0)\<rparr>))"
    using write_head_ok [of d ?s4 "(put_blocks ?w3 c)\<lparr>pins := (\<lambda>_. 0)\<rparr>"] s3(2) L3 d in_transD(2) [OF t'] v3 c3
    by (auto simp: brel_def upd_log_def L_def)
  have k: "klog s5 = L\<lparr>lh_n := 0\<rparr>" using brel_klog [OF s5(2)] L3 by (simp add: upd_log_def)
  have "bstep s s3" using bstep_trans [OF bstep_trans, of s s1 s2 s3] s1(2) s2(2) s3(2) by (simp add: brel_def)
  then have "bstep (s\<lparr>klog := klog s5\<rparr>) ?s4" using bstep_upd_log [of s s3 "klog s5"] L3 k by (simp add: upd_log_def)
  then have "bstep (s\<lparr>klog := klog s5\<rparr>) s5" using s5(2) bstep_trans [of "s\<lparr>klog := klog s5\<rparr>" ?s4 s5] by (simp add: brel_def)
  moreover have "commit_writes L (view c) = ?w3 @ [(?st, hdr_put 0 (lh_block L) ?h)]"
    by (simp add: commit_writes_def Let_def N_def)
  ultimately show ?thesis
    using s1 s2 s3 s5 k n by (simp add: commit_def brel_def L_def)
qed

section \<open>Recovery\<close>

text \<open>The writes a restart makes to the home locations, for a log that starts at \<open>st\<close>.\<close>

definition installs :: "u32 \<Rightarrow> (u32 \<Rightarrow> block) \<Rightarrow> (u32 \<times> block) list" where
  "installs st dk = map (\<lambda>i. (hdr_block (dk st) i, dk (logblk st i))) [0..<nat (hdr_n (dk st))]"

definition log_ok :: "u32 \<Rightarrow> (u32 \<Rightarrow> block) \<Rightarrow> bool" where
  "log_ok st dk \<longleftrightarrow> length (dk st) = BSIZE \<and> hdr_n (dk st) \<le> int LOGBLOCKS \<and>
     inj_on (hdr_block (dk st)) {0..<nat (hdr_n (dk st))} \<and>
     (\<forall>i < nat (hdr_n (dk st)). hdr_block (dk st) i \<notin> log_region st)"

lemma distinct_installs: "log_ok st dk \<Longrightarrow> distinct (map fst (installs st dk))"
  by (simp add: installs_def log_ok_def distinct_map comp_def)

lemma installs_home: "log_ok st dk \<Longrightarrow> m \<in> log_region st \<Longrightarrow> m \<notin> fst ` set (installs st dk)"
  by (auto simp: installs_def log_ok_def)

lemma read_head_ok:
  assumes r: "bio_rel d s (idle_cache dk w)" and d: "ldev (klog s) = d"
  shows "\<exists>s'. read_head s = Ok s' \<and> bio_rel d s' (idle_cache dk w) \<and> bstep (s\<lparr>klog := klog s'\<rparr>) s' \<and>
    lstart (klog s') = lstart (klog s) \<and> ldev (klog s') = d \<and> lh_n (klog s') = hdr_n (dk (lstart (klog s))) \<and>
    (\<forall>i < nat (hdr_n (dk (lstart (klog s)))). lh_block (klog s') i = hdr_block (dk (lstart (klog s))) i)"
proof -
  let ?st = "lstart (klog s)"
  obtain b s1 where b: "bread d ?st s = Ok (b, s1)" "brel d s s1 ((idle_cache dk w)\<lparr>holds := [b \<mapsto> ?st]\<rparr>)"
    using bc.rd_ok [OF brel_start [OF r], of ?st] by auto
  have g: "get_data b s1 = dk ?st" using bc.get_ok [OF b(2), of b ?st] by simp
  have k1: "klog s1 = klog s" using brel_klog [OF b(2)] .
  define L where "L = (klog s)\<lparr>lh_n := hdr_n (dk ?st),
    lh_block := (\<lambda>i. if int i < hdr_n (dk ?st) then hdr_block (dk ?st) i else lh_block (klog s) i)\<rparr>"
  have "brel d (s\<lparr>klog := L\<rparr>) (s1\<lparr>klog := L\<rparr>) ((idle_cache dk w)\<lparr>holds := [b \<mapsto> ?st]\<rparr>)"
    using b(2) bstep_upd_log [of s s1 L] by (simp add: brel_def)
  then obtain s2 where s2: "brelse b (s1\<lparr>klog := L\<rparr>) = Ok s2"
      "brel d (s\<lparr>klog := L\<rparr>) s2 ((idle_cache dk w)\<lparr>holds := [b \<mapsto> ?st]\<rparr>\<lparr>holds := (\<lambda>_. None)\<rparr>)"
    using bc.rls_ok [of d "s\<lparr>klog := L\<rparr>" "s1\<lparr>klog := L\<rparr>" "(idle_cache dk w)\<lparr>holds := [b \<mapsto> ?st]\<rparr>" b ?st] by auto
  have i: "(idle_cache dk w)\<lparr>holds := [b \<mapsto> ?st]\<rparr>\<lparr>holds := (\<lambda>_. None)\<rparr> = idle_cache dk w" by (simp add: idle_cache_def)
  have k2: "klog s2 = L" using brel_klog [OF s2(2)] by simp
  have "read_head s = Ok s2" using b(1) s2(1) d g k1 by (simp add: read_head_def upd_log_def L_def Let_def cong: if_cong)
  then show ?thesis using s2(2) k2 i d by (auto simp: brel_def L_def)
qed

lemma recover_ok:
  assumes r: "bio_rel d s (idle_cache dk w)" and d: "ldev (klog s) = d" and ok: "log_ok (lstart (klog s)) dk"
  shows "\<exists>s' h. recover_from_log s = Ok s' \<and> length h = BSIZE \<and> hdr_n h = 0 \<and> lh_n (klog s') = 0 \<and>
    bio_rel d s' (idle_cache ((applyw (installs (lstart (klog s)) dk) dk)(lstart (klog s) := h))
      (w @ installs (lstart (klog s)) dk @ [(lstart (klog s), h)]))"
proof -
  let ?st = "lstart (klog s)"
  obtain s1 where s1: "read_head s = Ok s1" "bio_rel d s1 (idle_cache dk w)" "lstart (klog s1) = ?st" "ldev (klog s1) = d"
      "lh_n (klog s1) = hdr_n (dk ?st)" "\<And>i. i < nat (hdr_n (dk ?st)) \<Longrightarrow> lh_block (klog s1) i = hdr_block (dk ?st) i"
    using read_head_ok [OF r d] by blast
  have "inst_ok True (klog s1) (idle_cache dk w)"
    using ok s1(3,5,6) by (auto simp: inst_ok_def log_ok_def logged_def inj_on_def active_def param_defs card_insert_if)
  from install_loop [OF s1(2,4) this order_refl]
  obtain s2 where s2: "install_trans True s1 = Ok s2"
      "brel d s1 s2 (installed True (klog s1) (nat (lh_n (klog s1))) (idle_cache dk w))"
    by (auto simp: install_trans_def)
  have h: "home_writes (klog s1) dk (nat (hdr_n (dk ?st))) = installs ?st dk"
    using s1(3,6) by (simp add: home_writes_def installs_def)
  have c2: "installed True (klog s1) (nat (lh_n (klog s1))) (idle_cache dk w) =
      idle_cache (applyw (installs ?st dk) dk) (w @ installs ?st dk)"
    using h s1(5) by (simp add: installed_def idle_cache_def put_blocks_def)
  have L2: "klog s2 = klog s1" using brel_klog [OF s2(2)] .
  let ?s3 = "upd_log (\<lambda>l. l\<lparr>lh_n := 0\<rparr>) s2"
  have "?st \<notin> fst ` set (installs ?st dk)"
    using ok logblk_region(2) [of ?st] by (auto simp: installs_def log_ok_def)
  then have st: "applyw (installs ?st dk) dk ?st = dk ?st" by (rule applyw_other)
  let ?h = "hdr_put 0 (lh_block (klog s1)) (dk ?st)"
  obtain s4 where s4: "write_head ?s3 = Ok s4"
      "brel d ?s3 s4 (put_block ?st ?h (idle_cache (applyw (installs ?st dk) dk) (w @ installs ?st dk)))"
    using write_head_ok [of d ?s3 "idle_cache (applyw (installs ?st dk) dk) (w @ installs ?st dk)"] s2(2) c2 L2 s1(3,4) st
    by (auto simp: brel_def upd_log_def)
  have "lh_n (klog s4) = 0" using brel_klog [OF s4(2)] by (simp add: upd_log_def)
  moreover have "length ?h = BSIZE" "hdr_n ?h = 0" using ok hdr_put_get(1) [of "dk ?st" 0] by (auto simp: log_ok_def)
  moreover have "bio_rel d s4 (idle_cache ((applyw (installs ?st dk) dk)(?st := ?h)) (w @ installs ?st dk @ [(?st, ?h)]))"
    using s4(2) by (simp add: brel_def put_block_def idle_cache_def)
  ultimately show ?thesis using s1(1) s2(1) s4(1)
    by (intro exI [of _ s4] exI [of _ ?h]) (simp add: recover_from_log_def)
qed

section \<open>Crash safety\<close>

lemma log_ok_empty: "length (dk st) = BSIZE \<Longrightarrow> hdr_n (dk st) = 0 \<Longrightarrow> log_ok st dk \<and> installs st dk = []"
  by (simp add: log_ok_def installs_def)

text \<open>The disk at any point of a commit, as recovery sees it: before the header is written the log is
  empty; from then on it describes the whole transaction.\<close>

lemma commit_crash_disk:
  fixes k :: nat
  assumes t: "in_trans L c" and n: "0 < lh_n L"
  defines "dk \<equiv> applyw (take k (commit_writes L (view c))) (cdisk c)"
  shows "log_ok (lstart L) dk \<and> (\<forall>m. m \<notin> log_region (lstart L) \<longrightarrow>
    applyw (installs (lstart L) dk) dk m = (if k \<le> nat (lh_n L) then cdisk c m else view c m) \<and>
    (2 * nat (lh_n L) + 2 \<le> k \<longrightarrow> dk m = view c m))"
proof -
  define N where "N = nat (lh_n L)"
  let ?st = "lstart L" and ?h = "hdr_put (lh_n L) (lh_block L) (view c (lstart L))"
  let ?w1 = "log_writes L (view c) N" and ?w2 = "map (\<lambda>i. (lh_block L i, view c (lh_block L i))) [0..<N]"
  let ?e = "hdr_put 0 (lh_block L) ?h"
  define d1 where "d1 = applyw (?w1 @ [(?st, ?h)]) (cdisk c)"
  have ws: "commit_writes L (view c) = ?w1 @ [(?st, ?h)] @ ?w2 @ [(?st, ?e)]"
    by (simp add: commit_writes_def Let_def N_def)
  have lw: "length ?w1 = N" by (simp add: log_writes_def)
  have N: "N < LOGBLOCKS" "int N = lh_n L" using in_transD(1,10) [OF t] by (auto simp: N_def)
  have len: "length (view c ?st) = BSIZE" "length (cdisk c ?st) = BSIZE" "hdr_n (cdisk c ?st) = 0"
    using in_transD(8) [OF t in_transD(7) [OF t logblk_region(2)]] in_transD(11,12) [OF t] by simp_all
  have hh: "length ?h = BSIZE" "hdr_n ?h = lh_n L" "\<And>i. i < N \<Longrightarrow> hdr_block ?h i = lh_block L i" "length ?e = BSIZE" "hdr_n ?e = 0"
    using hdr_put_get [OF len(1), where n = "lh_n L" and bl = "lh_block L"] len n N
      hdr_put_get(1) [of ?h 0 "lh_block L"] by (simp_all add: N_def)
  have home: "m \<notin> fst ` set ?w2" if "m \<in> log_region ?st" for m
    using in_transD(7) [OF t that] by (auto simp: logged_def N_def)
  have d1: "m \<notin> log_region ?st \<Longrightarrow> d1 m = cdisk c m" "d1 ?st = ?h" "i < N \<Longrightarrow> d1 (logblk ?st i) = view c (lh_block L i)" for m i
    using N logblk_start [of i ?st] logblk_region(2) [of ?st]
    by (auto simp: d1_def applyw_log_writes_other applyw_log_writes)
  have d2: "applyw ?w2 d1 m = view c m" if "m \<notin> log_region ?st" for m
  proof (cases "m \<in> logged L")
    case True
    have "distinct (map fst ?w2)" using t by (simp add: in_trans_def N_def distinct_map comp_def)
    moreover have "(m, view c m) \<in> set ?w2" using True by (auto simp: logged_def N_def)
    ultimately show ?thesis by (rule applyw_at)
  next
    case False
    then have "m \<notin> fst ` set ?w2" by (auto simp: logged_def N_def)
    then show ?thesis using False in_transD(8) [OF t False] d1(1) [OF that] by (simp add: applyw_other)
  qed
  have "k \<le> N \<or> (\<exists>j. k = Suc N + j \<and> j \<le> N) \<or> 2 * N + 2 \<le> k" by (cases "k \<le> N") (auto intro: exI [of _ "k - Suc N"])
  then consider "k \<le> N" | j where "k = Suc N + j" "j \<le> N" | "2 * N + 2 \<le> k" by blast
  then show ?thesis
  proof cases
    case 1
    then have "take k ?w1 = log_writes L (view c) k" by (simp add: log_writes_def take_map)
    then have dk: "dk = applyw (log_writes L (view c) k) (cdisk c)" using 1 lw by (simp add: dk_def ws)
    then have "dk ?st = cdisk c ?st" using 1 N by (simp add: applyw_log_writes_other)
    then show ?thesis
      using 1 N log_ok_empty [of dk ?st] len by (simp add: dk applyw_log_writes_other N_def)
  next
    case (2 j)
    then have dk: "dk = applyw (take j ?w2) d1" using lw by (simp add: dk_def ws d1_def)
    have reg: "dk m = d1 m" if "m \<in> log_region ?st" for m
      using home [OF that] set_take_subset [of j ?w2] unfolding dk by (intro applyw_other) blast
    have st: "dk ?st = ?h" using reg d1(2) logblk_region(2) by simp
    have "installs ?st dk = ?w2"
      using st hh reg N logblk_region(1) [of _ ?st] d1(3) by (auto simp: installs_def N_def)
    moreover have "distinct (map fst ?w2)" using t by (simp add: in_trans_def N_def distinct_map comp_def)
    moreover have "log_ok ?st dk"
      using t st hh N in_transD(6) [OF t] unfolding log_ok_def by (auto simp: in_trans_def N_def inj_on_def)
    ultimately show ?thesis
      using 2 d2 applyw_prefix [of ?w2 j d1] by (simp add: dk N_def)
  next
    case 3
    then have dk: "dk = (applyw ?w2 d1)(?st := ?e)" using lw by (simp add: dk_def ws d1_def)
    then show ?thesis using 3 log_ok_empty [of dk ?st] hh d2 logblk_region(2) [of ?st] by (auto simp: N_def)
  qed
qed

section \<open>Recording blocks\<close>

text \<open>What \<open>log_write\<close> does to the log record.\<close>

definition log_record :: "logrec \<Rightarrow> u32 \<Rightarrow> logrec" where
  "log_record L n = (if n \<in> logged L then L else L\<lparr>lh_block := (lh_block L)(nat (lh_n L) := n), lh_n := lh_n L + 1\<rparr>)"

lemma log_slot_new: "n \<notin> logged L \<Longrightarrow> log_slot L n = nat (lh_n L)"
  by (auto simp: log_slot_def logged_def find_None_iff split: option.splits dest!: find_in)

lemma log_slot_old:
  assumes "n \<in> logged L"
  shows "log_slot L n < nat (lh_n L)" "lh_block L (log_slot L n) = n"
proof -
  have "List.find (\<lambda>i. lh_block L i = n) [0..<nat (lh_n L)] \<noteq> None"
    using assms by (auto simp: logged_def find_None_iff)
  then obtain i where i: "List.find (\<lambda>i. lh_block L i = n) [0..<nat (lh_n L)] = Some i" by blast
  then show "log_slot L n < nat (lh_n L)" "lh_block L (log_slot L n) = n"
    using find_in [OF i] by (simp_all add: log_slot_def)
qed

lemma logged_record: "0 \<le> lh_n L \<Longrightarrow> logged (log_record L n) = insert n (logged L)"
proof -
  assume "0 \<le> lh_n L"
  then have "{0..<nat (lh_n L + 1)} = insert (nat (lh_n L)) {0..<nat (lh_n L)}" by (auto simp: nat_add_distrib)
  then show ?thesis by (auto simp: log_record_def logged_def)
qed

lemma bio_rel_lockd:
  assumes "\<And>b. lk \<noteq> BufLk b" "lk \<noteq> BcacheLock" "\<And>i. lk \<noteq> ProcLock i" "bio_rel d s c"
  shows "bio_rel d (s\<lparr>mach := lockd lk (mach s)\<rparr>) c"
proof -
  have "BufLk b \<noteq> lk" "BcacheLock \<noteq> lk" "ProcLock i \<noteq> lk" for b i using assms(1-3) not_sym by blast+
  then show ?thesis
    using assms(4) by (simp add: bio_rel_def bio_env_def proc_locks_ok_def myproc_def my_pid_def)
qed

lemma bstep_relock:
  assumes "bstep (s\<lparr>mach := m, klog := L1\<rparr>) s3"
  shows "bstep (s\<lparr>klog := L2\<rparr>) (s3\<lparr>klog := L2, mach := sync (mach s)\<rparr>)"
proof -
  have "s3 = s\<lparr>mach := m, klog := L1\<rparr>\<lparr>mach := mach s3, procs := procs s3, slocks := slocks s3, bufs := bufs s3, disk := disk s3, dwrites := dwrites s3\<rparr>"
    using assms by (simp add: bstep_def)
  then have "s3\<lparr>klog := L2, mach := sync (mach s)\<rparr> = s\<lparr>mach := m, klog := L1\<rparr>\<lparr>mach := mach s3, procs := procs s3,
      slocks := slocks s3, bufs := bufs s3, disk := disk s3, dwrites := dwrites s3\<rparr>\<lparr>klog := L2, mach := sync (mach s)\<rparr>"
    by (rule arg_cong [where f = "\<lambda>t. t\<lparr>klog := L2, mach := sync (mach s)\<rparr>"])
  also have "\<dots> = s\<lparr>klog := L2\<rparr>\<lparr>mach := sync (mach s), procs := procs s3, slocks := slocks s3, bufs := bufs s3,
      disk := disk s3, dwrites := dwrites s3\<rparr>" by simp
  finally show ?thesis using assms by (simp add: bstep_def)
qed

lemma bstep_log:
  assumes "bstep s t"
  shows "bstep (s\<lparr>klog := L\<rparr>) (t\<lparr>klog := L\<rparr>)"
proof -
  have "t = s\<lparr>mach := mach t, procs := procs t, slocks := slocks t, bufs := bufs t, disk := disk t, dwrites := dwrites t\<rparr>"
    using assms by (simp add: bstep_def)
  then have "t\<lparr>klog := L\<rparr> = s\<lparr>mach := mach t, procs := procs t, slocks := slocks t, bufs := bufs t, disk := disk t,
      dwrites := dwrites t\<rparr>\<lparr>klog := L\<rparr>" by (rule arg_cong [where f = "\<lambda>t. t\<lparr>klog := L\<rparr>"])
  also have "\<dots> = s\<lparr>klog := L\<rparr>\<lparr>mach := mach t, procs := procs t, slocks := slocks t, bufs := bufs t, disk := disk t,
      dwrites := dwrites t\<rparr>" by simp
  finally show ?thesis using assms by (simp add: bstep_def)
qed

lemma log_write_ok:
  assumes r: "bio_rel d s c" and b: "holds c b = Some n" and lk: "lock_free LogLock (mach s)"
    and n: "0 \<le> lh_n (klog s)" "lh_n (klog s) < int LOGBLOCKS" "1 \<le> outstanding (klog s)" "Suc (pins c n) < 2 ^ 31"
  shows "\<exists>s'. log_write b s = Ok s' \<and> klog s' = log_record (klog s) n \<and> bstep (s\<lparr>klog := klog s'\<rparr>) s' \<and>
    bio_rel d s' (if n \<in> logged (klog s) then c else c\<lparr>pins := (pins c)(n := Suc (pins c n))\<rparr>)"
proof -
  let ?L = "klog s" and ?s1 = "s\<lparr>mach := lockd LogLock (mach s)\<rparr>"
  have m: "mach_ok (mach s)" using r by (simp add: bio_rel_def bio_env_def proc_locks_ok_def)
  have bn: "blockno (bufs s b) = n" using held_buf(3) [of d "my_pid s" "bufs s" "slocks s" c b n] r b by (simp add: bio_rel_def)
  show ?thesis
  proof (cases "n \<in> logged ?L")
    case True
    let ?t = "s\<lparr>mach := sync (mach s)\<rparr>"
    have "(lh_block ?L)(log_slot ?L n := n) = lh_block ?L" using log_slot_old(2) [OF True] by auto
    moreover have "int (log_slot ?L n) \<noteq> lh_n ?L" using log_slot_old(1) [OF True] by linarith
    ultimately have "log_write b s = Ok ?t"
      using lk m n bn by (simp add: log_write_def kacquire_free krelease_lockd upd_log_def)
    moreover have "bio_rel d ?t c" using bio_relI [OF r, of ?t c] r by (simp add: bio_rel_def bio_env_def)
    ultimately show ?thesis using True by (intro exI [of _ ?t]) (simp add: log_record_def)
  next
    case False
    let ?L1 = "?L\<lparr>lh_block := (lh_block ?L)(nat (lh_n ?L) := n)\<rparr>"
    let ?s2 = "?s1\<lparr>klog := ?L1\<rparr>"
    have "bio_rel d ?s2 c" using bio_rel_lockd [OF _ _ _ r, of LogLock] by simp
    from bpin_ok [OF this b n(4)] obtain s3 where s3: "bpin b ?s2 = Ok s3"
      "bio_rel d s3 (c\<lparr>pins := (pins c)(n := Suc (pins c n))\<rparr>)" "bstep ?s2 s3" by blast
    have k3: "klog s3 = ?L1" using bstep_klog [OF s3(3)] by simp
    have m3: "mach s3 = lockd LogLock (mach s)" using s3(3) m by (simp add: bstep_def)
    let ?L2 = "?L1\<lparr>lh_n := lh_n ?L + 1\<rparr>"
    let ?t = "s3\<lparr>klog := ?L2, mach := sync (mach s)\<rparr>"
    have e: "log_write b s = Ok ?t"
      using lk m n bn s3(1) k3 m3 log_slot_new [OF False]
      by (simp add: log_write_def kacquire_free krelease_lockd upd_log_def krelease_def release_lockd)
    have "bio_rel d ?t (c\<lparr>pins := (pins c)(n := Suc (pins c n))\<rparr>)"
      using s3(2) r m3 by (simp add: bio_rel_def bio_env_def proc_locks_ok_def myproc_def my_pid_def)
    moreover have "bstep (s\<lparr>klog := ?L2\<rparr>) ?t" using bstep_relock [OF s3(3)] by simp
    ultimately show ?thesis using e False by (intro exI [of _ ?t]) (simp add: log_record_def)
  qed
qed

section \<open>A whole operation\<close>

text \<open>The code between \<open>begin_op\<close> and \<open>end_op\<close>: it reads a block, changes it, logs and releases it.\<close>

definition log_block :: "u32 \<Rightarrow> u32 \<times> block \<Rightarrow> 'a logst_scheme \<Rightarrow> 'a logst_scheme res" where
  "log_block d w s = rbind (bread d (fst w) s) (\<lambda>(b, s1). rbind (log_write b (set_data b (snd w) s1)) (brelse b))"

definition run_op :: "u32 \<Rightarrow> (u32 \<times> block) list \<Rightarrow> 'a logst_scheme \<Rightarrow> 'a logst_scheme res" where
  "run_op d ws s = rbind (begin_op s) (\<lambda>s1. rbind (rfold (log_block d) ws s1) end_op)"

definition trans_cache :: "(u32 \<Rightarrow> block) \<Rightarrow> (u32 \<times> block) list \<Rightarrow> (u32 \<times> block) list \<Rightarrow> cache" where
  "trans_cache dk w ws = \<lparr>view = applyw ws dk, cdisk = dk, cwrites = w,
     pins = (\<lambda>m. if m \<in> fst ` set ws then 1 else 0), holds = (\<lambda>_. None)\<rparr>"

lemma trans_cache_simps [simp]:
  "view (trans_cache dk w ws) = applyw ws dk" "cdisk (trans_cache dk w ws) = dk" "cwrites (trans_cache dk w ws) = w"
  "pins (trans_cache dk w ws) = (\<lambda>m. if m \<in> fst ` set ws then 1 else 0)" "holds (trans_cache dk w ws) = (\<lambda>_. None)"
  "active (trans_cache dk w ws) = fst ` set ws" "trans_cache dk w [] = idle_cache dk w"
  by (auto simp: trans_cache_def active_def idle_cache_def)

lemma log_block_ok:
  assumes r: "bio_rel d s (trans_cache dk w ws)" and lk: "lock_free LogLock (mach s)"
    and L: "logged (klog s) = fst ` set ws" "0 \<le> lh_n (klog s)" "lh_n (klog s) < int LOGBLOCKS" "1 \<le> outstanding (klog s)"
    and c: "card (insert n (fst ` set ws)) \<le> NBUF"
  shows "\<exists>s'. log_block d (n, x) s = Ok s' \<and> bio_rel d s' (trans_cache dk w (ws @ [(n, x)])) \<and>
    klog s' = log_record (klog s) n \<and> lock_free LogLock (mach s') \<and> bstep (s\<lparr>klog := klog s'\<rparr>) s'"
proof -
  let ?c = "trans_cache dk w ws"
  obtain b s1 where b: "bread d n s = Ok (b, s1)" "brel d s s1 (?c\<lparr>holds := [b \<mapsto> n]\<rparr>)"
    using bc.rd_ok [OF brel_start [OF r], of n] c by (auto simp: room_def)
  let ?s2 = "set_data b x s1" and ?c2 = "?c\<lparr>holds := [b \<mapsto> n], view := (applyw ws dk)(n := x)\<rparr>"
  have s2: "brel d s ?s2 ?c2" using bc.put_ok [OF b(2), of b n x] by simp
  have k2: "klog ?s2 = klog s" "lock_free LogLock (mach ?s2)"
    using brel_klog [OF s2] s2 lk by (auto simp: brel_def bstep_def)
  have r2: "bio_rel d ?s2 ?c2" using s2 by (simp add: brel_def)
  have h2: "holds ?c2 b = Some n" by simp
  have pl: "Suc (pins ?c2 n) < 2 ^ 31" by simp
  let ?c3 = "if n \<in> logged (klog ?s2) then ?c2 else ?c2\<lparr>pins := (pins ?c2)(n := Suc (pins ?c2 n))\<rparr>"
  obtain s3 where s3: "log_write b ?s2 = Ok s3" "klog s3 = log_record (klog s) n" "bstep (?s2\<lparr>klog := klog s3\<rparr>) s3"
      "bio_rel d s3 ?c3"
    using log_write_ok [OF r2 h2 k2(2) _ _ _ pl] k2(1) L by auto
  have p: "pins ?c3 n = 1" "holds ?c3 b = Some n" using k2(1) L(1) by simp_all
  obtain s4 where s4: "brelse b s3 = Ok s4" "bio_rel d s4 (?c3\<lparr>holds := (holds ?c3)(b := None)\<rparr>)" "bstep s3 s4"
    using brelse_ok [OF s3(4) p(2)] p(1) by auto
  have i: "fst ` set (ws @ [(n, x)]) = insert n (fst ` set ws)" by simp
  have "?c3\<lparr>holds := (holds ?c3)(b := None)\<rparr> = trans_cache dk w (ws @ [(n, x)])"
    unfolding trans_cache_def i using k2(1) L(1) by (cases "n \<in> fst ` set ws") (auto simp: insert_absorb)
  moreover have k4: "klog s4 = klog s3" using bstep_klog [OF s4(3)] .
  moreover have "lock_free LogLock (mach s4)" using s3(3) s4(3) k2(2) by (auto simp: bstep_def)
  moreover have "bstep (s\<lparr>klog := klog s4\<rparr>) s4"
    using bstep_trans [OF bstep_log bstep_trans [OF s3(3) s4(3)]] s2 k4 by (simp add: brel_def)
  ultimately show ?thesis using b(1) s3(1,2) s4 by (auto simp: log_block_def)
qed

lemma log_record_fields [simp]:
  "lstart (log_record L n) = lstart L" "ldev (log_record L n) = ldev L" "outstanding (log_record L n) = outstanding L"
  "committing (log_record L n) = committing L"
  by (simp_all add: log_record_def)

lemma log_record_inj:
  assumes "inj_on (lh_block L) {0..<nat (lh_n L)}" "0 \<le> lh_n L"
  shows "inj_on (lh_block (log_record L n)) {0..<nat (lh_n (log_record L n))} \<and> 0 \<le> lh_n (log_record L n)"
proof (cases "n \<in> logged L")
  case False
  have e: "{0..<nat (lh_n L + 1)} = insert (nat (lh_n L)) {0..<nat (lh_n L)}"
    using assms(2) by (auto simp: nat_add_distrib)
  have "inj_on ((lh_block L)(nat (lh_n L) := n)) {0..<nat (lh_n L)}"
    using assms(1) by (simp add: inj_on_def)
  then show ?thesis using False assms(2) by (simp add: log_record_def e) (auto simp: logged_def)
qed (use assms in \<open>simp add: log_record_def\<close>)

lemma lh_n_card:
  "inj_on (lh_block L) {0..<nat (lh_n L)} \<Longrightarrow> 0 \<le> lh_n L \<Longrightarrow> lh_n L = int (card (logged L))"
  by (simp add: logged_def card_image)

lemma card_take_le: "card (fst ` set (take k ws)) \<le> card (fst ` set ws)"
  by (intro card_mono image_mono set_take_subset) simp

lemma log_blocks_ok:
  assumes r: "bio_rel d s (idle_cache dk w)" and lk: "lock_free LogLock (mach s)"
    and L: "lh_n (klog s) = 0" "1 \<le> outstanding (klog s)"
    and c: "\<forall>k < length ws. card (fst ` set (take k ws)) < LOGBLOCKS"
  shows "\<exists>s'. rfold (log_block d) ws s = Ok s' \<and> bio_rel d s' (trans_cache dk w ws) \<and> lock_free LogLock (mach s') \<and>
    logged (klog s') = fst ` set ws \<and> inj_on (lh_block (klog s')) {0..<nat (lh_n (klog s'))} \<and> 0 \<le> lh_n (klog s') \<and>
    lstart (klog s') = lstart (klog s) \<and> ldev (klog s') = ldev (klog s) \<and>
    outstanding (klog s') = outstanding (klog s) \<and> committing (klog s') = committing (klog s)"
  using c
proof (induction ws rule: rev_induct)
  case Nil
  then show ?case using assms by (auto simp: logged_def)
next
  case (snoc e ws)
  obtain n x where e: "e = (n, x)" by (cases e)
  have "\<forall>k < length ws. card (fst ` set (take k ws)) < LOGBLOCKS"
  proof (intro allI impI)
    fix k assume "k < length ws"
    then show "card (fst ` set (take k ws)) < LOGBLOCKS" using snoc.prems [rule_format, of k] by simp
  qed
  with snoc.IH obtain s1 where s1: "rfold (log_block d) ws s = Ok s1" "bio_rel d s1 (trans_cache dk w ws)"
      "lock_free LogLock (mach s1)" "logged (klog s1) = fst ` set ws" "inj_on (lh_block (klog s1)) {0..<nat (lh_n (klog s1))}"
      "0 \<le> lh_n (klog s1)" "lstart (klog s1) = lstart (klog s)" "ldev (klog s1) = ldev (klog s)"
      "outstanding (klog s1) = outstanding (klog s)" "committing (klog s1) = committing (klog s)"
    by blast
  have k: "card (fst ` set ws) < LOGBLOCKS" using snoc.prems [rule_format, of "length ws"] by simp
  then have "lh_n (klog s1) < int LOGBLOCKS" using lh_n_card [OF s1(5,6)] s1(4) by simp
  moreover have "card (insert n (fst ` set ws)) \<le> NBUF"
    using k card_insert_le_m1 [of NBUF "fst ` set ws" n] by (simp add: param_defs)
  ultimately obtain s2 where s2: "log_block d (n, x) s1 = Ok s2" "bio_rel d s2 (trans_cache dk w (ws @ [(n, x)]))"
      "klog s2 = log_record (klog s1) n" "lock_free LogLock (mach s2)"
    using log_block_ok [OF s1(2,3,4,6)] s1(9) L(2) by auto
  then show ?case
    using s1 logged_record [OF s1(6), of n] log_record_inj [OF s1(5,6), of n] e by (simp add: rfold_append)
qed

definition op_writes :: "logrec \<Rightarrow> (u32 \<Rightarrow> block) \<Rightarrow> (u32 \<times> block) list" where
  "op_writes L v = (if 0 < lh_n L then commit_writes L v else [])"

lemma commit_writes_cong: "lstart L = lstart L' \<Longrightarrow> lh_n L = lh_n L' \<Longrightarrow> lh_block L = lh_block L' \<Longrightarrow> commit_writes L v = commit_writes L' v"
  by (simp add: commit_writes_def log_writes_def)

lemma in_trans_cong: "lstart L = lstart L' \<Longrightarrow> lh_n L = lh_n L' \<Longrightarrow> lh_block L = lh_block L' \<Longrightarrow> in_trans L c = in_trans L' c"
  by (simp add: in_trans_def logged_def)

lemma commit_any:
  assumes r: "bio_rel d s c" and d: "ldev (klog s) = d" and t: "in_trans (klog s) c"
  shows "\<exists>s'. commit s = Ok s' \<and> klog s' = (klog s)\<lparr>lh_n := 0\<rparr> \<and> bstep (s\<lparr>klog := klog s'\<rparr>) s' \<and>
    bio_rel d s' ((put_blocks (op_writes (klog s) (view c)) c)\<lparr>pins := (\<lambda>_. 0)\<rparr>)"
proof (cases "0 < lh_n (klog s)")
  case True
  then show ?thesis using commit_ok [OF assms] by (simp add: op_writes_def)
next
  case False
  then have "lh_n (klog s) = 0" using t by (simp add: in_trans_def)
  then have z: "klog s = (klog s)\<lparr>lh_n := 0\<rparr>" "pins c = (\<lambda>_. 0)" using t by (simp_all add: in_trans_def logged_def)
  have "c\<lparr>pins := (\<lambda>_. 0)\<rparr> = c" using z(2) by simp
  then show ?thesis using False r z(1) by (simp add: op_writes_def commit_def)
qed

lemma end_op_ok:
  assumes r: "bio_rel d s c" and d: "ldev (klog s) = d" and t: "in_trans (klog s) c"
    and o: "outstanding (klog s) = 1" "\<not> committing (klog s)" and lk: "lock_free LogLock (mach s)"
  shows "\<exists>s'. end_op s = Ok s' \<and> klog s' = (klog s)\<lparr>outstanding := 0, committing := False, lh_n := 0\<rparr> \<and>
    bio_rel d s' ((put_blocks (op_writes (klog s) (view c)) c)\<lparr>pins := (\<lambda>_. 0)\<rparr>) \<and> lock_free LogLock (mach s')"
proof -
  let ?L = "(klog s)\<lparr>outstanding := 0, committing := True\<rparr>"
  let ?s3 = "s\<lparr>klog := ?L, mach := sync (mach s)\<rparr>"
  let ?c = "(put_blocks (op_writes (klog s) (view c)) c)\<lparr>pins := (\<lambda>_. 0)\<rparr>"
  have m: "mach_ok (mach s)" using r by (simp add: bio_rel_def bio_env_def proc_locks_ok_def)
  have r3: "bio_rel d ?s3 c" using bio_relI [OF r, of ?s3 c] r by (simp add: bio_rel_def bio_env_def)
  have t3: "in_trans (klog ?s3) c" using t by (simp add: in_trans_cong [of ?L "klog s"])
  have w: "op_writes ?L v = op_writes (klog s) v" for v
    using commit_writes_cong [of ?L "klog s" v] by (simp add: op_writes_def)
  obtain s4 where s4: "commit ?s3 = Ok s4" "klog s4 = ?L\<lparr>lh_n := 0\<rparr>" "bstep (?s3\<lparr>klog := klog s4\<rparr>) s4" "bio_rel d s4 ?c"
    using commit_any [OF r3 _ t3] d w by auto
  have m4: "mach_ok (mach s4)" "lock_free LogLock (mach s4)" "proc_locks_ok s4"
    using s4(3,4) lk m by (auto simp: bstep_def bio_rel_def bio_env_def proc_locks_ok_def)
  let ?s6 = "s4\<lparr>mach := lockd LogLock (mach s4), klog := (klog s4)\<lparr>committing := False\<rparr>\<rparr>"
  have "proc_locks_ok ?s6" using m4 by (simp add: proc_locks_ok_def)
  from wakeup_ok [OF this, of ChLog] have wk: "wakeup ChLog ?s6 = Ok (?s6\<lparr>mach := lockd LogLock (mach s4),
      procs := woken ChLog (myproc s4) {0..<NPROC} (procs s4)\<rparr>)" using m4(1) by (simp add: myproc_def)
  let ?s7 = "?s6\<lparr>mach := sync (mach s4), procs := woken ChLog (myproc s4) {0..<NPROC} (procs s4)\<rparr>"
  have e: "end_op s = Ok ?s7"
    using lk m o m4 s4(1) wk
    by (simp add: end_op_def end_op_leave_def end_op_commit_def kacquire_free krelease_lockd upd_log_def krelease_def release_lockd)
  have "bio_rel d ?s7 ?c"
    using s4(4) by (intro bio_relI [OF s4(4)]) (auto simp: bio_rel_def bio_env_def woken_def)
  then show ?thesis using e s4(2) m4(2) by (intro exI [of _ ?s7]) simp
qed

lemma begin_op_ok:
  assumes "lock_free LogLock (mach s)" "mach_ok (mach s)"
  shows "begin_op s =
    (if \<not> committing (klog s) \<and> lh_n (klog s) + (outstanding (klog s) + 1) * int MAXOPBLOCKS \<le> int LOGBLOCKS
     then Ok (s\<lparr>klog := (klog s)\<lparr>outstanding := outstanding (klog s) + 1\<rparr>, mach := sync (mach s)\<rparr>) else Blocked)"
  using assms by (simp add: begin_op_def begin_op_env_def begin_op_loop.simps kacquire_free krelease_lockd upd_log_def)

lemma run_op_ok:
  assumes "bio_rel d s (idle_cache dk w)" "lock_free LogLock (mach s)"
    "ldev (klog s) = d" "lh_n (klog s) = 0" "outstanding (klog s) = 0" "\<not> committing (klog s)"
    "length (dk (lstart (klog s))) = BSIZE" "hdr_n (dk (lstart (klog s))) = 0"
    "card (fst ` set ws) < LOGBLOCKS" "\<forall>m \<in> fst ` set ws. m \<notin> log_region (lstart (klog s))"
  shows "\<exists>s' L. run_op d ws s = Ok s' \<and> in_trans L (trans_cache dk w ws) \<and> lstart L = lstart (klog s) \<and>
    lh_n L = int (card (fst ` set ws)) \<and>
    bio_rel d s' ((put_blocks (op_writes L (applyw ws dk)) (trans_cache dk w ws))\<lparr>pins := (\<lambda>_. 0)\<rparr>)"
proof -
  let ?s1 = "s\<lparr>klog := (klog s)\<lparr>outstanding := 1\<rparr>, mach := sync (mach s)\<rparr>"
  have m: "mach_ok (mach s)" using assms(1) by (simp add: bio_rel_def bio_env_def proc_locks_ok_def)
  have b: "begin_op s = Ok ?s1" using begin_op_ok [OF assms(2) m] assms(4-6) by (simp add: param_defs)
  have r1: "bio_rel d ?s1 (idle_cache dk w)"
    using assms(1) bio_relI [OF assms(1), of ?s1 "idle_cache dk w"] by (simp add: bio_rel_def bio_env_def)
  have "\<forall>k < length ws. card (fst ` set (take k ws)) < LOGBLOCKS"
    using assms(9) card_take_le [of _ ws] le_less_trans by blast
  then obtain s2 where s2: "rfold (log_block d) ws ?s1 = Ok s2" "bio_rel d s2 (trans_cache dk w ws)"
      "lock_free LogLock (mach s2)" "logged (klog s2) = fst ` set ws" "inj_on (lh_block (klog s2)) {0..<nat (lh_n (klog s2))}"
      "0 \<le> lh_n (klog s2)" "lstart (klog s2) = lstart (klog ?s1)" "ldev (klog s2) = ldev (klog ?s1)"
      "outstanding (klog s2) = outstanding (klog ?s1)" "committing (klog s2) = committing (klog ?s1)"
    using log_blocks_ok [OF r1, of ws] assms(2,4) by (simp, blast)
  note f2 = s2(7-10) [simplified]
  have n2: "lh_n (klog s2) = int (card (fst ` set ws))" using lh_n_card [OF s2(5,6)] s2(4) by simp
  have "lstart (klog s) \<notin> fst ` set ws" using assms(10) logblk_region(2) by blast
  then have t2: "in_trans (klog s2) (trans_cache dk w ws)"
    using s2(4-6) assms f2 n2 by (auto simp: in_trans_def applyw_other)
  obtain s3 where s3: "end_op s2 = Ok s3"
      "bio_rel d s3 ((put_blocks (op_writes (klog s2) (applyw ws dk)) (trans_cache dk w ws))\<lparr>pins := (\<lambda>_. 0)\<rparr>)"
    using end_op_ok [OF s2(2) _ t2 _ _ s2(3)] f2 assms(3,6) by auto
  have "run_op d ws s = Ok s3" using b s2(1) s3(1) by (simp add: run_op_def)
  then show ?thesis using s3(2) t2 n2 f2(1) by blast
qed

lemma op_crash_disk:
  assumes t: "in_trans L (trans_cache dk w ws)" and n: "lh_n L = int (card (fst ` set ws))"
  defines "ow \<equiv> op_writes L (applyw ws dk)"
  shows "log_ok (lstart L) (applyw (take k ow) dk)"
    "m \<notin> log_region (lstart L) \<Longrightarrow> applyw (installs (lstart L) (applyw (take k ow) dk)) (applyw (take k ow) dk) m =
        (if k \<le> card (fst ` set ws) then dk m else applyw ws dk m)"
    "m \<notin> log_region (lstart L) \<Longrightarrow> applyw ow dk m = applyw ws dk m"
proof -
  have "log_ok (lstart L) (applyw (take k ow) dk) \<and> (\<forall>m. m \<notin> log_region (lstart L) \<longrightarrow>
      applyw (installs (lstart L) (applyw (take k ow) dk)) (applyw (take k ow) dk) m =
        (if k \<le> card (fst ` set ws) then dk m else applyw ws dk m) \<and>
      (k = length ow \<longrightarrow> applyw (take k ow) dk m = applyw ws dk m))" for k
  proof (cases "0 < lh_n L")
    case True
    then show ?thesis
      using commit_crash_disk [OF t True, of k] n by (simp add: ow_def op_writes_def commit_writes_def log_writes_def Let_def)
  next
    case False
    then have "ws = []" "ow = []" using n by (simp_all add: ow_def op_writes_def)
    then show ?thesis using t log_ok_empty [of dk "lstart L"] by (simp add: in_trans_def)
  qed
  from this [of k] this [of "length ow"] show "log_ok (lstart L) (applyw (take k ow) dk)"
    "m \<notin> log_region (lstart L) \<Longrightarrow> applyw (installs (lstart L) (applyw (take k ow) dk)) (applyw (take k ow) dk) m =
        (if k \<le> card (fst ` set ws) then dk m else applyw ws dk m)"
    "m \<notin> log_region (lstart L) \<Longrightarrow> applyw ow dk m = applyw ws dk m" by simp_all
qed

lemma recover_disk:
  assumes "bio_rel d t (idle_cache dk w)" "ldev (klog t) = d" "log_ok (lstart (klog t)) dk"
  shows "\<exists>t'. recover_from_log t = Ok t' \<and>
    (\<forall>m. m \<notin> log_region (lstart (klog t)) \<longrightarrow> disk t' m = applyw (installs (lstart (klog t)) dk) dk m)"
proof -
  have "m \<noteq> lstart (klog t)" if "m \<notin> log_region (lstart (klog t))" for m using that logblk_region(2) by blast
  then show ?thesis using recover_ok [OF assms] by (auto simp: bio_rel_def)
qed

section \<open>Properties\<close>

text \<open>C1. Crash safety of the log. An operation that changes some blocks between \<open>begin_op\<close> and \<open>end_op\<close>
  returns with all its changes on disk. If the machine stops after any number of the disk writes made so far,
  the recovery at the next start succeeds and leaves, outside the log, either the disk as it was before the
  operation or the disk with all of its changes. The switch is the write of the log header.\<close>

theorem log_crash_safe:
  assumes "bio_rel d s (idle_cache dk w)" and "lock_free LogLock (mach s)"
    and "ldev (klog s) = d" and "lh_n (klog s) = 0" and "outstanding (klog s) = 0" and "\<not> committing (klog s)"
    and "length (dk (lstart (klog s))) = BSIZE" and "hdr_n (dk (lstart (klog s))) = 0"
    and "card (fst ` set ws) < LOGBLOCKS" and "\<forall>m \<in> fst ` set ws. m \<notin> log_region (lstart (klog s))"
  shows "\<exists>s' dws. run_op d ws s = Ok s' \<and> dwrites s' = w @ dws \<and>
    (\<forall>m. m \<notin> log_region (lstart (klog s)) \<longrightarrow> disk s' m = applyw ws dk m) \<and>
    (\<forall>k t w'. bio_rel d t (idle_cache (applyw (take k dws) dk) w') \<and> ldev (klog t) = d \<and> lstart (klog t) = lstart (klog s) \<longrightarrow>
      (\<exists>t'. recover_from_log t = Ok t' \<and> (\<forall>m. m \<notin> log_region (lstart (klog s)) \<longrightarrow>
        disk t' m = (if k \<le> card (fst ` set ws) then dk m else applyw ws dk m))))"
proof -
  obtain s' L where s': "run_op d ws s = Ok s'" "in_trans L (trans_cache dk w ws)" "lstart L = lstart (klog s)"
      "lh_n L = int (card (fst ` set ws))"
      "bio_rel d s' ((put_blocks (op_writes L (applyw ws dk)) (trans_cache dk w ws))\<lparr>pins := (\<lambda>_. 0)\<rparr>)"
    using run_op_ok [OF assms] by blast
  let ?ow = "op_writes L (applyw ws dk)"
  have d: "dwrites s' = w @ ?ow" "disk s' = applyw ?ow dk" using s'(5) by (simp_all add: bio_rel_def)
  have "\<exists>t'. recover_from_log t = Ok t' \<and> (\<forall>m. m \<notin> log_region (lstart (klog s)) \<longrightarrow>
        disk t' m = (if k \<le> card (fst ` set ws) then dk m else applyw ws dk m))"
    if t: "bio_rel d t (idle_cache (applyw (take k ?ow) dk) w')" "ldev (klog t) = d" "lstart (klog t) = lstart (klog s)" for k t w'
    using recover_disk [OF t(1,2)] op_crash_disk(1,2) [OF s'(2,4), where k = k] t(3) s'(3) by fastforce
  then show ?thesis using s'(1) d op_crash_disk(3) [OF s'(2,4)] s'(3) by (metis (no_types, lifting))
qed

definition log_ex :: logst where
  "log_ex = bstate.extend (binit bio_ex)
     \<lparr>klog = \<lparr>lstart = 2, outstanding = 0, committing = False, ldev = 1, lh_n = 0, lh_block = (\<lambda>_. 0)\<rparr>\<rparr>"

lemma log_ex_simps [simp]:
  "mach log_ex = mach (binit bio_ex)" "klog log_ex = \<lparr>lstart = 2, outstanding = 0, committing = False, ldev = 1, lh_n = 0, lh_block = (\<lambda>_. 0)\<rparr>"
  by (simp_all add: log_ex_def bstate.defs)

lemma bio_ex_rel: "bio_rel 1 (binit bio_ex) (idle_cache (\<lambda>_. replicate BSIZE 0) [])"
  using binit_ok [of bio_ex 1] by (simp add: proc_locks_ok_def mach_run_ok myproc_def)

lemma log_ex_rel: "bio_rel 1 log_ex (idle_cache (\<lambda>_. replicate BSIZE 0) [])"
  using bio_ex_rel by (simp add: log_ex_def bstate.defs bio_rel_def bio_env_def proc_locks_ok_def myproc_def my_pid_def)

lemma log_ex_free: "lock_free LogLock (mach log_ex)"
  using binit_facts(7) [of LogLock bio_ex] by (simp add: mach_run_ok)

lemma hdr_n_zero: "hdr_n (replicate BSIZE 0) = 0"
  by (simp add: hdr_n_def get_le_def BSIZE_def take_replicate numeral_eq_Suc)

theorem log_crash_safe_witness:
  "\<exists>s' t'. run_op 1 [(100, replicate BSIZE 7)] log_ex = Ok s' \<and> disk s' 100 = replicate BSIZE 7 \<and>
    recover_from_log log_ex = Ok t' \<and> disk t' 100 = replicate BSIZE 0"
proof -
  have n: "100 \<notin> log_region (lstart (klog log_ex))" by (simp add: log_region_iff param_defs)
  obtain s' dws where s': "run_op 1 [(100, replicate BSIZE 7)] log_ex = Ok s'"
      "\<forall>m. m \<notin> log_region (lstart (klog log_ex)) \<longrightarrow> disk s' m = applyw [(100, replicate BSIZE 7)] (\<lambda>_. replicate BSIZE 0) m"
      "\<forall>k (t :: logst) w'. bio_rel 1 t (idle_cache (applyw (take k dws) (\<lambda>_. replicate BSIZE 0)) w') \<and> ldev (klog t) = 1 \<and>
        lstart (klog t) = lstart (klog log_ex) \<longrightarrow> (\<exists>t'. recover_from_log t = Ok t' \<and>
          (\<forall>m. m \<notin> log_region (lstart (klog log_ex)) \<longrightarrow>
            disk t' m = (if k \<le> card (fst ` set [(100, replicate BSIZE (7 :: u8))]) then replicate BSIZE 0
              else applyw [(100, replicate BSIZE 7)] (\<lambda>_. replicate BSIZE 0) m)))"
    using log_crash_safe [OF log_ex_rel log_ex_free, of "[(100, replicate BSIZE 7)]"] hdr_n_zero n
    by (auto simp: param_defs)
  have "\<exists>t'. recover_from_log log_ex = Ok t' \<and> disk t' 100 = replicate BSIZE 0"
    using s'(3) [rule_format, of log_ex 0 "[]"] log_ex_rel n by auto
  then show ?thesis using s'(1,2) n by auto
qed

text \<open>C6. Recovery can itself be interrupted: after any number of its disk writes, starting over ends with
  the same blocks outside the log as an undisturbed recovery.\<close>

theorem recovery_restartable:
  assumes "bio_rel d s (idle_cache dk w)" and "ldev (klog s) = d" and "log_ok (lstart (klog s)) dk"
  shows "\<exists>s' dws. recover_from_log s = Ok s' \<and> dwrites s' = w @ dws \<and>
    (\<forall>k t w'. bio_rel d t (idle_cache (applyw (take k dws) dk) w') \<and> ldev (klog t) = d \<and> lstart (klog t) = lstart (klog s) \<longrightarrow>
      (\<exists>t'. recover_from_log t = Ok t' \<and> (\<forall>m. m \<notin> log_region (lstart (klog s)) \<longrightarrow> disk t' m = disk s' m)))"
proof -
  let ?st = "lstart (klog s)" and ?in = "installs (lstart (klog s)) dk"
  obtain s' h where s': "recover_from_log s = Ok s'" "length h = BSIZE" "hdr_n h = 0"
      "bio_rel d s' (idle_cache ((applyw ?in dk)(?st := h)) (w @ ?in @ [(?st, h)]))"
    using recover_ok [OF assms] by blast
  have "log_ok ?st dk' \<and> (\<forall>m. m \<notin> log_region ?st \<longrightarrow> applyw (installs ?st dk') dk' m = applyw ?in dk m)"
    if "dk' = applyw (take k (?in @ [(?st, h)])) dk" for k dk'
  proof (cases "k \<le> length ?in")
    case True
    have reg: "dk' m = dk m" if "m \<in> log_region ?st" for m
      using \<open>dk' = _\<close> True assms(3) that installs_home [OF assms(3) that] set_take_subset [of k ?in]
      by (auto intro!: applyw_other)
    then have "installs ?st dk' = ?in" "log_ok ?st dk'"
      using assms(3) logblk_region by (auto simp: installs_def log_ok_def)
    then show ?thesis
      using applyw_prefix [OF distinct_installs [OF assms(3)], of k dk] that True by simp
  next
    case False
    then have dk': "dk' = (applyw ?in dk)(?st := h)" using that by simp
    then show ?thesis using log_ok_empty [of dk' ?st] s'(2,3) logblk_region(2) [of ?st] by auto
  qed
  note crash = this
  have d: "dwrites s' = w @ ?in @ [(?st, h)]" "m \<notin> log_region ?st \<Longrightarrow> disk s' m = applyw ?in dk m" for m
    using s'(4) logblk_region(2) [of ?st] by (auto simp: bio_rel_def)
  have "\<exists>t'. recover_from_log t = Ok t' \<and> (\<forall>m. m \<notin> log_region ?st \<longrightarrow> disk t' m = disk s' m)"
    if t: "bio_rel d t (idle_cache (applyw (take k (?in @ [(?st, h)])) dk) w')" "ldev (klog t) = d" "lstart (klog t) = ?st" for k t w'
    using recover_disk [OF t(1,2)] crash [OF refl, of k] t(3) d(2) by fastforce
  then show ?thesis using s'(1) d(1) by blast
qed

theorem recovery_restartable_witness:
  "\<exists>s' dws t'. recover_from_log log_ex = Ok s' \<and> dwrites s' = [] @ dws \<and> recover_from_log log_ex = Ok t' \<and> disk t' 100 = disk s' 100"
proof -
  have n: "100 \<notin> log_region (lstart (klog log_ex))" by (simp add: log_region_iff param_defs)
  have ok: "log_ok (lstart (klog log_ex)) (\<lambda>_. replicate BSIZE 0)" using log_ok_empty [of "\<lambda>_. replicate BSIZE 0"] hdr_n_zero by simp
  obtain s' dws where s': "recover_from_log log_ex = Ok s'" "dwrites s' = [] @ dws"
      "\<forall>k (t :: logst) w'. bio_rel 1 t (idle_cache (applyw (take k dws) (\<lambda>_. replicate BSIZE 0)) w') \<and> ldev (klog t) = 1 \<and>
        lstart (klog t) = lstart (klog log_ex) \<longrightarrow> (\<exists>t'. recover_from_log t = Ok t' \<and>
          (\<forall>m. m \<notin> log_region (lstart (klog log_ex)) \<longrightarrow> disk t' m = disk s' m))"
    using recovery_restartable [OF log_ex_rel _ ok] by auto
  then show ?thesis using s'(3) [rule_format, of log_ex 0 "[]"] log_ex_rel n by auto
qed

text \<open>C29. The buffer cache is too small for a full log: after an operation has logged \<open>LOGBLOCKS\<close> different
  blocks, every buffer is pinned and \<open>commit\<close> panics because it finds no buffer for the first log block.
  The guard in \<open>begin_op\<close> admits operations that together log that many blocks.\<close>

theorem full_log_panics:
  assumes "bio_rel d s (idle_cache dk w)" and "lock_free LogLock (mach s)"
    and "ldev (klog s) = d" and "lh_n (klog s) = 0" and "1 \<le> outstanding (klog s)"
    and "distinct (map fst ws)" and "length ws = LOGBLOCKS" and "\<forall>m \<in> fst ` set ws. m \<notin> log_region (lstart (klog s))"
  shows "\<exists>s'. rfold (log_block d) ws s = Ok s' \<and> commit s' = Panic ''bget: no buffers''"
proof -
  have card: "card (fst ` set (take k ws)) = k" if "k \<le> length ws" for k
  proof -
    have "fst ` set (take k ws) = set (take k (map fst ws))" by (simp add: take_map)
    then show ?thesis using distinct_card [of "take k (map fst ws)"] assms(6) that by simp
  qed
  then have "\<forall>k < length ws. card (fst ` set (take k ws)) < LOGBLOCKS" using assms(7) by simp
  then obtain s' where s': "rfold (log_block d) ws s = Ok s'" "bio_rel d s' (trans_cache dk w ws)"
      "logged (klog s') = fst ` set ws" "inj_on (lh_block (klog s')) {0..<nat (lh_n (klog s'))}" "0 \<le> lh_n (klog s')"
      "lstart (klog s') = lstart (klog s)" "ldev (klog s') = ldev (klog s)"
    using log_blocks_ok [OF assms(1,2,4,5), of ws] by blast
  have n: "lh_n (klog s') = int LOGBLOCKS" using lh_n_card [OF s'(4,5)] s'(3) card [of "length ws"] assms(7) by simp
  have p: "{m. 0 < pins (trans_cache dk w ws) m} = fst ` set ws" by auto
  have "logblk (lstart (klog s)) 0 \<notin> fst ` set ws" 
    using bspec [OF assms(8), of "logblk (lstart (klog s)) 0"] logblk_region(1) [of 0 "lstart (klog s)"]
    by (auto simp: param_defs simp del: ball_simps)
  then have "bread d (logblk (lstart (klog s)) 0) s' = Panic ''bget: no buffers''"
    using bread_full [OF s'(2)] p card [of "length ws"] assms(7) by (simp add: param_defs)
  then have "write_log1 0 s' = Panic ''bget: no buffers''"
    using s'(6,7) assms(3) by (simp add: write_log1_def logblk_def)
  moreover have "[0..<LOGBLOCKS] = 0 # [1..<LOGBLOCKS]" by (simp add: param_defs upt_rec)
  ultimately have "commit s' = Panic ''bget: no buffers''" using n by (simp add: commit_def write_log_def param_defs)
  then show ?thesis using s'(1) by blast
qed

definition log_busy_ex :: logst where
  "log_busy_ex = upd_log (\<lambda>l. l\<lparr>outstanding := 3\<rparr>) log_ex"

theorem full_log_panics_witness:
  "\<exists>s'. rfold (log_block 1) (map (\<lambda>i. (of_nat i, replicate BSIZE 1)) [100..<130]) log_busy_ex = Ok s' \<and>
     commit s' = Panic ''bget: no buffers''"
proof (rule full_log_panics)
  show "bio_rel 1 log_busy_ex (idle_cache (\<lambda>_. replicate BSIZE 0) [])" by (simp add: log_busy_ex_def log_ex_rel)
  show "lock_free LogLock (mach log_busy_ex)" using log_ex_free by (simp add: log_busy_ex_def upd_log_def)
  show "distinct (map fst (map (\<lambda>i. (of_nat i :: u32, replicate BSIZE (1 :: u8))) [100..<130]))" by (simp add: upt_rec)
  show "\<forall>m \<in> fst ` set (map (\<lambda>i. (of_nat i :: u32, replicate BSIZE (1 :: u8))) [100..<130]).
      m \<notin> log_region (lstart (klog log_busy_ex))"
    by (auto simp: log_busy_ex_def upd_log_def log_region_iff param_defs unat_of_nat)
qed (simp_all add: log_busy_ex_def upd_log_def param_defs)

section \<open>What leaves the log record alone\<close>

text \<open>\<open>after P r\<close>: if the outcome \<open>r\<close> is a normal return, the value returned has the property \<open>P\<close>.\<close>

definition after :: "('b \<Rightarrow> bool) \<Rightarrow> 'b res \<Rightarrow> bool" where
  "after P r \<longleftrightarrow> (\<forall>x. r = Ok x \<longrightarrow> P x)"

lemma after_simps [simp]: "after P (Ok x) \<longleftrightarrow> P x" "after P (Panic m)" "after P Blocked"
  by (simp_all add: after_def)

lemma after_bind: "after Q r \<Longrightarrow> (\<And>x. Q x \<Longrightarrow> after P (f x)) \<Longrightarrow> after P (rbind r f)"
  by (cases r) simp_all

lemma after_mono: "after Q r \<Longrightarrow> (\<And>x. Q x \<Longrightarrow> P x) \<Longrightarrow> after P r"
  by (simp add: after_def)

lemma after_rfold:
  assumes "\<And>i s. P s \<Longrightarrow> after P (f i s)" and "P s"
  shows "after P (rfold f is s)"
  using assms(2) by (induction "is" arbitrary: s) (auto intro: after_bind assms(1))

abbreviation log_kept :: "'a logst_scheme \<Rightarrow> 'a logst_scheme \<Rightarrow> bool" where
  "log_kept s s' \<equiv> klog s' = klog s"

lemma kacquire_log: "after (log_kept s) (kacquire lk s)"
  by (cases "acquire lk (mach s)") (simp_all add: kacquire_def)

lemma krelease_log: "after (log_kept s) (krelease lk s)"
  by (cases "release lk (mach s)") (simp_all add: krelease_def)

lemmas lock_log = after_bind [OF kacquire_log] after_bind [OF krelease_log] after_mono [OF krelease_log]

lemma wakeup_log: "after (log_kept s) (wakeup ch s)"
  unfolding wakeup_def by (rule after_rfold) (auto simp: wakeup1_def upd_proc_def intro!: lock_log)

lemma with_proc_after: "(\<And>p. after P (f p)) \<Longrightarrow> after P (with_proc s f)"
  by (cases "myproc s") (simp_all add: with_proc_def)

lemma acquiresleep_log: "after (log_kept s) (acquiresleep lk s)"
proof -
  have "after (\<lambda>(env, s'). log_kept s s') (acquiresleep_env [] lk s)"
    by (auto simp: acquiresleep_env_def acquiresleep_loop.simps upd_slock_def intro!: lock_log with_proc_after)
  then show ?thesis unfolding acquiresleep_def by (rule after_bind) auto
qed

lemma releasesleep_log: "after (log_kept s) (releasesleep lk s)"
  by (auto simp: releasesleep_def upd_slock_def intro!: lock_log after_bind [OF wakeup_log])

lemma holdingsleep_log: "after (\<lambda>(h, s'). log_kept s s') (holdingsleep lk s)"
  by (auto simp: holdingsleep_def Let_def intro!: lock_log with_proc_after)

lemma bread_log: "after (\<lambda>(b, s'). log_kept s s') (bread dev n s)"
proof -
  have "after (\<lambda>(b, s'). log_kept s s') (bget dev n s)"
    by (auto simp: bget_def upd_buf_def split: scan_result.splits intro!: lock_log after_bind [OF acquiresleep_log])
  then show ?thesis unfolding bread_def by (rule after_bind) (auto simp: disk_rw_def upd_buf_def Let_def)
qed

lemma bwrite_log: "after (log_kept s) (bwrite b s)"
  by (auto simp: bwrite_def disk_rw_def Let_def intro!: after_bind [OF holdingsleep_log])

lemma brelse_log: "after (log_kept s) (brelse b s)"
  by (auto simp: brelse_def upd_buf_def Let_def intro!: after_bind [OF holdingsleep_log] after_bind [OF releasesleep_log] lock_log)

lemma bpin_log: "after (log_kept s) (bpin b s)"
  by (auto simp: bpin_def upd_buf_def intro!: lock_log)

lemma bunpin_log: "after (log_kept s) (bunpin b s)"
  by (auto simp: bunpin_def upd_buf_def intro!: lock_log)

lemmas buf_log = after_bind [OF bread_log] after_bind [OF bwrite_log] after_bind [OF brelse_log] after_mono [OF brelse_log]
  after_bind [OF bunpin_log]

lemma write_log_log: "after (log_kept s) (write_log s)"
  unfolding write_log_def by (rule after_rfold) (auto simp: write_log1_def set_data_def upd_buf_def intro!: buf_log)

lemma install_trans_log: "after (log_kept s) (install_trans False s)"
  unfolding install_trans_def by (rule after_rfold) (auto simp: install_trans1_def set_data_def upd_buf_def intro!: buf_log)

lemma write_head_log: "after (log_kept s) (write_head s)"
  by (auto simp: write_head_def set_data_def upd_buf_def Let_def intro!: buf_log)

section \<open>Concurrent operations\<close>

text \<open>How each routine changes the log record when it returns, whatever the rest of the state is.\<close>

lemma begin_op_loop_log:
  assumes "begin_op_loop [] s = Ok (env, s')"
  shows "\<not> committing (klog s) \<and> lh_n (klog s) + (outstanding (klog s) + 1) * int MAXOPBLOCKS \<le> int LOGBLOCKS \<and>
    klog s' = (klog s)\<lparr>outstanding := outstanding (klog s) + 1\<rparr>"
proof -
  have "after (\<lambda>(env, s'). \<not> committing (klog s) \<and> lh_n (klog s) + (outstanding (klog s) + 1) * int MAXOPBLOCKS \<le> int LOGBLOCKS \<and>
      klog s' = (klog s)\<lparr>outstanding := outstanding (klog s) + 1\<rparr>) (begin_op_loop [] s)"
    by (auto simp: begin_op_loop.simps upd_log_def intro!: after_bind [OF krelease_log])
  then show ?thesis using assms by (simp add: after_def)
qed

lemma log_write_log:
  assumes "log_write b s = Ok s'"
  shows "outstanding (klog s') = outstanding (klog s) \<and> committing (klog s') = committing (klog s) \<and>
    (lh_n (klog s') = lh_n (klog s) \<or> lh_n (klog s') = lh_n (klog s) + 1)"
proof -
  let ?P = "\<lambda>s'. outstanding (klog s') = outstanding (klog s) \<and> committing (klog s') = committing (klog s) \<and>
    (lh_n (klog s') = lh_n (klog s) \<or> lh_n (klog s') = lh_n (klog s) + 1)"
  have "after ?P (log_write b s)"
    unfolding log_write_def
    by (rule after_bind [OF kacquire_log]) (auto simp: Let_def upd_log_def intro!: lock_log after_bind [OF bpin_log])
  then show ?thesis using assms by (simp add: after_def)
qed

lemma end_op_leave_log:
  assumes "end_op_leave s = Ok (c, s')"
  shows "\<not> committing (klog s) \<and> (c \<longleftrightarrow> outstanding (klog s) = 1) \<and> outstanding (klog s') = outstanding (klog s) - 1 \<and>
    committing (klog s') = c \<and> lh_n (klog s') = lh_n (klog s)"
proof -
  have "after (\<lambda>(c, s'). \<not> committing (klog s) \<and> (c \<longleftrightarrow> outstanding (klog s) = 1) \<and>
      outstanding (klog s') = outstanding (klog s) - 1 \<and> committing (klog s') = c \<and> lh_n (klog s') = lh_n (klog s))
      (end_op_leave s)"
    unfolding end_op_leave_def
    by (rule after_bind [OF kacquire_log])
      (auto simp: Let_def upd_log_def rbind_assoc intro!: after_bind [OF wakeup_log] after_bind [OF krelease_log])
  then show ?thesis using assms by (simp add: after_def)
qed

lemma end_op_commit_log:
  assumes "end_op_commit s = Ok s'" and "0 \<le> lh_n (klog s)"
  shows "klog s' = (klog s)\<lparr>lh_n := 0, committing := False\<rparr>"
proof -
  have "after (\<lambda>s'. klog s' = (klog s)\<lparr>lh_n := 0\<rparr>) (commit s)"
    using assms(2) by (auto simp: commit_def upd_log_def intro!: after_bind [OF write_log_log] after_bind [OF write_head_log]
        after_bind [OF install_trans_log] after_mono [OF write_head_log])
  then have "after (\<lambda>s'. klog s' = (klog s)\<lparr>lh_n := 0, committing := False\<rparr>) (end_op_commit s)"
    unfolding end_op_commit_def
    by (rule after_bind) (auto simp: upd_log_def intro!: after_bind [OF kacquire_log] after_bind [OF wakeup_log] after_mono [OF krelease_log])
  then show ?thesis using assms(1) by (simp add: after_def)
qed

text \<open>The messages that locks, sleeping and waking panic with: none of them is one of the log's.\<close>

lemma kacquire_panic: "kacquire lk s = Panic e \<Longrightarrow> e = ''acquire''"
  by (auto simp: kacquire_def acquire_def Let_def rbind_eq_Panic split: if_splits)

lemma krelease_panic: "krelease lk s = Panic e \<Longrightarrow> e \<in> {''release'', ''pop_off - interruptible'', ''pop_off''}"
  by (auto simp: krelease_def release_def pop_off_def Let_def rbind_eq_Panic split: if_splits)

lemma wakeup_panic: "wakeup ch s = Panic e \<Longrightarrow> e \<in> {''acquire'', ''release'', ''pop_off - interruptible'', ''pop_off''}"
proof -
  have "rfold (wakeup1 ch) is u = Panic e \<Longrightarrow> e \<in> {''acquire'', ''release'', ''pop_off - interruptible'', ''pop_off''}"
    for "is" and u :: "'a ptable_scheme"
    by (induction "is" arbitrary: u)
      (auto simp: wakeup1_def rbind_eq_Panic dest!: kacquire_panic krelease_panic split: if_splits)
  then show "wakeup ch s = Panic e \<Longrightarrow> ?thesis" by (simp add: wakeup_def)
qed

lemma log_write_panic:
  "log_write b s = Panic ''too big a transaction'' \<Longrightarrow> int LOGBLOCKS \<le> lh_n (klog s)"
  "log_write b s = Panic ''log_write outside of trans'' \<Longrightarrow> outstanding (klog s) < 1"
  using kacquire_log [of s LogLock]
  by (auto simp: log_write_def bpin_def Let_def rbind_eq_Panic after_def dest!: kacquire_panic krelease_panic split: if_splits)

lemma end_op_leave_panic: "end_op_leave s = Panic ''log.committing'' \<Longrightarrow> committing (klog s)"
  using kacquire_log [of s LogLock]
  by (auto simp: end_op_leave_def upd_log_def Let_def rbind_eq_Panic after_def
      dest!: kacquire_panic krelease_panic wakeup_panic split: if_splits)

text \<open>
  The system: \<open>ops p\<close> is the number of blocks that operation \<open>p\<close> has added to the log, while \<open>p\<close> runs. Its steps
  are the routines themselves, on whatever state the kernel is in when they run. \<open>Begin\<close> is the round of
  \<open>begin_op_loop\<close> that admits an operation; taking the lock and the sleeps before it are steps \<open>Other\<close>, which
  stand for all code that does not change the log record. \<open>Leave\<close> and \<open>Commit\<close> are the two parts of
  \<open>end_op\<close>, between which other operations may run. That an operation adds no more than
  \<open>MAXOPBLOCKS\<close> blocks is what every file system call promises.
\<close>

type_synonym 'a lsys = "'a logst_scheme \<times> (nat \<Rightarrow> nat option)"

inductive lstep :: "'a lsys \<Rightarrow> 'a lsys \<Rightarrow> bool" where
  Begin: "ops p = None \<Longrightarrow> begin_op_loop [] s = Ok (env, s') \<Longrightarrow> lstep (s, ops) (s', ops(p \<mapsto> 0))"
| Write: "ops p = Some k \<Longrightarrow> log_write b s = Ok s' \<Longrightarrow> k' = k + nat (lh_n (klog s') - lh_n (klog s)) \<Longrightarrow>
    k' \<le> MAXOPBLOCKS \<Longrightarrow> lstep (s, ops) (s', ops(p \<mapsto> k'))"
| Leave: "ops p = Some k \<Longrightarrow> end_op_leave s = Ok (do_commit, s') \<Longrightarrow> lstep (s, ops) (s', ops(p := None))"
| Commit: "committing (klog s) \<Longrightarrow> end_op_commit s = Ok s' \<Longrightarrow> lstep (s, ops) (s', ops)"
| Other: "klog s' = klog s \<Longrightarrow> lstep (s, ops) (s', ops)"

text \<open>Calls that do not have to wait are such steps.\<close>

lemma begin_op_steps:
  assumes "begin_op s = Ok s'" and "ops p = None"
  shows "lstep\<^sup>*\<^sup>* (s, ops) (s', ops(p \<mapsto> 0))"
proof -
  obtain u env where u: "kacquire LogLock s = Ok u" "begin_op_loop [] u = Ok (env, s')"
    using assms(1) by (auto simp: begin_op_def begin_op_env_def)
  have "klog u = klog s" using kacquire_log [of s LogLock] u(1) by (simp add: after_def)
  then have "lstep (s, ops) (u, ops)" by (rule lstep.Other)
  moreover have "lstep (u, ops) (s', ops(p \<mapsto> 0))" using assms(2) u(2) by (rule lstep.Begin)
  ultimately show ?thesis by simp
qed

lemma end_op_steps:
  assumes "end_op s = Ok s'" and "ops p = Some k"
  shows "lstep\<^sup>*\<^sup>* (s, ops) (s', ops(p := None))"
proof -
  obtain c u where u: "end_op_leave s = Ok (c, u)" "if c then end_op_commit u = Ok s' else s' = u"
    using assms(1) by (auto simp: end_op_def split: if_splits)
  have l: "lstep (s, ops) (u, ops(p := None))" using assms(2) u(1) by (rule lstep.Leave)
  show ?thesis
  proof (cases c)
    case True
    then have "committing (klog u)" using end_op_leave_log [OF u(1)] by simp
    then have "lstep (u, ops(p := None)) (s', ops(p := None))" using u(2) True by (intro lstep.Commit) simp_all
    then show ?thesis using l by simp
  qed (use l u(2) in simp)
qed

definition reserve :: "(nat \<Rightarrow> nat option) \<Rightarrow> nat" where
  "reserve ops = (\<Sum>p \<in> dom ops. MAXOPBLOCKS - the (ops p))"

definition linv :: "'a lsys \<Rightarrow> bool" where
  "linv = (\<lambda>(s, ops). finite (dom ops) \<and> outstanding (klog s) = int (card (dom ops)) \<and> 0 \<le> lh_n (klog s) \<and>
     (\<forall>p k. ops p = Some k \<longrightarrow> k \<le> MAXOPBLOCKS) \<and> lh_n (klog s) + int (reserve ops) \<le> int LOGBLOCKS \<and>
     (committing (klog s) \<longrightarrow> dom ops = {}))"

lemma reserve_le: "finite (dom ops) \<Longrightarrow> reserve ops \<le> card (dom ops) * MAXOPBLOCKS"
  using sum_bounded_above [of "dom ops" "\<lambda>p. MAXOPBLOCKS - the (ops p)" MAXOPBLOCKS] by (simp add: reserve_def)

lemma reserve_split:
  assumes "finite (dom ops)" "ops p = Some k"
  shows "reserve ops = (MAXOPBLOCKS - k) + (\<Sum>q \<in> dom ops - {p}. MAXOPBLOCKS - the (ops q))"
proof -
  have "p \<in> dom ops" using assms(2) by auto
  then show ?thesis using sum.remove [OF assms(1), of p "\<lambda>q. MAXOPBLOCKS - the (ops q)"] assms(2) by (simp add: reserve_def)
qed

lemma reserve_write:
  assumes "finite (dom ops)" "ops p = Some k" "k \<le> k'" "k' \<le> MAXOPBLOCKS"
  shows "reserve (ops(p \<mapsto> k')) + (k' - k) = reserve ops"
proof -
  have d: "dom (ops(p \<mapsto> k')) = dom ops" using assms(2) by auto
  have "(\<Sum>q \<in> dom (ops(p \<mapsto> k')) - {p}. MAXOPBLOCKS - the ((ops(p \<mapsto> k')) q)) =
      (\<Sum>q \<in> dom ops - {p}. MAXOPBLOCKS - the (ops q))"
    unfolding d by (intro sum.cong) auto
  then show ?thesis
    using reserve_split [OF assms(1,2)] reserve_split [of "ops(p \<mapsto> k')" p k'] assms d by simp
qed

lemma linv_step: "lstep x x' \<Longrightarrow> linv x \<Longrightarrow> linv x'"
proof (induction rule: lstep.induct)
  case (Begin ops p s env s')
  have f: "finite (dom ops)" "card (dom (ops(p \<mapsto> 0))) = Suc (card (dom ops))"
    using Begin(1,3) by (auto simp: linv_def domIff)
  then have r: "reserve (ops(p \<mapsto> 0)) \<le> Suc (card (dom ops)) * MAXOPBLOCKS" using reserve_le [of "ops(p \<mapsto> 0)"] by simp
  have o: "outstanding (klog s) + 1 = int (Suc (card (dom ops)))" using Begin(3) by (simp add: linv_def)
  have "int (reserve (ops(p \<mapsto> 0))) \<le> (outstanding (klog s) + 1) * int MAXOPBLOCKS"
    using r unfolding o by (simp only: of_nat_mult [symmetric] of_nat_le_iff)
  then show ?case using begin_op_loop_log [OF Begin(2)] Begin(3) f by (auto simp: linv_def)
next
  case (Write ops p k b s s' k')
  then have "dom (ops(p \<mapsto> k')) = dom ops" "finite (dom ops)" by (auto simp: linv_def)
  then show ?case
    using reserve_write [of ops p k k'] log_write_log [OF Write(2)] Write by (auto simp: linv_def)
next
  case (Leave ops p k s c s')
  then have f: "finite (dom ops)" by (simp add: linv_def)
  have c: "card (dom ops) = Suc (card (dom ops - {p}))" using f Leave(1) by (intro card.remove) auto
  have "reserve (ops(p := None)) \<le> reserve ops" using reserve_split [OF f Leave(1)] by (simp add: reserve_def)
  moreover have "ops(p := None) = (\<lambda>_. None)" if "dom ops \<subseteq> {p}" using that by (auto simp: fun_eq_iff domIff)
  ultimately show ?case using Leave(3) end_op_leave_log [OF Leave(2)] f c by (auto simp: linv_def split: if_splits)
next
  case (Commit s s' ops)
  then show ?case using end_op_commit_log [OF Commit(2)] by (auto simp: linv_def reserve_def)
qed (auto simp: linv_def)

text \<open>C7. The reservation in \<open>begin_op\<close> suffices: in every state that any interleaving of operations and other kernel
  code reaches, the log has room for all blocks that the running operations may still add. A call of
  \<open>log_write\<close> by an operation that has added fewer than \<open>MAXOPBLOCKS\<close> blocks never panics for a full log, no
  call by a running operation panics for being outside a transaction, and \<open>end_op\<close> never finds a commit in progress.\<close>

theorem log_space_suffices:
  assumes "lstep\<^sup>*\<^sup>* (s0, \<lambda>_. None) (s, ops)"
    and "lh_n (klog s0) = 0" and "outstanding (klog s0) = 0" and "\<not> committing (klog s0)" and "ops p = Some k"
  shows "lh_n (klog s) + int (reserve ops) \<le> int LOGBLOCKS \<and>
    (k < MAXOPBLOCKS \<longrightarrow> log_write b s \<noteq> Panic ''too big a transaction'') \<and>
    log_write b s \<noteq> Panic ''log_write outside of trans'' \<and> end_op_leave s \<noteq> Panic ''log.committing''"
proof -
  have "linv (s0, \<lambda>_. None)" using assms(2-4) by (simp add: linv_def reserve_def)
  with assms(1) have "linv (s, ops)" by (induction rule: rtranclp_induct) (auto intro: linv_step)
  then have i: "finite (dom ops)" "outstanding (klog s) = int (card (dom ops))"
      "lh_n (klog s) + int (reserve ops) \<le> int LOGBLOCKS" "\<not> committing (klog s)"
    using assms(5) by (auto simp: linv_def)
  have "p \<in> dom ops" using assms(5) by auto
  then have "1 \<le> card (dom ops)" using i(1) by (simp add: Suc_le_eq card_gt_0_iff) auto
  moreover have "MAXOPBLOCKS - k \<le> reserve ops" using reserve_split [OF i(1) assms(5)] by simp
  ultimately show ?thesis using i log_write_panic [of b s] end_op_leave_panic [of s] by auto
qed

theorem log_space_suffices_witness:
  "\<exists>s1 s2. begin_op log_ex = Ok s1 \<and> begin_op s1 = Ok s2 \<and> lh_n (klog s2) + int (reserve [7 \<mapsto> 0, 8 \<mapsto> 0]) \<le> int LOGBLOCKS \<and>
    log_write 0 s2 \<noteq> Panic ''too big a transaction'' \<and> end_op_leave s2 \<noteq> Panic ''log.committing''"
proof -
  have m: "mach_ok (mach log_ex)" using log_ex_rel by (simp add: bio_rel_def bio_env_def proc_locks_ok_def)
  let ?s1 = "log_ex\<lparr>klog := (klog log_ex)\<lparr>outstanding := 1\<rparr>, mach := sync (mach log_ex)\<rparr>"
  let ?s2 = "?s1\<lparr>klog := (klog log_ex)\<lparr>outstanding := 2\<rparr>, mach := sync (mach ?s1)\<rparr>"
  have 1: "begin_op log_ex = Ok ?s1" using log_ex_free m by (simp add: begin_op_ok param_defs)
  have 2: "begin_op ?s1 = Ok ?s2" using log_ex_free m by (simp add: begin_op_ok param_defs)
  have "lstep\<^sup>*\<^sup>* (log_ex, \<lambda>_. None) (?s1, [7 \<mapsto> 0])" using begin_op_steps [OF 1, of "\<lambda>_. None" 7] by simp
  also have "lstep\<^sup>*\<^sup>* (?s1, [7 \<mapsto> 0]) (?s2, [7 \<mapsto> 0, 8 \<mapsto> 0])" using begin_op_steps [OF 2, of "[7 \<mapsto> 0]" 8] by simp
  finally have st: "lstep\<^sup>*\<^sup>* (log_ex, \<lambda>_. None) (?s2, [7 \<mapsto> 0, 8 \<mapsto> 0])" .
  have "lh_n (klog ?s2) + int (reserve [7 \<mapsto> 0, 8 \<mapsto> 0]) \<le> int LOGBLOCKS \<and>
      log_write 0 ?s2 \<noteq> Panic ''too big a transaction'' \<and> end_op_leave ?s2 \<noteq> Panic ''log.committing''"
    using log_space_suffices [OF st, of 8 0 0] by (simp add: param_defs)
  then show ?thesis using 1 2 by blast
qed

end
