(* ===== verification/Fs.thy ===== *)
theory Fs
  imports Log
begin

text \<open>
  Blocks and inodes, the lower half of \<^verbatim>\<open>kernel/fs.c\<close>: the free bitmap, the inode table, reading and
  writing the content of an inode. An inode pointer is an index of \<open>itable.inode\<close>; the sleep lock in entry
  \<open>i\<close> is \<open>InodeLk i\<close>. A routine that returns an inode or nothing has an option as its result. Messages the code
  prints when the disk is full are not part of the state.
\<close>

record inode =
  idev :: u32
  inum :: u32
  iref :: int
  ivalid :: bool
  itype :: u16
  imajor :: u16
  iminor :: u16
  inlink :: u16
  isize :: u32
  iaddrs :: "u32 list"

record fsst = logst +
  sb :: superblock
  itable :: "nat \<Rightarrow> inode"

definition upd_inode :: "nat \<Rightarrow> (inode \<Rightarrow> inode) \<Rightarrow> 'a fsst_scheme \<Rightarrow> 'a fsst_scheme" where
  "upd_inode i f s = s\<lparr>itable := (itable s)(i := f (itable s i))\<rparr>"

definition readsb :: "u32 \<Rightarrow> 'a fsst_scheme \<Rightarrow> 'a fsst_scheme res" where
  "readsb dev s = rbind (bread dev 1 s) (\<lambda>(bp, s1). brelse bp (s1\<lparr>sb := get_superblock (get_data bp s1)\<rparr>))"

section \<open>Blocks\<close>

definition bzero :: "u32 \<Rightarrow> u32 \<Rightarrow> 'a fsst_scheme \<Rightarrow> 'a fsst_scheme res" where
  "bzero dev bno s = rbind (bread dev bno s) (\<lambda>(bp, s1).
     rbind (log_write bp (set_data bp (replicate BSIZE 0) s1)) (brelse bp))"

text \<open>The bit of block \<open>bi\<close> in a bitmap block.\<close>

definition bit_mask :: "nat \<Rightarrow> u8" where
  "bit_mask bi = push_bit (bi mod 8) 1"

definition bit_used :: "block \<Rightarrow> nat \<Rightarrow> bool" where
  "bit_used d bi \<longleftrightarrow> d ! (bi div 8) AND bit_mask bi \<noteq> 0"

definition set_bit_used :: "nat \<Rightarrow> block \<Rightarrow> block" where
  "set_bit_used bi d = d[bi div 8 := d ! (bi div 8) OR bit_mask bi]"

definition clear_bit_used :: "nat \<Rightarrow> block \<Rightarrow> block" where
  "clear_bit_used bi d = d[bi div 8 := d ! (bi div 8) AND NOT (bit_mask bi)]"

text \<open>The outer loop of \<open>balloc\<close> over the first block number of each bitmap block.\<close>

fun balloc_loop :: "u32 \<Rightarrow> nat list \<Rightarrow> 'a fsst_scheme \<Rightarrow> (u32 \<times> 'a fsst_scheme) res" where
  "balloc_loop dev [] s = Ok (0, s)"
| "balloc_loop dev (b # bs) s =
     rbind (bread dev (BBLOCK (of_nat b) (sb s)) s) (\<lambda>(bp, s1).
     case List.find (\<lambda>bi. \<not> bit_used (get_data bp s1) bi) [0..<min BPB (unat (sb_size (sb s1)) - b)] of
       Some bi \<Rightarrow>
         rbind (log_write bp (set_data bp (set_bit_used bi (get_data bp s1)) s1)) (\<lambda>s2.
         rbind (brelse bp s2) (\<lambda>s3.
         rbind (bzero dev (of_nat (b + bi)) s3) (\<lambda>s4. Ok (of_nat (b + bi), s4))))
     | None \<Rightarrow> rbind (brelse bp s1) (balloc_loop dev bs))"

definition balloc :: "u32 \<Rightarrow> 'a fsst_scheme \<Rightarrow> (u32 \<times> 'a fsst_scheme) res" where
  "balloc dev s = balloc_loop dev (map (\<lambda>k. k * BPB) [0..<(unat (sb_size (sb s)) + BPB - 1) div BPB]) s"

definition bfree :: "u32 \<Rightarrow> u32 \<Rightarrow> 'a fsst_scheme \<Rightarrow> 'a fsst_scheme res" where
  "bfree dev b s = rbind (bread dev (BBLOCK b (sb s)) s) (\<lambda>(bp, s1).
     let bi = unat b mod BPB in
     if \<not> bit_used (get_data bp s1) bi then Panic ''freeing free block''
     else rbind (log_write bp (set_data bp (clear_bit_used bi (get_data bp s1)) s1)) (brelse bp))"

section \<open>Inodes\<close>

definition iinit :: "'a fsst_scheme \<Rightarrow> 'a fsst_scheme" where
  "iinit s = fold (\<lambda>i. initsleeplock (InodeLk i) ''inode'') [0..<NINODE]
     (s\<lparr>mach := initlock ItableLock ''itable'' (mach s)\<rparr>)"

text \<open>The search of \<open>iget\<close>: an entry for the inode, and the first unused entry seen so far.\<close>

fun iget_scan :: "u32 \<Rightarrow> u32 \<Rightarrow> (nat \<Rightarrow> inode) \<Rightarrow> nat list \<Rightarrow> nat option \<Rightarrow> nat option \<times> nat option" where
  "iget_scan dev i tab [] e = (None, e)"
| "iget_scan dev i tab (p # ps) e =
     (if 0 < iref (tab p) \<and> idev (tab p) = dev \<and> inum (tab p) = i then (Some p, e)
      else iget_scan dev i tab ps (if e = None \<and> iref (tab p) = 0 then Some p else e))"

definition iget :: "u32 \<Rightarrow> u32 \<Rightarrow> 'a fsst_scheme \<Rightarrow> (nat \<times> 'a fsst_scheme) res" where
  "iget dev i s = rbind (kacquire ItableLock s) (\<lambda>s1.
     case iget_scan dev i (itable s1) [0..<NINODE] None of
       (Some ip, _) \<Rightarrow>
         rbind (krelease ItableLock (upd_inode ip (\<lambda>x. x\<lparr>iref := iref x + 1\<rparr>) s1)) (\<lambda>s2. Ok (ip, s2))
     | (None, None) \<Rightarrow> Panic ''iget: no inodes''
     | (None, Some ip) \<Rightarrow>
         rbind (krelease ItableLock
           (upd_inode ip (\<lambda>x. x\<lparr>idev := dev, inum := i, iref := 1, ivalid := False\<rparr>) s1)) (\<lambda>s2. Ok (ip, s2)))"

definition dinode_index :: "u32 \<Rightarrow> nat" where
  "dinode_index i = unat i mod IPB"

fun ialloc_loop :: "u32 \<Rightarrow> u16 \<Rightarrow> u32 list \<Rightarrow> 'a fsst_scheme \<Rightarrow> (nat option \<times> 'a fsst_scheme) res" where
  "ialloc_loop dev type [] s = Ok (None, s)"
| "ialloc_loop dev type (i # is) s =
     rbind (bread dev (IBLOCK i (sb s)) s) (\<lambda>(bp, s1).
     if d_type (get_dinode (get_data bp s1) (dinode_index i)) = 0
     then
       let dip = \<lparr>d_type = type, d_major = 0, d_minor = 0, d_nlink = 0, d_size = 0, d_addrs = replicate (NDIRECT + 1) 0\<rparr>
       in rbind (log_write bp (set_data bp (put_dinode dip (dinode_index i) (get_data bp s1)) s1)) (\<lambda>s2.
          rbind (brelse bp s2) (\<lambda>s3.
          rbind (iget dev i s3) (\<lambda>(ip, s4). Ok (Some ip, s4))))
     else rbind (brelse bp s1) (ialloc_loop dev type is))"

definition ialloc :: "u32 \<Rightarrow> u16 \<Rightarrow> 'a fsst_scheme \<Rightarrow> (nat option \<times> 'a fsst_scheme) res" where
  "ialloc dev type s = ialloc_loop dev type (map of_nat [1..<unat (sb_ninodes (sb s))]) s"

definition to_dinode :: "inode \<Rightarrow> dinode" where
  "to_dinode x = \<lparr>d_type = itype x, d_major = imajor x, d_minor = iminor x, d_nlink = inlink x, d_size = isize x,
     d_addrs = iaddrs x\<rparr>"

definition iupdate :: "nat \<Rightarrow> 'a fsst_scheme \<Rightarrow> 'a fsst_scheme res" where
  "iupdate ip s = rbind (bread (idev (itable s ip)) (IBLOCK (inum (itable s ip)) (sb s)) s) (\<lambda>(bp, s1).
     let x = itable s1 ip
     in rbind (log_write bp (set_data bp (put_dinode (to_dinode x) (dinode_index (inum x)) (get_data bp s1)) s1))
          (brelse bp))"

definition idup :: "nat \<Rightarrow> 'a fsst_scheme \<Rightarrow> (nat \<times> 'a fsst_scheme) res" where
  "idup ip s = rbind (kacquire ItableLock s) (\<lambda>s1.
     rbind (krelease ItableLock (upd_inode ip (\<lambda>x. x\<lparr>iref := iref x + 1\<rparr>) s1)) (\<lambda>s2. Ok (ip, s2)))"

definition from_dinode :: "dinode \<Rightarrow> inode \<Rightarrow> inode" where
  "from_dinode x ip = ip\<lparr>itype := d_type x, imajor := d_major x, iminor := d_minor x, inlink := d_nlink x,
     isize := d_size x, iaddrs := d_addrs x\<rparr>"

definition ilock :: "nat \<Rightarrow> 'a fsst_scheme \<Rightarrow> 'a fsst_scheme res" where
  "ilock ip s =
     (if iref (itable s ip) < 1 then Panic ''ilock''
      else rbind (acquiresleep (InodeLk ip) s) (\<lambda>s1.
        if ivalid (itable s1 ip) then Ok s1
        else rbind (bread (idev (itable s1 ip)) (IBLOCK (inum (itable s1 ip)) (sb s1)) s1) (\<lambda>(bp, s2).
          let dip = get_dinode (get_data bp s2) (dinode_index (inum (itable s2 ip)))
          in rbind (brelse bp (upd_inode ip (from_dinode dip) s2)) (\<lambda>s3.
             let s4 = upd_inode ip (\<lambda>x. x\<lparr>ivalid := True\<rparr>) s3
             in if itype (itable s4 ip) = 0 then Panic ''ilock: no type'' else Ok s4))))"

definition iunlock :: "nat \<Rightarrow> 'a fsst_scheme \<Rightarrow> 'a fsst_scheme res" where
  "iunlock ip s = rbind (holdingsleep (InodeLk ip) s) (\<lambda>(h, s1).
     if \<not> h \<or> iref (itable s1 ip) < 1 then Panic ''iunlock'' else releasesleep (InodeLk ip) s1)"

section \<open>Inode content\<close>

definition bmap :: "nat \<Rightarrow> nat \<Rightarrow> 'a fsst_scheme \<Rightarrow> (u32 \<times> 'a fsst_scheme) res" where
  "bmap ip bn s =
     (if bn < NDIRECT
      then
        let addr = iaddrs (itable s ip) ! bn in
        if addr \<noteq> 0 then Ok (addr, s)
        else rbind (balloc (idev (itable s ip)) s) (\<lambda>(addr, s1).
          if addr = 0 then Ok (0, s1)
          else Ok (addr, upd_inode ip (\<lambda>x. x\<lparr>iaddrs := (iaddrs x)[bn := addr]\<rparr>) s1))
      else if bn - NDIRECT < NINDIRECT
      then
        let bn = bn - NDIRECT in
        rbind (let addr = iaddrs (itable s ip) ! NDIRECT in
               if addr \<noteq> 0 then Ok (addr, s)
               else rbind (balloc (idev (itable s ip)) s) (\<lambda>(addr, s1).
                 if addr = 0 then Ok (0, s1)
                 else Ok (addr, upd_inode ip (\<lambda>x. x\<lparr>iaddrs := (iaddrs x)[NDIRECT := addr]\<rparr>) s1))) (\<lambda>(addr, s1).
        if addr = 0 then Ok (0, s1)
        else rbind (bread (idev (itable s1 ip)) addr s1) (\<lambda>(bp, s2).
          let addr = get32 (get_data bp s2) (4 * bn) in
          if addr \<noteq> 0 then rbind (brelse bp s2) (\<lambda>s3. Ok (addr, s3))
          else rbind (balloc (idev (itable s2 ip)) s2) (\<lambda>(addr, s3).
            if addr \<noteq> 0
            then rbind (log_write bp (set_data bp (put32 addr (4 * bn) (get_data bp s3)) s3)) (\<lambda>s4.
                 rbind (brelse bp s4) (\<lambda>s5. Ok (addr, s5)))
            else rbind (brelse bp s3) (\<lambda>s4. Ok (addr, s4)))))
      else Panic ''bmap: out of range'')"

definition itrunc_direct :: "nat \<Rightarrow> nat \<Rightarrow> 'a fsst_scheme \<Rightarrow> 'a fsst_scheme res" where
  "itrunc_direct ip i s =
     (let addr = iaddrs (itable s ip) ! i in
      if addr = 0 then Ok s
      else rbind (bfree (idev (itable s ip)) addr s) (\<lambda>s1.
        Ok (upd_inode ip (\<lambda>x. x\<lparr>iaddrs := (iaddrs x)[i := 0]\<rparr>) s1)))"

definition itrunc :: "nat \<Rightarrow> 'a fsst_scheme \<Rightarrow> 'a fsst_scheme res" where
  "itrunc ip s = rbind (rfold (itrunc_direct ip) [0..<NDIRECT] s) (\<lambda>s1.
     rbind (let addr = iaddrs (itable s1 ip) ! NDIRECT in
            if addr = 0 then Ok s1
            else rbind (bread (idev (itable s1 ip)) addr s1) (\<lambda>(bp, s2).
              rbind (rfold (\<lambda>j s. let a = get32 (get_data bp s) (4 * j) in
                              if a \<noteq> 0 then bfree (idev (itable s ip)) a s else Ok s) [0..<NINDIRECT] s2) (\<lambda>s3.
              rbind (brelse bp s3) (\<lambda>s4.
              rbind (bfree (idev (itable s4 ip)) (iaddrs (itable s4 ip) ! NDIRECT) s4) (\<lambda>s5.
              Ok (upd_inode ip (\<lambda>x. x\<lparr>iaddrs := (iaddrs x)[NDIRECT := 0]\<rparr>) s5)))))) (\<lambda>s6.
     iupdate ip (upd_inode ip (\<lambda>x. x\<lparr>isize := 0\<rparr>) s6)))"

definition iput :: "nat \<Rightarrow> 'a fsst_scheme \<Rightarrow> 'a fsst_scheme res" where
  "iput ip s = rbind (kacquire ItableLock s) (\<lambda>s1.
     rbind (if iref (itable s1 ip) = 1 \<and> ivalid (itable s1 ip) \<and> inlink (itable s1 ip) = 0
            then rbind (acquiresleep (InodeLk ip) s1) (\<lambda>s2.
              rbind (krelease ItableLock s2) (\<lambda>s3.
              rbind (itrunc ip s3) (\<lambda>s4.
              rbind (iupdate ip (upd_inode ip (\<lambda>x. x\<lparr>itype := 0\<rparr>) s4)) (\<lambda>s5.
              rbind (releasesleep (InodeLk ip) (upd_inode ip (\<lambda>x. x\<lparr>ivalid := False\<rparr>) s5)) (kacquire ItableLock)))))
            else Ok s1) (\<lambda>s6.
     krelease ItableLock (upd_inode ip (\<lambda>x. x\<lparr>iref := iref x - 1\<rparr>) s6)))"

definition iunlockput :: "nat \<Rightarrow> 'a fsst_scheme \<Rightarrow> 'a fsst_scheme res" where
  "iunlockput ip s = rbind (iunlock ip s) (iput ip)"

definition ireclaim1 :: "u32 \<Rightarrow> u32 \<Rightarrow> 'a fsst_scheme \<Rightarrow> 'a fsst_scheme res" where
  "ireclaim1 dev i s = rbind (bread dev (IBLOCK i (sb s)) s) (\<lambda>(bp, s1).
     let dip = get_dinode (get_data bp s1) (dinode_index i) in
     if d_type dip \<noteq> 0 \<and> d_nlink dip = 0
     then rbind (iget dev i s1) (\<lambda>(ip, s2).
       rbind (brelse bp s2) (\<lambda>s3.
       rbind (begin_op s3) (\<lambda>s4.
       rbind (ilock ip s4) (\<lambda>s5.
       rbind (iunlock ip s5) (\<lambda>s6.
       rbind (iput ip s6) end_op)))))
     else brelse bp s1)"

definition ireclaim :: "u32 \<Rightarrow> 'a fsst_scheme \<Rightarrow> 'a fsst_scheme res" where
  "ireclaim dev s = rfold (ireclaim1 dev) (map of_nat [1..<unat (sb_ninodes (sb s))]) s"

definition fsinit :: "u32 \<Rightarrow> 'a fsst_scheme \<Rightarrow> 'a fsst_scheme res" where
  "fsinit dev s = rbind (readsb dev s) (\<lambda>s1.
     if sb_magic (sb s1) \<noteq> FSMAGIC then Panic ''invalid file system''
     else rbind (initlog dev (sb_logstart (sb s1)) s1) (ireclaim dev))"

definition stati :: "nat \<Rightarrow> 'a fsst_scheme \<Rightarrow> stat" where
  "stati ip s = \<lparr>st_dev = idev (itable s ip), st_ino = inum (itable s ip), st_type = itype (itable s ip),
     st_nlink = inlink (itable s ip), st_size = ucast (isize (itable s ip))\<rparr>"

text \<open>
  The loop of \<open>readi\<close> with \<open>left\<close> for \<open>n - tot\<close>. Besides the return value it gives the bytes copied so far,
  which is how a caller in the kernel gets them. The bounds checks before the loop keep
  \<open>off + left\<close> below \<open>2 ^ 32\<close>, so natural numbers stand for the \<open>uint\<close> variables.
\<close>

function readi_loop :: "nat \<Rightarrow> dest \<Rightarrow> nat \<Rightarrow> nat \<Rightarrow> u8 list \<Rightarrow> 'a fsst_scheme \<Rightarrow> (int \<times> u8 list \<times> 'a fsst_scheme) res" where
  "readi_loop ip dst off left acc s =
     (if left = 0 then Ok (int (length acc), acc, s)
      else rbind (bmap ip (off div BSIZE) s) (\<lambda>(addr, s1).
        if addr = 0 then Ok (int (length acc), acc, s1)
        else rbind (bread (idev (itable s1 ip)) addr s1) (\<lambda>(bp, s2).
          let m = min left (BSIZE - off mod BSIZE);
              bs = take m (drop (off mod BSIZE) (get_data bp s2))
          in rbind (either_copyout dst bs s2) (\<lambda>(r, s3).
             rbind (brelse bp s3) (\<lambda>s4.
             if r = - 1 then Ok (- 1, acc, s4)
             else readi_loop ip (dest_add dst m) (off + m) (left - m) (acc @ bs) s4)))))"
  by pat_completeness auto
termination
  by (relation "measure (\<lambda>(ip, dst, off, left, acc, s). left)") (auto simp: BSIZE_def)

definition readi :: "nat \<Rightarrow> dest \<Rightarrow> u32 \<Rightarrow> u32 \<Rightarrow> 'a fsst_scheme \<Rightarrow> (int \<times> u8 list \<times> 'a fsst_scheme) res" where
  "readi ip dst off n s =
     (let size = isize (itable s ip) in
      if off > size \<or> off + n < off then Ok (0, [], s)
      else let n = (if off + n > size then size - off else n)
           in readi_loop ip dst (unat off) (unat n) [] s)"

text \<open>The loop of \<open>writei\<close>: it returns how many bytes were written and the offset reached. When the copy
  from the caller fails, the bytes copied up to then stay in the buffer.\<close>

function writei_loop :: "nat \<Rightarrow> source \<Rightarrow> nat \<Rightarrow> nat \<Rightarrow> nat \<Rightarrow> 'a fsst_scheme \<Rightarrow> (nat \<times> nat \<times> 'a fsst_scheme) res" where
  "writei_loop ip src off left tot s =
     (if left = 0 then Ok (tot, off, s)
      else rbind (bmap ip (off div BSIZE) s) (\<lambda>(addr, s1).
        if addr = 0 then Ok (tot, off, s1)
        else rbind (bread (idev (itable s1 ip)) addr s1) (\<lambda>(bp, s2).
          let m = min left (BSIZE - off mod BSIZE)
          in rbind (either_copyin src m s2) (\<lambda>(r, bs, s3).
             let s4 = set_data bp (splice (off mod BSIZE) bs (get_data bp s3)) s3 in
             if r = - 1 then rbind (brelse bp s4) (\<lambda>s5. Ok (tot, off, s5))
             else rbind (log_write bp s4) (\<lambda>s5.
                  rbind (brelse bp s5) (\<lambda>s6.
                  writei_loop ip (source_add src m) (off + m) (left - m) (tot + m) s6))))))"
  by pat_completeness auto
termination
  by (relation "measure (\<lambda>(ip, src, off, left, tot, s). left)") (auto simp: BSIZE_def)

definition writei :: "nat \<Rightarrow> source \<Rightarrow> u32 \<Rightarrow> u32 \<Rightarrow> 'a fsst_scheme \<Rightarrow> (int \<times> 'a fsst_scheme) res" where
  "writei ip src off n s =
     (if off > isize (itable s ip) \<or> off + n < off then Ok (- 1, s)
      else if off + n > of_nat (MAXFILE * BSIZE) then Ok (- 1, s)
      else rbind (writei_loop ip src (unat off) (unat n) 0 s) (\<lambda>(tot, off', s1).
        let s2 = (if of_nat off' > isize (itable s1 ip) then upd_inode ip (\<lambda>x. x\<lparr>isize := of_nat off'\<rparr>) s1 else s1)
        in rbind (iupdate ip s2) (\<lambda>s3. Ok (int tot, s3))))"

declare readi_loop.simps [simp del] writei_loop.simps [simp del]

section \<open>An example state\<close>

text \<open>A disk of 2000 zeroed blocks with the layout of \<^verbatim>\<open>mkfs\<close>, an idle log and an empty inode table.\<close>

definition fs_ex :: fsst where
  "fs_ex = logst.extend log_ex
     \<lparr>sb = \<lparr>sb_magic = FSMAGIC, sb_size = 2000, sb_nblocks = 1954, sb_ninodes = 200, sb_nlog = 31, sb_logstart = 2,
        sb_inodestart = 33, sb_bmapstart = 46\<rparr>,
      itable = (\<lambda>_. \<lparr>idev = 0, inum = 0, iref = 0, ivalid = False, itype = 0, imajor = 0, iminor = 0, inlink = 0,
        isize = 0, iaddrs = replicate 13 0\<rparr>)\<rparr>"

section \<open>Storing and loading inodes\<close>

lemma bstep_fs:
  assumes "bstep s s'"
  shows "itable s' = itable s" "sb s' = sb s"
proof -
  have e: "s' = s\<lparr>mach := mach s', procs := procs s', slocks := slocks s', bufs := bufs s', disk := disk s', dwrites := dwrites s'\<rparr>"
    using assms by (simp add: bstep_def)
  show "itable s' = itable s" by (subst e) simp
  show "sb s' = sb s" by (subst e) simp
qed

lemma bstep_sl_ok: "bstep s s' \<Longrightarrow> sl_ok lk s \<Longrightarrow> sl_ok lk s'"
  by (auto simp: bstep_def sl_ok_def proc_locks_ok_def myproc_def)

lemma bio_rel_itable: "bio_rel d s c \<Longrightarrow> bio_rel d (s\<lparr>itable := t\<rparr>) c"
  by (simp add: bio_rel_def bio_env_def proc_locks_ok_def myproc_def my_pid_def)

lemma sl_ok_itable: "sl_ok lk (s\<lparr>itable := t\<rparr>) = sl_ok lk s"
  by (simp add: sl_ok_def proc_locks_ok_def myproc_def)

lemma dinode_index_eq:
  assumes "IBLOCK i b = IBLOCK j b" "dinode_index i = dinode_index j"
  shows "i = j"
proof -
  have "i div 16 = j div 16" using assms(1) by (simp add: IBLOCK_def fs_consts)
  then have "unat (i div 16) = unat (j div 16)" by (rule arg_cong)
  then have "unat i div 16 = unat j div 16" by (simp add: unat_div_distrib)
  moreover have "unat i mod 16 = unat j mod 16" using assms(2) by (simp add: dinode_index_def fs_consts)
  ultimately have "unat i = unat j" by (metis div_mult_mod_eq)
  then show ?thesis by (simp add: word_unat_eq_iff)
qed

text \<open>What \<open>ilock\<close> does with an entry of the table that is not valid, in terms of the content of its block.\<close>

lemma ilock_ok:
  assumes r: "bio_rel d s c" "holds c = (\<lambda>_. None)" "room c n" "pins c n = 0 \<longrightarrow> view c n = cdisk c n"
    and l: "sl_ok (InodeLk j) s" "\<not> slocked (slocks s (InodeLk j))"
    and y: "idev (itable s j) = d" "n = IBLOCK (inum (itable s j)) (sb s)" "1 \<le> iref (itable s j)" "\<not> ivalid (itable s j)"
    and dip: "dip = get_dinode (view c n) (dinode_index (inum (itable s j)))"
  shows "if d_type dip = 0 then ilock j s = Panic ''ilock: no type''
    else \<exists>s'. ilock j s = Ok s' \<and> itable s' = (itable s)(j := (from_dinode dip (itable s j))\<lparr>ivalid := True\<rparr>)"
proof -
  let ?s1 = "upd_slock (InodeLk j) (\<lambda>l. l\<lparr>slocked := True, slpid := my_pid s\<rparr>) (s\<lparr>mach := sync (mach s)\<rparr>)"
  have t1: "itable ?s1 = itable s" "sb ?s1 = sb s" by (simp_all add: upd_slock_def)
  have "bio_rel d ?s1 c"
    using r(1) by (intro bio_relI [OF r(1)]) (auto simp: bio_rel_def bio_env_def cache_ok_def upd_slock_def)
  from bread_ok [OF this, of n] r(2,3) obtain b s2 where b: "bread d n ?s1 = Ok (b, s2)"
      "bio_rel d s2 (c\<lparr>holds := [b \<mapsto> n]\<rparr>)" "bstep ?s1 s2" by auto
  have t2: "itable s2 = itable s" using bstep_fs [OF b(3)] t1 by simp
  have g: "get_data b s2 = view c n" using bc.get_ok [OF brel_start [OF b(2)], of b n] by simp
  let ?s2 = "upd_inode j (from_dinode dip) s2"
  have "bio_rel d ?s2 (c\<lparr>holds := [b \<mapsto> n]\<rparr>)" using bio_rel_itable [OF b(2)] by (simp add: upd_inode_def)
  from brelse_ok [OF this, of b n] r(4) obtain s3 where s3: "brelse b ?s2 = Ok s3" "bstep ?s2 s3" by auto
  have t3: "itable s3 = (itable s)(j := from_dinode dip (itable s j))"
    using bstep_fs [OF s3(2)] t2 by (simp add: upd_inode_def)
  have b': "bread (idev (itable ?s1 j)) (IBLOCK (inum (itable ?s1 j)) (sb ?s1)) ?s1 = Ok (b, s2)" using b(1) y t1 by simp
  show ?thesis
    using l y b' g dip s3(1) t1 t2 t3 by (simp add: ilock_def acquiresleep_ok Let_def upd_inode_def) (simp add: from_dinode_def)
qed

lemma ilock_entry:
  assumes r: "bio_rel d s (trans_cache dk w ws)" "card (insert n (fst ` set ws)) \<le> NBUF"
    and l: "sl_ok (InodeLk j) s" "\<not> slocked (slocks s (InodeLk j))"
    and y: "idev y = d" "1 \<le> iref y" "\<not> ivalid y" "IBLOCK (inum y) (sb s) = n"
    and dip: "dip = get_dinode (applyw ws dk n) (dinode_index (inum y))"
  shows "if d_type dip = 0 then ilock j (s\<lparr>itable := T(j := y)\<rparr>) = Panic ''ilock: no type''
    else \<exists>s'. ilock j (s\<lparr>itable := T(j := y)\<rparr>) = Ok s' \<and> itable s' = T(j := (from_dinode dip y)\<lparr>ivalid := True\<rparr>)"
proof -
  let ?s = "s\<lparr>itable := T(j := y)\<rparr>" and ?c = "trans_cache dk w ws"
  have c: "holds ?c = (\<lambda>_. None)" "room ?c n" "pins ?c n = 0 \<longrightarrow> view ?c n = cdisk ?c n"
    using r(2) by (simp_all add: room_def applyw_other)
  have s: "sl_ok (InodeLk j) ?s" "\<not> slocked (slocks ?s (InodeLk j))" "idev (itable ?s j) = d"
      "n = IBLOCK (inum (itable ?s j)) (sb ?s)" "1 \<le> iref (itable ?s j)" "\<not> ivalid (itable ?s j)"
      "dip = get_dinode (view ?c n) (dinode_index (inum (itable ?s j)))"
    using l y dip by (simp_all add: sl_ok_itable)
  show ?thesis using ilock_ok [OF bio_rel_itable [OF r(1)] c s] by (simp split: if_splits)
qed

text \<open>\<open>iupdate\<close> is one logged change of a block.\<close>

lemma iupdate_log_block:
  assumes r: "bio_rel d s (trans_cache dk w ws)" "card (insert n (fst ` set ws)) \<le> NBUF"
    and x: "idev (itable s ip) = d" "n = IBLOCK (inum (itable s ip)) (sb s)"
  shows "iupdate ip s =
    log_block d (n, put_dinode (to_dinode (itable s ip)) (dinode_index (inum (itable s ip))) (applyw ws dk n)) s"
proof -
  obtain b s1 where b: "bread d n s = Ok (b, s1)" "brel d s s1 ((trans_cache dk w ws)\<lparr>holds := [b \<mapsto> n]\<rparr>)"
    using bc.rd_ok [OF brel_start [OF r(1)], of n] r(2) by (auto simp: room_def)
  have "get_data b s1 = applyw ws dk n" using bc.get_ok [OF b(2), of b n] by simp
  moreover have "itable s1 = itable s" using b(2) bstep_fs [of s s1] by (simp add: brel_def)
  ultimately show ?thesis using b(1) x by (simp add: iupdate_def log_block_def Let_def)
qed

text \<open>C34. Inodes survive their in-memory copies. In a transaction with room in the log and the cache, \<open>iupdate\<close> returns;
  afterwards \<open>ilock\<close> of any table entry that was recycled for the same inode number (its lock is free, it is not
  valid) restores every field of the inode. For an entry recycled for another inode of the same block, \<open>ilock\<close> reads the
  same fields as it would have before the \<open>iupdate\<close>.\<close>

theorem ilock_reads_iupdate:
  fixes s :: "'a fsst_scheme"
  assumes r: "bio_rel d s (trans_cache dk w ws)" "card (insert n (fst ` set ws)) \<le> NBUF"
    and k: "lock_free LogLock (mach s)" "logged (klog s) = fst ` set ws" "0 \<le> lh_n (klog s)" "lh_n (klog s) < int LOGBLOCKS"
      "1 \<le> outstanding (klog s)"
    and x: "x = itable s ip" "idev x = d" "n = IBLOCK (inum x) (sb s)" "length (iaddrs x) = NDIRECT + 1" "itype x \<noteq> 0"
    and len: "length (applyw ws dk n) = BSIZE"
    and j: "sl_ok (InodeLk j) s" "\<not> slocked (slocks s (InodeLk j))"
  shows "\<exists>s1. iupdate ip s = Ok s1 \<and> itable s1 = itable s \<and>
    (\<forall>y. idev y = d \<and> 1 \<le> iref y \<and> \<not> ivalid y \<longrightarrow>
      (inum y = inum x \<longrightarrow> (\<exists>s2. ilock j (s1\<lparr>itable := (itable s)(j := y)\<rparr>) = Ok s2 \<and>
         itable s2 = (itable s)(j := x\<lparr>iref := iref y, ivalid := True\<rparr>))) \<and>
      (inum y \<noteq> inum x \<and> IBLOCK (inum y) (sb s) = n \<longrightarrow> (\<forall>s2. ilock j (s\<lparr>itable := (itable s)(j := y)\<rparr>) = Ok s2 \<longrightarrow>
         (\<exists>s3. ilock j (s1\<lparr>itable := (itable s)(j := y)\<rparr>) = Ok s3 \<and> itable s3 = itable s2))))"
proof -
  let ?i = "dinode_index (inum x)" and ?D = "applyw ws dk n"
  let ?X = "put_dinode (to_dinode x) ?i ?D" and ?T = "\<lambda>y. (itable s)(j := y)"
  obtain s1 where s1: "iupdate ip s = Ok s1" "bio_rel d s1 (trans_cache dk w (ws @ [(n, ?X)]))"
      "bstep (s\<lparr>klog := klog s1\<rparr>) s1"
    using log_block_ok [OF r(1) k r(2), of ?X] iupdate_log_block [OF r, of ip] x by auto
  have i: "dinode_index m < IPB" for m by (simp add: dinode_index_def fs_consts)
  have g: "get_dinode ?X (dinode_index m) = (if dinode_index m = ?i then to_dinode x else get_dinode ?D (dinode_index m))" for m
    using get_put_dinode [OF len i i, of "to_dinode x"] x(4) by (simp add: to_dinode_def)
  have jk: "sl_ok (InodeLk j) (s\<lparr>klog := klog s1\<rparr>)" using j(1) by (simp add: sl_ok_def proc_locks_ok_def myproc_def)
  have f: "itable s1 = itable s" "sb s1 = sb s" "slocks s1 (InodeLk j) = slocks s (InodeLk j)" "sl_ok (InodeLk j) s1"
    using bstep_fs [OF s1(3)] bstep_sl_ok [OF s1(3) jk] s1(3) by (simp_all add: bstep_def)
  have r1: "card (insert n (fst ` set (ws @ [(n, ?X)]))) \<le> NBUF" using r(2) by simp
  have j1: "\<not> slocked (slocks s1 (InodeLk j))" using f(3) j(2) by simp
  have d1: "applyw (ws @ [(n, ?X)]) dk n = ?X" by simp
  note l = ilock_entry [OF s1(2) r1 f(4) j1, unfolded f(2) d1, where T = "itable s"]
  note l0 = ilock_entry [OF r j, where T = "itable s"]
  have y1: "\<exists>s2. ilock j (s1\<lparr>itable := ?T y\<rparr>) = Ok s2 \<and> itable s2 = ?T (x\<lparr>iref := iref y, ivalid := True\<rparr>)"
    if "idev y = d" "1 \<le> iref y" "\<not> ivalid y" "inum y = inum x" for y
  proof -
    have "(from_dinode (to_dinode x) y)\<lparr>ivalid := True\<rparr> = x\<lparr>iref := iref y, ivalid := True\<rparr>"
      using that x(2) by (cases x, cases y) (simp add: from_dinode_def to_dinode_def)
    moreover have "IBLOCK (inum y) (sb s) = n" "get_dinode ?X (dinode_index (inum y)) = to_dinode x"
      using that(4) x(3) g [of "inum x"] by simp_all
    ultimately show ?thesis using l [OF that(1-3) _ refl] x(5) by (simp add: to_dinode_def)
  qed
  have y2: "\<exists>s3. ilock j (s1\<lparr>itable := ?T y\<rparr>) = Ok s3 \<and> itable s3 = itable s2"
    if "idev y = d" "1 \<le> iref y" "\<not> ivalid y" "inum y \<noteq> inum x" "IBLOCK (inum y) (sb s) = n"
      "ilock j (s\<lparr>itable := ?T y\<rparr>) = Ok s2" for y s2
  proof -
    have "dinode_index (inum y) \<noteq> ?i" using dinode_index_eq [of "inum y" "sb s" "inum x"] that(4,5) x(3) by auto
    then have "get_dinode ?X (dinode_index (inum y)) = get_dinode ?D (dinode_index (inum y))" using g [of "inum y"] by simp
    then show ?thesis using l [OF that(1-3,5) refl] l0 [OF that(1-3,5) refl] that(6) by (auto split: if_splits)
  qed
  show ?thesis using s1(1) f(1) y1 y2 by (intro exI [of _ s1]) simp
qed

definition inode_ex :: inode where
  "inode_ex = \<lparr>idev = 1, inum = 5, iref = 1, ivalid = True, itype = 2, imajor = 0, iminor = 0, inlink = 1, isize = 0x12345,
     iaddrs = replicate 13 7\<rparr>"

definition fs_tx_ex :: fsst where
  "fs_tx_ex = fs_ex\<lparr>klog := (klog log_ex)\<lparr>outstanding := 1\<rparr>, itable := (itable fs_ex)(0 := inode_ex)\<rparr>"

lemma fs_tx_ex_simps [simp]:
  "mach fs_tx_ex = mach (binit bio_ex)" "slocks fs_tx_ex = slocks (binit bio_ex)"
  "klog fs_tx_ex = (klog log_ex)\<lparr>outstanding := 1\<rparr>" "itable fs_tx_ex = (itable fs_ex)(0 := inode_ex)" "sb_inodestart (sb fs_tx_ex) = 33"
  by (simp_all add: fs_tx_ex_def fs_ex_def logst.defs log_ex_def bstate.defs)

lemma fs_tx_ex_rel: "bio_rel 1 fs_tx_ex (idle_cache (\<lambda>_. replicate BSIZE 0) [])"
  using bio_ex_rel
  by (simp add: fs_tx_ex_def fs_ex_def logst.defs log_ex_def bstate.defs bio_rel_def bio_env_def proc_locks_ok_def myproc_def my_pid_def)

lemma binit_inode_lock: "slocks (binit s) (InodeLk j) = slocks s (InodeLk j)"
proof -
  have "slocks (fold (\<lambda>b s. initsleeplock (BufLk b) ''buffer'' (s\<lparr>bufs := link_front b (bufs s)\<rparr>)) xs u) (InodeLk j) =
      slocks u (InodeLk j)" for xs and u :: "'a bstate_scheme"
    by (induction xs arbitrary: u) (simp_all add: initsleeplock_def)
  then show ?thesis by (simp add: binit_def Let_def)
qed

theorem ilock_reads_iupdate_witness:
  "\<exists>s1 s2. iupdate 0 fs_tx_ex = Ok s1 \<and>
    ilock 1 (s1\<lparr>itable := (itable fs_tx_ex)(1 := inode_ex\<lparr>iref := 1, ivalid := False, itype := 0, isize := 0, iaddrs := []\<rparr>)\<rparr>) = Ok s2 \<and>
    itable s2 1 = inode_ex"
proof -
  let ?y = "inode_ex\<lparr>iref := 1, ivalid := False, itype := 0, isize := 0, iaddrs := []\<rparr>"
  have r: "bio_rel 1 fs_tx_ex (trans_cache (\<lambda>_. replicate BSIZE 0) [] [])" using fs_tx_ex_rel by simp
  have j: "sl_ok (InodeLk 1) fs_tx_ex" "\<not> slocked (slocks fs_tx_ex (InodeLk 1))"
    using fs_tx_ex_rel binit_facts(7) [of "InodeLk 1" bio_ex]
    by (simp_all add: sl_ok_def bio_rel_def bio_env_def mach_run_ok binit_inode_lock)
  have k: "lock_free LogLock (mach fs_tx_ex)" using log_ex_free by simp
  obtain s1 where s1: "iupdate 0 fs_tx_ex = Ok s1"
      "\<forall>y. idev y = 1 \<and> 1 \<le> iref y \<and> \<not> ivalid y \<and> inum y = inum inode_ex \<longrightarrow>
        (\<exists>s2. ilock 1 (s1\<lparr>itable := (itable fs_tx_ex)(1 := y)\<rparr>) = Ok s2 \<and>
          itable s2 = (itable fs_tx_ex)(1 := inode_ex\<lparr>iref := iref y, ivalid := True\<rparr>))"
    using ilock_reads_iupdate [OF r _ k _ _ _ _ refl _ refl _ _ _ j, of 0]
    by (auto simp: inode_ex_def logged_def param_defs fs_consts)
  obtain s2 where "ilock 1 (s1\<lparr>itable := (itable fs_tx_ex)(1 := ?y)\<rparr>) = Ok s2"
      "itable s2 = (itable fs_tx_ex)(1 := inode_ex\<lparr>iref := iref ?y, ivalid := True\<rparr>)"
    using s1(2) [rule_format, of ?y] by (auto simp: inode_ex_def)
  then show ?thesis using s1(1) by (auto simp: inode_ex_def)
qed

end
