(* ===== verification/Dirs.thy ===== *)
theory Dirs
  imports Fs
begin

text \<open>
  Directories and path names, the upper half of \<^verbatim>\<open>kernel/fs.c\<close>. A C string is the list of its bytes before the
  NUL; the name field of a directory entry is a list of \<open>DIRSIZ\<close> bytes. Functions on strings read a NUL
  behind the end of a list.
\<close>

section \<open>Names\<close>

definition char_at :: "u8 list \<Rightarrow> nat \<Rightarrow> u8" where
  "char_at xs i = (if i < length xs then xs ! i else 0)"

text \<open>\<open>strncmp\<close> on lists; theory \<open>Cstring\<close> has the routine on memory.\<close>

fun strncmp_list :: "u8 list \<Rightarrow> u8 list \<Rightarrow> nat \<Rightarrow> int" where
  "strncmp_list p q 0 = 0"
| "strncmp_list p q (Suc n) =
     (if char_at p 0 \<noteq> 0 \<and> char_at p 0 = char_at q 0 then strncmp_list (tl p) (tl q) n
      else uint (char_at p 0) - uint (char_at q 0))"

definition namecmp :: "u8 list \<Rightarrow> u8 list \<Rightarrow> int" where
  "namecmp s t = strncmp_list s t DIRSIZ"

text \<open>\<open>strncpy(de.name, name, DIRSIZ)\<close>.\<close>

definition dirent_name :: "u8 list \<Rightarrow> u8 list" where
  "dirent_name nm = take DIRSIZ (nm @ replicate DIRSIZ 0)"

section \<open>Directories\<close>

fun dirlookup_loop :: "nat \<Rightarrow> u8 list \<Rightarrow> nat list \<Rightarrow> 'a fsst_scheme \<Rightarrow> ((nat \<times> nat) option \<times> 'a fsst_scheme) res" where
  "dirlookup_loop dp nm [] s = Ok (None, s)"
| "dirlookup_loop dp nm (off # offs) s =
     rbind (readi dp LocalDst (of_nat off) 16 s) (\<lambda>(r, bs, s1).
     if r \<noteq> 16 then Panic ''dirlookup read''
     else
       let de = get_dirent bs in
       if de_inum de \<noteq> 0 \<and> namecmp nm (de_name de) = 0
       then rbind (iget (idev (itable s1 dp)) (ucast (de_inum de)) s1) (\<lambda>(ip, s2). Ok (Some (ip, off), s2))
       else dirlookup_loop dp nm offs s1)"

definition dir_offsets :: "nat \<Rightarrow> 'a fsst_scheme \<Rightarrow> nat list" where
  "dir_offsets dp s = map (\<lambda>k. 16 * k) [0..<(unat (isize (itable s dp)) + 15) div 16]"

text \<open>The result of \<open>dirlookup\<close> is the inode and the offset of the entry, which the code stores in \<open>*poff\<close>.\<close>

definition dirlookup :: "nat \<Rightarrow> u8 list \<Rightarrow> 'a fsst_scheme \<Rightarrow> ((nat \<times> nat) option \<times> 'a fsst_scheme) res" where
  "dirlookup dp nm s =
     (if itype (itable s dp) \<noteq> T_DIR then Panic ''dirlookup not DIR''
      else dirlookup_loop dp nm (dir_offsets dp s) s)"

text \<open>The offset at which \<open>dirlink\<close> writes: the first free entry, or the end.\<close>

fun dirlink_loop :: "nat \<Rightarrow> nat list \<Rightarrow> 'a fsst_scheme \<Rightarrow> (nat option \<times> 'a fsst_scheme) res" where
  "dirlink_loop dp [] s = Ok (None, s)"
| "dirlink_loop dp (off # offs) s =
     rbind (readi dp LocalDst (of_nat off) 16 s) (\<lambda>(r, bs, s1).
     if r \<noteq> 16 then Panic ''dirlink read''
     else if de_inum (get_dirent bs) = 0 then Ok (Some off, s1)
     else dirlink_loop dp offs s1)"

definition dirlink :: "nat \<Rightarrow> u8 list \<Rightarrow> u32 \<Rightarrow> 'a fsst_scheme \<Rightarrow> (int \<times> 'a fsst_scheme) res" where
  "dirlink dp nm i s = rbind (dirlookup dp nm s) (\<lambda>(found, s1).
     case found of
       Some (ip, _) \<Rightarrow> rbind (iput ip s1) (\<lambda>s2. Ok (- 1, s2))
     | None \<Rightarrow>
         rbind (dirlink_loop dp (dir_offsets dp s1) s1) (\<lambda>(slot, s2).
         let off = (case slot of Some off \<Rightarrow> off | None \<Rightarrow> 16 * ((unat (isize (itable s2 dp)) + 15) div 16))
         in rbind (writei dp (LocalSrc (dirent_bytes \<lparr>de_inum = ucast i, de_name = dirent_name nm\<rparr>)) (of_nat off) 16 s2)
              (\<lambda>(r, s3). Ok (if r \<noteq> 16 then - 1 else 0, s3))))"

section \<open>Paths\<close>

definition SLASH :: u8 where "SLASH = 0x2F"

text \<open>\<open>skipelem\<close> returns the element, cut to \<open>DIRSIZ\<close> bytes, and the rest of the path.\<close>

definition skipelem :: "u8 list \<Rightarrow> (u8 list \<times> u8 list) option" where
  "skipelem path =
     (let path = dropWhile (\<lambda>c. c = SLASH) path in
      if path = [] then None
      else let s = takeWhile (\<lambda>c. c \<noteq> SLASH) path;
               rest = dropWhile (\<lambda>c. c \<noteq> SLASH) path
           in Some (take DIRSIZ s, dropWhile (\<lambda>c. c = SLASH) rest))"

lemma skipelem_shorter: "skipelem path = Some (nm, rest) \<Longrightarrow> length rest < length path"
proof -
  assume a: "skipelem path = Some (nm, rest)"
  let ?p = "dropWhile (\<lambda>c. c = SLASH) path"
  have p: "?p \<noteq> []" and r: "rest = dropWhile (\<lambda>c. c = SLASH) (dropWhile (\<lambda>c. c \<noteq> SLASH) ?p)"
    using a by (auto simp: skipelem_def Let_def split: if_splits)
  have "hd ?p \<noteq> SLASH" using hd_dropWhile [OF p] by simp
  then have "length (dropWhile (\<lambda>c. c \<noteq> SLASH) ?p) < length ?p"
    using p length_dropWhile_le [of "\<lambda>c. c \<noteq> SLASH" "tl ?p"] by (cases ?p) auto
  moreover have "length ?p \<le> length path" by (rule length_dropWhile_le)
  moreover have "length rest \<le> length (dropWhile (\<lambda>c. c \<noteq> SLASH) ?p)" unfolding r by (rule length_dropWhile_le)
  ultimately show ?thesis by linarith
qed

function namex_loop :: "u8 list \<Rightarrow> bool \<Rightarrow> u8 list \<Rightarrow> nat \<Rightarrow> 'a fsst_scheme \<Rightarrow> ((nat \<times> u8 list) option \<times> 'a fsst_scheme) res" where
  "namex_loop path want_parent nm0 ip s =
     (case skipelem path of
        None \<Rightarrow> (if want_parent then rbind (iput ip s) (\<lambda>s1. Ok (None, s1)) else Ok (Some (ip, nm0), s))
      | Some (nm, rest) \<Rightarrow>
          rbind (ilock ip s) (\<lambda>s1.
          if itype (itable s1 ip) \<noteq> T_DIR then rbind (iunlockput ip s1) (\<lambda>s2. Ok (None, s2))
          else if want_parent \<and> rest = [] then rbind (iunlock ip s1) (\<lambda>s2. Ok (Some (ip, nm), s2))
          else rbind (dirlookup ip nm s1) (\<lambda>(found, s2).
            case found of
              None \<Rightarrow> rbind (iunlockput ip s2) (\<lambda>s3. Ok (None, s3))
            | Some (next, _) \<Rightarrow> rbind (iunlockput ip s2) (\<lambda>s3. namex_loop rest want_parent nm next s3))))"
  by pat_completeness auto
termination
  by (relation "measure (\<lambda>(path, want_parent, nm0, ip, s). length path)") (auto dest: skipelem_shorter)

declare namex_loop.simps [simp del]

definition namex :: "u8 list \<Rightarrow> bool \<Rightarrow> 'a fsst_scheme \<Rightarrow> ((nat \<times> u8 list) option \<times> 'a fsst_scheme) res" where
  "namex path want_parent s =
     rbind (if char_at path 0 = SLASH then iget (of_nat ROOTDEV) ROOTINO s
            else with_proc s (\<lambda>p. case cwd (procs s p) of None \<Rightarrow> Panic ''kerneltrap'' | Some ip \<Rightarrow> idup ip s))
       (\<lambda>(ip, s1). namex_loop path want_parent [] ip s1)"

definition namei :: "u8 list \<Rightarrow> 'a fsst_scheme \<Rightarrow> (nat option \<times> 'a fsst_scheme) res" where
  "namei path s = rbind (namex path False s) (\<lambda>(r, s1). Ok (map_option fst r, s1))"

definition nameiparent :: "u8 list \<Rightarrow> 'a fsst_scheme \<Rightarrow> ((nat \<times> u8 list) option \<times> 'a fsst_scheme) res" where
  "nameiparent path s = namex path True s"

section \<open>Path elements\<close>

text \<open>The reference: the non-empty pieces between slashes, collected character by character.\<close>

fun elems :: "u8 list \<Rightarrow> u8 list \<Rightarrow> u8 list list" where
  "elems cur [] = (if cur = [] then [] else [cur])"
| "elems cur (c # cs) = (if c = SLASH then (if cur = [] then [] else [cur]) @ elems [] cs else elems (cur @ [c]) cs)"

text \<open>The elements the loop of \<open>namex\<close> visits.\<close>

function path_elems :: "u8 list \<Rightarrow> u8 list list" where
  "path_elems path = (case skipelem path of None \<Rightarrow> [] | Some (nm, rest) \<Rightarrow> nm # path_elems rest)"
  by pat_completeness auto
termination
  by (relation "measure length") (auto dest: skipelem_shorter)

declare path_elems.simps [simp del]

lemma elems_word: "SLASH \<notin> set w \<Longrightarrow> elems cur (w @ rest) = elems (cur @ w) rest"
  by (induction w arbitrary: cur) auto

lemma elems_slashes: "elems [] (dropWhile (\<lambda>c. c = SLASH) p) = elems [] p"
  by (induction p) auto

lemma elems_rest:
  assumes "w \<noteq> []" and "rest = [] \<or> hd rest = SLASH"
  shows "elems w rest = w # elems [] rest"
  using assms by (cases rest) auto

lemma skipelem_None: "skipelem path = None \<longleftrightarrow> elems [] path = []"
proof -
  let ?p = "dropWhile (\<lambda>c. c = SLASH) path"
  have "elems [] ?p = [] \<longleftrightarrow> ?p = []"
  proof (cases ?p)
    case (Cons c cs)
    then have c: "c \<noteq> SLASH" using hd_dropWhile [of "\<lambda>c. c = SLASH" path] by simp
    have "elems w ys \<noteq> []" if "w \<noteq> []" for w ys using that by (induction ys arbitrary: w) auto
    then show ?thesis using Cons c by simp
  next
    case Nil
    then show ?thesis by (simp only: elems.simps) simp
  qed
  then show ?thesis by (simp add: elems_slashes skipelem_def Let_def)
qed

lemma skipelem_Some:
  assumes "skipelem path = Some (nm, rest)"
  shows "\<exists>w. elems [] path = w # elems [] rest \<and> nm = take DIRSIZ w"
proof -
  let ?p = "dropWhile (\<lambda>c. c = SLASH) path"
  let ?w = "takeWhile (\<lambda>c. c \<noteq> SLASH) ?p" and ?r = "dropWhile (\<lambda>c. c \<noteq> SLASH) ?p"
  have p: "?p \<noteq> []" and nm: "nm = take DIRSIZ ?w" and rest: "rest = dropWhile (\<lambda>c. c = SLASH) ?r"
    using assms by (auto simp: skipelem_def Let_def split: if_splits)
  have w: "?w \<noteq> []" using p hd_dropWhile [OF p] by (cases ?p) auto
  have r: "?r = [] \<or> hd ?r = SLASH" using hd_dropWhile [of "\<lambda>c. c \<noteq> SLASH" ?p] by auto
  have "SLASH \<notin> set ?w" by (auto dest: set_takeWhileD)
  then have "elems [] (?w @ ?r) = elems ([] @ ?w) ?r" by (rule elems_word)
  also have "\<dots> = elems ?w ?r" by simp
  also have "\<dots> = ?w # elems [] ?r" by (rule elems_rest [OF w r])
  finally have "elems [] path = ?w # elems [] rest" by (simp add: elems_slashes rest)
  then show ?thesis using nm by blast
qed

text \<open>C31. Path names are split as documented: the elements that the loop of \<open>namex\<close> takes with \<open>skipelem\<close> are the
  non-empty pieces of the path between slashes, in order, each cut to \<open>DIRSIZ\<close> characters. The rest that \<open>skipelem\<close>
  returns has no leading slash, so it is empty exactly when the element was the last one, which is what
  \<open>nameiparent\<close> tests.\<close>

theorem skipelem_splits_path:
  "path_elems path = map (take DIRSIZ) (elems [] path) \<and>
   (case skipelem path of
      None \<Rightarrow> elems [] path = []
    | Some (nm, rest) \<Rightarrow> (rest = [] \<longleftrightarrow> length (elems [] path) = 1) \<and> char_at rest 0 \<noteq> SLASH)"
proof
  show "path_elems path = map (take DIRSIZ) (elems [] path)"
  proof (induction path rule: path_elems.induct)
    case (1 path)
    show ?case
    proof (cases "skipelem path")
      case None
      then show ?thesis using skipelem_None [of path] by (subst path_elems.simps) simp
    next
      case (Some x)
      then obtain nm rest where x: "skipelem path = Some (nm, rest)" by (cases x) auto
      then show ?thesis using 1 [of "(nm, rest)" nm rest] skipelem_Some [OF x] by (subst path_elems.simps) auto
    qed
  qed
  show "case skipelem path of None \<Rightarrow> elems [] path = []
    | Some (nm, rest) \<Rightarrow> (rest = [] \<longleftrightarrow> length (elems [] path) = 1) \<and> char_at rest 0 \<noteq> SLASH"
  proof (cases "skipelem path")
    case None
    then show ?thesis using skipelem_None [of path] by simp
  next
    case (Some x)
    then obtain nm rest where x: "skipelem path = Some (nm, rest)" by (cases x) auto
    obtain w where w: "elems [] path = w # elems [] rest" using skipelem_Some [OF x] by auto
    have h: "rest = [] \<or> hd rest \<noteq> SLASH"
      using x hd_dropWhile [of "\<lambda>c. c = SLASH"] by (fastforce simp: skipelem_def Let_def split: if_splits)
    then have "elems [] rest = [] \<longleftrightarrow> rest = []"
      using skipelem_None [of rest] by (cases rest) (auto simp: skipelem_def Let_def)
    then show ?thesis using h w x by (cases rest) (auto simp: char_at_def SLASH_def)
  qed
qed

section \<open>Directory entries\<close>

lemma strncmp_list_cons [simp]:
  "strncmp_list (c # p) (c # q) (Suc n) = (if c = 0 then 0 else strncmp_list p q n)"
  by (simp add: char_at_def)

lemma strncmp_list_padded:
  assumes "0 \<notin> set p" "0 \<notin> set q"
  shows "strncmp_list p (take n (q @ replicate k 0)) n = 0 \<longleftrightarrow> take n p = take n q"
  using assms
proof (induction n arbitrary: p q k)
  case (Suc n)
  have z: "char_at (take (Suc n) (replicate k 0)) 0 = 0" by (cases k) (simp_all add: char_at_def)
  show ?case
  proof (cases q)
    case Nil
    then show ?thesis using Suc.prems(1) z by (cases p) (auto simp: char_at_def uint_0_iff)
  next
    case (Cons y ys)
    then show ?thesis using Suc by (cases p) (auto simp: char_at_def word_uint_eq_iff)
  qed
qed simp

text \<open>C35. Names in directory entries: the bytes that \<open>dirlink\<close> writes are decoded to the same entry, and \<open>namecmp\<close>,
  with which \<open>dirlookup\<close> searches, finds in it exactly the names that agree with the linked one in the first
  \<open>DIRSIZ\<close> bytes. A name of exactly \<open>DIRSIZ\<close> bytes, stored without a NUL, is no exception.\<close>

theorem dirent_name_found:
  assumes "0 \<notin> set nm" "0 \<notin> set nm'"
  shows "get_dirent (dirent_bytes \<lparr>de_inum = n, de_name = dirent_name nm\<rparr>) = \<lparr>de_inum = n, de_name = dirent_name nm\<rparr> \<and>
    (namecmp nm' (dirent_name nm) = 0 \<longleftrightarrow> take DIRSIZ nm' = take DIRSIZ nm)"
proof
  show "get_dirent (dirent_bytes \<lparr>de_inum = n, de_name = dirent_name nm\<rparr>) = \<lparr>de_inum = n, de_name = dirent_name nm\<rparr>"
    by (rule get_dirent_bytes) (simp add: dirent_name_def)
  show "(namecmp nm' (dirent_name nm) = 0) \<longleftrightarrow> take DIRSIZ nm' = take DIRSIZ nm"
    unfolding namecmp_def dirent_name_def by (rule strncmp_list_padded [OF assms(2,1)])
qed

theorem dirent_name_found_witness:
  "namecmp (replicate 15 97) (dirent_name (replicate 14 97)) = 0 \<and> namecmp (replicate 13 97) (dirent_name (replicate 14 97)) \<noteq> 0"
  using dirent_name_found [of "replicate 14 97" "replicate 15 97"] dirent_name_found [of "replicate 14 97" "replicate 13 97"]
  by (simp add: DIRSIZ_def)

end
