(* ===== verification/Uart.thy ===== *)
theory Uart
  imports Dirs
begin

text \<open>
  The serial port and kernel messages: \<^verbatim>\<open>kernel/uart.c\<close>, \<open>consputc\<close> of \<^verbatim>\<open>kernel/console.c\<close>, and
  \<^verbatim>\<open>kernel/printf.c\<close>. The device is not part of the sources. The state holds the values its status
  and receive registers will deliver, in order, and the sequence of all register writes. A routine that needs a
  status value after the last one has the outcome \<open>Blocked\<close>: it polls on.

  Routines that sleep take a list of what other harts and processes do meanwhile, one element for each sleep,
  and are \<open>Blocked\<close> when it is used up.
\<close>

definition RHR :: nat where "RHR = 0"
definition THR :: nat where "THR = 0"
definition IER :: nat where "IER = 1"
definition IER_RX_ENABLE :: u8 where "IER_RX_ENABLE = 1"
definition IER_TX_ENABLE :: u8 where "IER_TX_ENABLE = 2"
definition FCR :: nat where "FCR = 2"
definition FCR_FIFO_ENABLE :: u8 where "FCR_FIFO_ENABLE = 1"
definition FCR_FIFO_CLEAR :: u8 where "FCR_FIFO_CLEAR = 6"
definition LCR :: nat where "LCR = 3"
definition LCR_EIGHT_BITS :: u8 where "LCR_EIGHT_BITS = 3"
definition LCR_BAUD_LATCH :: u8 where "LCR_BAUD_LATCH = 0x80"
definition LSR_RX_READY :: u8 where "LSR_RX_READY = 1"
definition LSR_TX_IDLE :: u8 where "LSR_TX_IDLE = 0x20"

record uartst = fsst +
  lsr_in :: "u8 list"
  rhr_in :: "u8 list"
  uart_regs :: "(nat \<times> u8) list"
  tx_busy :: bool
  panicking :: bool
  panicked :: bool

definition WriteReg :: "nat \<Rightarrow> u8 \<Rightarrow> 'a uartst_scheme \<Rightarrow> 'a uartst_scheme" where
  "WriteReg r v s = s\<lparr>uart_regs := uart_regs s @ [(r, v)]\<rparr>"

definition uartinit :: "'a uartst_scheme \<Rightarrow> 'a uartst_scheme" where
  "uartinit s =
     (let s1 = WriteReg IER 0 s;
          s2 = WriteReg LCR LCR_BAUD_LATCH s1;
          s3 = WriteReg 0 0x03 s2;
          s4 = WriteReg 1 0x00 s3;
          s5 = WriteReg LCR LCR_EIGHT_BITS s4;
          s6 = WriteReg FCR (FCR_FIFO_ENABLE OR FCR_FIFO_CLEAR) s5;
          s7 = WriteReg IER (IER_TX_ENABLE OR IER_RX_ENABLE) s6
      in s7\<lparr>mach := initlock TxLock ''uart'' (mach s7)\<rparr>)"

function uartwrite_loop :: "'a uartst_scheme env \<Rightarrow> u8 list \<Rightarrow> 'a uartst_scheme \<Rightarrow> ('a uartst_scheme env \<times> 'a uartst_scheme) res" where
  "uartwrite_loop env [] s = Ok (env, s)"
| "uartwrite_loop env (b # bs) s =
     (if tx_busy s
      then (case env of [] \<Rightarrow> Blocked | e # es \<Rightarrow> rbind (sleep e ChTx TxLock s) (uartwrite_loop es (b # bs)))
      else uartwrite_loop env bs ((WriteReg THR b s)\<lparr>tx_busy := True\<rparr>))"
  by pat_completeness auto
termination
  by (relation "measure (\<lambda>(env, bs, s). length env + length bs)") auto

definition uartwrite :: "'a uartst_scheme env \<Rightarrow> u8 list \<Rightarrow> 'a uartst_scheme \<Rightarrow> ('a uartst_scheme env \<times> 'a uartst_scheme) res" where
  "uartwrite env buf s = rbind (kacquire TxLock s) (\<lambda>s1.
     rbind (uartwrite_loop env buf s1) (\<lambda>(env', s2). rbind (krelease TxLock s2) (\<lambda>s3. Ok (env', s3))))"

definition kpush_off :: "'a kmem_scheme \<Rightarrow> 'a kmem_scheme" where
  "kpush_off s = s\<lparr>mach := push_off (mach s)\<rparr>"

definition kpop_off :: "'a kmem_scheme \<Rightarrow> 'a kmem_scheme res" where
  "kpop_off s = rbind (pop_off (mach s)) (\<lambda>m. Ok (s\<lparr>mach := m\<rparr>))"

definition uartputc_sync :: "u8 \<Rightarrow> 'a uartst_scheme \<Rightarrow> 'a uartst_scheme res" where
  "uartputc_sync c s =
     (let s1 = (if \<not> panicking s then kpush_off s else s) in
      if panicked s1 then Blocked
      else case dropWhile (\<lambda>v. v AND LSR_TX_IDLE = 0) (lsr_in s1) of
        [] \<Rightarrow> Blocked
      | _ # rest \<Rightarrow>
          let s2 = WriteReg THR c (s1\<lparr>lsr_in := rest\<rparr>)
          in if \<not> panicking s2 then kpop_off s2 else Ok s2)"

definition uartgetc :: "'a uartst_scheme \<Rightarrow> (int \<times> 'a uartst_scheme) res" where
  "uartgetc s =
     (case lsr_in s of
        [] \<Rightarrow> Blocked
      | v # vs \<Rightarrow>
          if v AND LSR_RX_READY \<noteq> 0
          then (case rhr_in s of [] \<Rightarrow> Blocked | c # cs \<Rightarrow> Ok (uint c, s\<lparr>lsr_in := vs, rhr_in := cs\<rparr>))
          else Ok (- 1, s\<lparr>lsr_in := vs\<rparr>))"

definition BACKSPACE :: int where "BACKSPACE = 0x100"

definition consputc :: "int \<Rightarrow> 'a uartst_scheme \<Rightarrow> 'a uartst_scheme res" where
  "consputc c s =
     (if c = BACKSPACE
      then rbind (uartputc_sync 8 s) (\<lambda>s1. rbind (uartputc_sync 0x20 s1) (uartputc_sync 8))
      else uartputc_sync (word_of_int c) s)"

section \<open>Formatting\<close>

definition digits :: "u8 list" where
  "digits = [0x30, 0x31, 0x32, 0x33, 0x34, 0x35, 0x36, 0x37, 0x38, 0x39, 0x61, 0x62, 0x63, 0x64, 0x65, 0x66]"

text \<open>The digits \<open>printint\<close> puts into \<open>buf\<close>, least significant first.\<close>

function digit_loop :: "nat \<Rightarrow> nat \<Rightarrow> u8 list" where
  "digit_loop base x =
     (if base < 2 then [digits ! (x mod base)]
      else digits ! (x mod base) # (if x div base \<noteq> 0 then digit_loop base (x div base) else []))"
  by pat_completeness auto
termination
  by (relation "measure snd") (auto intro!: div_less_dividend gr0I)

declare digit_loop.simps [simp del]

text \<open>The whole of \<open>buf\<close> for the argument \<open>xx\<close>, a 64-bit pattern, and its output, last character first. For the smallest
  number the negation \<open>-xx\<close> wraps around, as it does in compiled code.\<close>

definition printint_buf :: "u64 \<Rightarrow> nat \<Rightarrow> bool \<Rightarrow> u8 list" where
  "printint_buf xx base sign =
     (let neg = sign \<and> sint xx < 0;
          x = (if neg then - xx else xx)
      in digit_loop base (unat x) @ (if neg then [0x2D] else []))"

definition printint :: "u64 \<Rightarrow> nat \<Rightarrow> bool \<Rightarrow> 'a uartst_scheme \<Rightarrow> 'a uartst_scheme res" where
  "printint xx base sign s = rfold (\<lambda>c. consputc (uint c)) (rev (printint_buf xx base sign)) s"

definition printptr :: "u64 \<Rightarrow> 'a uartst_scheme \<Rightarrow> 'a uartst_scheme res" where
  "printptr x s = rbind (consputc 0x30 s) (\<lambda>s1. rbind (consputc 0x78 s1) (\<lambda>s2.
     rfold (\<lambda>i. consputc (uint (digits ! unat (drop_bit 60 (push_bit (4 * i) x))))) [0..<16] s2))"

text \<open>Arguments of \<open>printf\<close>. Reading an argument that is missing or has another type is undefined in C; such a
  call has the outcome \<open>Blocked\<close>.\<close>

datatype varg = VInt u64 | VStr "u8 list option"

fun va_int :: "varg list \<Rightarrow> (u64 \<times> varg list) res" where
  "va_int (VInt x # as) = Ok (x, as)"
| "va_int _ = Blocked"

fun va_str :: "varg list \<Rightarrow> (u8 list \<times> varg list) res" where
  "va_str (VStr None # as) = Ok ([0x28, 0x6E, 0x75, 0x6C, 0x6C, 0x29], as)"
| "va_str (VStr (Some x) # as) = Ok (takeWhile (\<lambda>c. c \<noteq> 0) x, as)"
| "va_str _ = Blocked"

text \<open>A conversion: the letters after the percent sign, and how many of them are used up. An \<open>int\<close>
  argument is sign-extended to 64 bits, an unsigned 32-bit one zero-extended.\<close>

datatype conv = CInt nat nat bool bool | CPtr | CChar | CStr | CPercent | CEnd | CUnknown

text \<open>\<open>CInt k base sg wide\<close>: consume \<open>k\<close> letters.\<close>

definition conversion :: "u8 \<Rightarrow> u8 \<Rightarrow> u8 \<Rightarrow> conv" where
  "conversion c0 c1 c2 =
     (if c0 = 0x64 then CInt 1 10 True False
      else if c0 = 0x6C \<and> c1 = 0x64 then CInt 2 10 True True
      else if c0 = 0x6C \<and> c1 = 0x6C \<and> c2 = 0x64 then CInt 3 10 True True
      else if c0 = 0x75 then CInt 1 10 False False
      else if c0 = 0x6C \<and> c1 = 0x75 then CInt 2 10 False True
      else if c0 = 0x6C \<and> c1 = 0x6C \<and> c2 = 0x75 then CInt 3 10 False True
      else if c0 = 0x78 then CInt 1 16 False False
      else if c0 = 0x6C \<and> c1 = 0x78 then CInt 2 16 False True
      else if c0 = 0x6C \<and> c1 = 0x6C \<and> c2 = 0x78 then CInt 3 16 False True
      else if c0 = 0x70 then CPtr
      else if c0 = 0x63 then CChar
      else if c0 = 0x73 then CStr
      else if c0 = 0x25 then CPercent
      else if c0 = 0 then CEnd
      else CUnknown)"

definition int_arg :: "bool \<Rightarrow> bool \<Rightarrow> u64 \<Rightarrow> u64" where
  "int_arg sg wide x = (if wide then x else if sg then scast (ucast x :: u32) else ucast (ucast x :: u32))"

fun printf_loop :: "u8 list \<Rightarrow> varg list \<Rightarrow> 'a uartst_scheme \<Rightarrow> 'a uartst_scheme res" where
  "printf_loop [] as s = Ok s"
| "printf_loop (cx # fmt) as s =
     (if cx \<noteq> 0x25 then rbind (consputc (uint cx) s) (printf_loop fmt as)
      else case conversion (char_at fmt 0) (char_at fmt 1) (char_at fmt 2) of
        CInt k base sg wide \<Rightarrow>
          rbind (va_int as) (\<lambda>(x, as1). rbind (printint (int_arg sg wide x) base sg s) (printf_loop (drop k fmt) as1))
      | CPtr \<Rightarrow> rbind (va_int as) (\<lambda>(x, as1). rbind (printptr x s) (printf_loop (drop 1 fmt) as1))
      | CChar \<Rightarrow> rbind (va_int as) (\<lambda>(x, as1). rbind (consputc (uint (ucast x :: u32)) s) (printf_loop (drop 1 fmt) as1))
      | CStr \<Rightarrow> rbind (va_str as) (\<lambda>(x, as1). rbind (rfold (\<lambda>c. consputc (uint c)) x s) (printf_loop (drop 1 fmt) as1))
      | CPercent \<Rightarrow> rbind (consputc 0x25 s) (printf_loop (drop 1 fmt) as)
      | CEnd \<Rightarrow> Ok s
      | CUnknown \<Rightarrow> rbind (consputc 0x25 s) (\<lambda>s1.
          rbind (consputc (uint (char_at fmt 0)) s1) (printf_loop (drop 1 fmt) as)))"

definition printf :: "u8 list \<Rightarrow> varg list \<Rightarrow> 'a uartst_scheme \<Rightarrow> 'a uartst_scheme res" where
  "printf fmt as s = rbind (if \<not> panicking s then kacquire PrLock s else Ok s) (\<lambda>s1.
     rbind (printf_loop fmt as s1) (\<lambda>s2. if \<not> panicking s2 then krelease PrLock s2 else Ok s2))"

definition ascii :: "string \<Rightarrow> u8 list" where
  "ascii x = map (\<lambda>c. of_nat (of_char c)) x"

text \<open>The output and the flags that \<open>panic\<close> leaves behind before it loops forever.\<close>

definition panic_state :: "u8 list \<Rightarrow> 'a uartst_scheme \<Rightarrow> 'a uartst_scheme res" where
  "panic_state msg s = rbind (printf (ascii ''panic: '') [] (s\<lparr>panicking := True\<rparr>)) (\<lambda>s1.
     rbind (printf (ascii ''%s'' @ [0x0A]) [VStr (Some msg)] s1) (\<lambda>s2. Ok (s2\<lparr>panicked := True\<rparr>)))"

definition printfinit :: "'a uartst_scheme \<Rightarrow> 'a uartst_scheme" where
  "printfinit s = s\<lparr>mach := initlock PrLock ''pr'' (mach s)\<rparr>"

text \<open>The process listing of \<^verbatim>\<open>kernel/proc.c\<close>.\<close>

fun state_name :: "procstate \<Rightarrow> string" where
  "state_name UNUSED = ''unused''"
| "state_name USED = ''used''"
| "state_name SLEEPING = ''sleep ''"
| "state_name RUNNABLE = ''runble''"
| "state_name RUNNING = ''run   ''"
| "state_name ZOMBIE = ''zombie''"

definition procdump :: "'a uartst_scheme \<Rightarrow> 'a uartst_scheme res" where
  "procdump s = rbind (printf [0x0A] [] s) (rfold (\<lambda>i s.
     let p = procs s i in
     if pstate p = UNUSED then Ok s
     else rbind (printf (ascii ''%d %s %s'')
            [VInt (word_of_int (pid p)), VStr (Some (ascii (state_name (pstate p)))), VStr (Some (pname p))] s)
          (printf [0x0A] [])) [0..<NPROC])"

section \<open>Printed numbers\<close>

text \<open>Reading a number back: the value of a digit, of a list of digits with the least significant one first, and of
  the printed text.\<close>

definition digit_value :: "u8 \<Rightarrow> nat" where
  "digit_value c = (if 0x61 \<le> c then unat c - 0x57 else unat c - 0x30)"

fun digits_value :: "nat \<Rightarrow> u8 list \<Rightarrow> nat" where
  "digits_value base [] = 0"
| "digits_value base (c # cs) = digit_value c + base * digits_value base cs"

definition read_number :: "nat \<Rightarrow> u8 list \<Rightarrow> int" where
  "read_number base cs = (case cs of
     [] \<Rightarrow> 0
   | c # ds \<Rightarrow> if c = 0x2D then - int (digits_value base (rev ds)) else int (digits_value base (rev cs)))"

lemma digit_value_digits: "d < 16 \<Longrightarrow> digit_value (digits ! d) = d \<and> digits ! d \<noteq> 0x2D"
proof -
  have "\<forall>d \<in> {..<16}. digit_value (digits ! d) = d \<and> digits ! d \<noteq> 0x2D"
    by (simp add: digits_def digit_value_def lessThan_nat_numeral lessThan_Suc)
  then show "d < 16 \<Longrightarrow> ?thesis" by simp
qed

lemma digit_mod:
  assumes "2 \<le> base" "base \<le> 16"
  shows "digit_value (digits ! (x mod base)) = x mod base" and "digits ! (x mod base) \<noteq> 0x2D"
proof -
  have "x mod base < base" using assms by simp
  then have "x mod base < 16" using assms by linarith
  from digit_value_digits [OF this]
  show "digit_value (digits ! (x mod base)) = x mod base" and "digits ! (x mod base) \<noteq> 0x2D" by simp_all
qed

lemma digit_loop_step:
  "2 \<le> base \<Longrightarrow> digit_loop base x = digits ! (x mod base) # (if x div base \<noteq> 0 then digit_loop base (x div base) else [])"
  by (subst digit_loop.simps) simp

lemma digits_value_loop: "2 \<le> base \<Longrightarrow> base \<le> 16 \<Longrightarrow> digits_value base (digit_loop base x) = x"
proof (induction base x rule: digit_loop.induct)
  case (1 base x)
  have "digit_value (digits ! (x mod base)) = x mod base" by (rule digit_mod [OF 1(2,3)])
  moreover have "x div base \<noteq> 0 \<Longrightarrow> digits_value base (digit_loop base (x div base)) = x div base" using 1 by simp
  moreover have "x div base = 0 \<Longrightarrow> x mod base = x" using mult_div_mod_eq [of base x] by simp
  ultimately show ?case
    using mult_div_mod_eq [of base x] by (subst digit_loop_step [OF 1(2)]) auto
qed

lemma digit_loop_length: "2 \<le> base \<Longrightarrow> x < base ^ Suc k \<Longrightarrow> length (digit_loop base x) \<le> Suc k"
proof (induction k arbitrary: x)
  case 0
  then show ?case by (subst digit_loop_step) simp_all
next
  case (Suc k)
  have "x div base < base ^ Suc k" using Suc(2,3) less_mult_imp_div_less [of x "base ^ Suc k" base] by (simp add: mult.commute)
  then have "length (digit_loop base (x div base)) \<le> Suc k" using Suc by simp
  then show ?case by (subst digit_loop_step [OF Suc(2)]) simp
qed

lemma digit_loop_no_minus: "2 \<le> base \<Longrightarrow> base \<le> 16 \<Longrightarrow> 0x2D \<notin> set (digit_loop base x)"
proof (induction base x rule: digit_loop.induct)
  case (1 base x)
  have "digits ! (x mod base) \<noteq> 0x2D" by (rule digit_mod [OF 1(2,3)])
  then show ?case using 1 by (subst digit_loop_step [OF 1(2)]) auto
qed

lemma digit_loop_not_Nil: "digit_loop base x \<noteq> []"
  by (subst digit_loop.simps) simp

lemma read_number_digits:
  assumes "2 \<le> base" "base \<le> 16"
  shows "read_number base (rev (digit_loop base x)) = int x"
    and "read_number base (rev (digit_loop base x @ [0x2D])) = - int x"
proof -
  obtain c ds where c: "rev (digit_loop base x) = c # ds" using digit_loop_not_Nil [of base x] by (cases "rev (digit_loop base x)") auto
  then have "c \<in> set (digit_loop base x)" by (metis list.set_intros(1) set_rev)
  then have "c \<noteq> 0x2D" using digit_loop_no_minus [OF assms] by auto
  moreover have d: "rev ds @ [c] = digit_loop base x" using arg_cong [OF c, of rev] by simp
  ultimately show "read_number base (rev (digit_loop base x)) = int x"
    using digits_value_loop [OF assms, of x] by (simp add: read_number_def c d)
  show "read_number base (rev (digit_loop base x @ [0x2D])) = - int x"
    using digits_value_loop [OF assms, of x] by (simp add: read_number_def)
qed

lemma sint_64: "sint (x :: u64) = (if uint x < 2 ^ 63 then uint x else uint x - 2 ^ 64)"
proof -
  have s: "sint x = (uint x + 2 ^ 63) mod 2 ^ 64 - 2 ^ 63" using int_word_sint [of "uint x", where 'a = 64] by simp
  have u: "uint x < 2 ^ 64" "0 \<le> uint x" using uint_lt2p [of x] by simp_all
  show ?thesis
  proof (cases "uint x < 2 ^ 63")
    case True
    then have "(uint x + 2 ^ 63) mod 2 ^ 64 = uint x + 2 ^ 63" using u by (intro mod_pos_pos_trivial) simp_all
    then show ?thesis using s True by simp
  next
    case False
    have "(uint x + 2 ^ 63) mod 2 ^ 64 = (uint x - 2 ^ 63 + 2 ^ 64) mod 2 ^ 64" by (simp add: add.commute)
    also have "\<dots> = (uint x - 2 ^ 63) mod 2 ^ 64" by (rule mod_add_self2)
    also have "\<dots> = uint x - 2 ^ 63" using u False by (intro mod_pos_pos_trivial) simp_all
    finally show ?thesis using s False by simp
  qed
qed

lemma unat_neg_64: "sint (x :: u64) < 0 \<Longrightarrow> int (unat (- x)) = - sint x \<and> unat (- x) \<le> 2 ^ 63"
proof -
  assume a: "sint x < 0"
  have u: "2 ^ 63 \<le> uint x" "sint x = uint x - 2 ^ 64" using a uint_ge_0 [of x] by (auto simp: sint_64 split: if_splits)
  have "uint (- x) = (- uint x) mod 2 ^ 64" by (simp add: uint_word_ariths)
  also have "\<dots> = (- uint x + 2 ^ 64) mod 2 ^ 64" by (rule mod_add_self2 [symmetric])
  also have "\<dots> = - uint x + 2 ^ 64" using u uint_lt2p [of x] by (intro mod_pos_pos_trivial) simp_all
  finally have "uint (- x) = 2 ^ 64 - uint x" by simp
  then have i: "int (unat (- x)) = 2 ^ 64 - uint x" by simp
  then have "int (unat (- x)) \<le> int (2 ^ 63)" using u by simp
  then have "unat (- x) \<le> 2 ^ 63" by (simp only: of_nat_le_iff)
  then show ?thesis using i u by simp
qed

text \<open>C30. The buffer of \<open>printint\<close> is large enough: for both bases the kernel uses, signed or not, at most
  its 20 characters are written, the most negative 64-bit number included. The printed text read back as a number is
  the argument.\<close>

theorem printint_fits_and_reads_back:
  assumes "base = 10 \<or> base = 16"
  shows "length (printint_buf xx base sign) \<le> 20 \<and>
    read_number base (rev (printint_buf xx base sign)) = (if sign then sint xx else uint xx)"
proof -
  have b: "2 \<le> base" "base \<le> 16" using assms by auto
  have len: "length (digit_loop base (unat x)) \<le> 20" for x :: u64
    using digit_loop_length [of base "unat x" 19] unat_less_64 [of x] assms b by (auto simp del: unat_less_64)
  show ?thesis
  proof (cases "sign \<and> sint xx < 0")
    case True
    have "unat (- xx) < base ^ Suc 18" using unat_neg_64 [of xx] True assms by auto
    then have "length (digit_loop base (unat (- xx))) \<le> 19" using digit_loop_length [OF b(1), of "unat (- xx)" 18] by simp
    then show ?thesis
      using True read_number_digits(2) [OF b, of "unat (- xx)"] unat_neg_64 [of xx] by (simp add: printint_buf_def Let_def del: rev_append)
  next
    case False
    have "sign \<Longrightarrow> sint xx = uint xx" using False uint_lt2p [of xx] by (auto simp: sint_64 split: if_splits)
    then show ?thesis using False len [of xx] read_number_digits(1) [OF b, of "unat xx"]
      by (simp add: printint_buf_def Let_def)
  qed
qed

theorem printint_fits_and_reads_back_witness:
  "length (printint_buf (- 0x8000000000000000) 10 True) \<le> 20 \<and>
   read_number 10 (rev (printint_buf (- 0x8000000000000000) 10 True)) = - 9223372036854775808"
  using printint_fits_and_reads_back [of 10 "- 0x8000000000000000" True] by simp

end
