(* ===== verification/Console.thy ===== *)
theory Console
  imports Uart
begin

text \<open>
  The console, \<^verbatim>\<open>kernel/console.c\<close>, with \<open>uartintr\<close> of \<^verbatim>\<open>kernel/uart.c\<close>: the line discipline that
  collects typed characters in a ring buffer, and the read and write routines of the console device.
\<close>

definition INPUT_BUF_SIZE :: nat where "INPUT_BUF_SIZE = 128"

definition Ctrl :: "int \<Rightarrow> int" where "Ctrl x = x - 0x40"

text \<open>\<open>devsw\<close>: which device driver serves a major number. The console is the only one.\<close>

datatype device = ConsoleDevice

definition CONSOLE :: nat where "CONSOLE = 1"

record consst = uartst +
  cons_buf :: "nat \<Rightarrow> u8"
  cons_r :: u32
  cons_w :: u32
  cons_e :: u32
  devsw :: "nat \<Rightarrow> device option"

definition cons_at :: "u32 \<Rightarrow> nat" where
  "cons_at i = unat i mod INPUT_BUF_SIZE"

function consolewrite_loop :: "'a consst_scheme env \<Rightarrow> source \<Rightarrow> nat \<Rightarrow> int \<Rightarrow> 'a consst_scheme \<Rightarrow> (int \<times> 'a consst_scheme env \<times> 'a consst_scheme) res" where
  "consolewrite_loop env src left i s =
     (if left = 0 then Ok (i, env, s)
      else let nn = min 32 left in
        rbind (either_copyin src nn s) (\<lambda>(r, buf, s1).
        if r = - 1 then Ok (i, env, s1)
        else rbind (uartwrite env buf s1) (\<lambda>(env', s2).
          consolewrite_loop env' (source_add src nn) (left - nn) (i + int nn) s2)))"
  by pat_completeness auto
termination
  by (relation "measure (\<lambda>(env, src, left, i, s). left)") auto

declare consolewrite_loop.simps [simp del]

definition consolewrite :: "'a consst_scheme env \<Rightarrow> source \<Rightarrow> int \<Rightarrow> 'a consst_scheme \<Rightarrow> (int \<times> 'a consst_scheme env \<times> 'a consst_scheme) res" where
  "consolewrite env src n s = consolewrite_loop env src (nat n) 0 s"

text \<open>The inner loop of \<open>consoleread\<close>. The boolean says that the process was killed while it waited.\<close>

fun consoleread_wait :: "'a consst_scheme env \<Rightarrow> 'a consst_scheme \<Rightarrow> (bool \<times> 'a consst_scheme env \<times> 'a consst_scheme) res" where
  "consoleread_wait env s =
     (if cons_r s \<noteq> cons_w s then Ok (False, env, s)
      else with_proc s (\<lambda>p. rbind (killed p s) (\<lambda>(k, s1).
        if k \<noteq> 0 then Ok (True, env, s1)
        else case env of [] \<Rightarrow> Blocked
          | e # es \<Rightarrow> rbind (sleep e ChCons ConsLock s1) (consoleread_wait es))))"

fun consoleread_loop :: "'a consst_scheme env \<Rightarrow> dest \<Rightarrow> nat \<Rightarrow> nat \<Rightarrow> 'a consst_scheme \<Rightarrow> (int \<times> 'a consst_scheme env \<times> 'a consst_scheme) res" where
  "consoleread_loop env dst 0 target s = rbind (krelease ConsLock s) (\<lambda>s1. Ok (int target, env, s1))"
| "consoleread_loop env dst (Suc n) target s =
     rbind (consoleread_wait env s) (\<lambda>(k, env1, s1).
     if k then rbind (krelease ConsLock s1) (\<lambda>s2. Ok (- 1, env1, s2))
     else
       let c = cons_buf s1 (cons_at (cons_r s1));
           s2 = s1\<lparr>cons_r := cons_r s1 + 1\<rparr>
       in if uint c = Ctrl 0x44
          then rbind (krelease ConsLock (if Suc n < target then s2\<lparr>cons_r := cons_r s2 - 1\<rparr> else s2)) (\<lambda>s3.
               Ok (int target - int (Suc n), env1, s3))
          else rbind (either_copyout dst [c] s2) (\<lambda>(r, s3).
            if r = - 1
            then rbind (krelease ConsLock s3) (\<lambda>s4. Ok (int target - int (Suc n), env1, s4))
            else if c = 0x0A
            then rbind (krelease ConsLock s3) (\<lambda>s4. Ok (int target - int n, env1, s4))
            else consoleread_loop env1 (dest_add dst 1) n target s3))"

text \<open>\<open>target\<close> is \<open>n\<close>; for \<open>n \<le> 0\<close> the loop body does not run and the result is 0.\<close>

definition consoleread :: "'a consst_scheme env \<Rightarrow> dest \<Rightarrow> int \<Rightarrow> 'a consst_scheme \<Rightarrow> (int \<times> 'a consst_scheme env \<times> 'a consst_scheme) res" where
  "consoleread env dst n s = rbind (kacquire ConsLock s) (\<lambda>s1.
     if n \<le> 0 then rbind (krelease ConsLock s1) (\<lambda>s2. Ok (0, env, s2))
     else consoleread_loop env dst (nat n) (nat n) s1)"

text \<open>The loop of control-u removes at most the \<open>k = e - w\<close> characters of the unfinished line.\<close>

fun kill_line :: "nat \<Rightarrow> 'a consst_scheme \<Rightarrow> 'a consst_scheme res" where
  "kill_line 0 s = Ok s"
| "kill_line (Suc k) s =
     (if cons_buf s (cons_at (cons_e s - 1)) = 0x0A then Ok s
      else rbind (consputc BACKSPACE (s\<lparr>cons_e := cons_e s - 1\<rparr>)) (kill_line k))"

definition consoleintr_char :: "int \<Rightarrow> 'a consst_scheme \<Rightarrow> 'a consst_scheme res" where
  "consoleintr_char c s =
     (if c \<noteq> 0 \<and> cons_e s - cons_r s < of_nat INPUT_BUF_SIZE
      then let c = (if c = 0x0D then 0x0A else c) in
        rbind (consputc c s) (\<lambda>s1.
          let s2 = s1\<lparr>cons_buf := (cons_buf s1)(cons_at (cons_e s1) := word_of_int c), cons_e := cons_e s1 + 1\<rparr>
          in if c = 0x0A \<or> c = Ctrl 0x44 \<or> cons_e s2 - cons_r s2 = of_nat INPUT_BUF_SIZE
             then wakeup ChCons (s2\<lparr>cons_w := cons_e s2\<rparr>) else Ok s2)
      else Ok s)"

definition consoleintr :: "int \<Rightarrow> 'a consst_scheme \<Rightarrow> 'a consst_scheme res" where
  "consoleintr c s = rbind (kacquire ConsLock s) (\<lambda>s1.
     rbind (if c = Ctrl 0x50 then procdump s1
            else if c = Ctrl 0x55 then kill_line (unat (cons_e s1 - cons_w s1)) s1
            else if c = Ctrl 0x48 \<or> c = 0x7F
            then if cons_e s1 \<noteq> cons_w s1 then consputc BACKSPACE (s1\<lparr>cons_e := cons_e s1 - 1\<rparr>) else Ok s1
            else consoleintr_char c s1)
       (krelease ConsLock))"

definition consoleinit :: "'a consst_scheme \<Rightarrow> 'a consst_scheme" where
  "consoleinit s =
     (let s1 = uartinit (s\<lparr>mach := initlock ConsLock ''cons'' (mach s)\<rparr>)
      in s1\<lparr>devsw := (devsw s1)(CONSOLE := Some ConsoleDevice)\<rparr>)"

text \<open>The input loop of \<open>uartintr\<close>: one character for each status value that says data is ready.\<close>

fun uartintr_loop :: "nat \<Rightarrow> 'a consst_scheme \<Rightarrow> 'a consst_scheme res" where
  "uartintr_loop 0 s = Blocked"
| "uartintr_loop (Suc k) s = rbind (uartgetc s) (\<lambda>(c, s1).
     if c = - 1 then Ok s1 else rbind (consoleintr c s1) (uartintr_loop k))"

definition uartintr :: "'a consst_scheme \<Rightarrow> 'a consst_scheme res" where
  "uartintr s = rbind (kacquire TxLock s) (\<lambda>s1.
     case lsr_in s1 of
       [] \<Rightarrow> Blocked
     | v # vs \<Rightarrow>
         let s2 = s1\<lparr>lsr_in := vs\<rparr> in
         rbind (if v AND LSR_TX_IDLE \<noteq> 0 then wakeup ChTx (s2\<lparr>tx_busy := False\<rparr>) else Ok s2) (\<lambda>s3.
         rbind (krelease TxLock s3) (\<lambda>s4. uartintr_loop (Suc (length (lsr_in s4))) s4)))"

declare consoleread_wait.simps [simp del]

section \<open>Byte rings\<close>

text \<open>
  The input buffer and the pipes are rings: \<open>N\<close> bytes and counters that run through all 32-bit values, a
  counter modulo \<open>N\<close> being the slot. This is sound because \<open>N\<close> divides \<open>2 ^ 32\<close>. \<open>between r n\<close> is the content of
  the \<open>n\<close> slots from counter value \<open>r\<close> on.
\<close>

definition between :: "nat \<Rightarrow> (nat \<Rightarrow> u8) \<Rightarrow> u32 \<Rightarrow> nat \<Rightarrow> u8 list" where
  "between N buf r n = map (\<lambda>i. buf ((unat r + i) mod N)) [0..<n]"

lemma length_between [simp]: "length (between N buf r n) = n"
  by (simp add: between_def)

locale byte_ring =
  fixes N :: nat
  assumes pos: "0 < N" and dvd: "N dvd 2 ^ 32"
begin

lemma slot_add: "unat (r + of_nat i :: u32) mod N = (unat r + i) mod N"
proof -
  have "unat (r + of_nat i) = (unat r + i) mod 2 ^ 32" by (simp add: unat_word_ariths unat_of_nat mod_add_right_eq)
  then show ?thesis using dvd by (simp only: mod_mod_cancel)
qed

lemma between_Suc: "between N buf r (Suc n) = between N buf r n @ [buf (unat (r + of_nat n) mod N)]"
  by (simp add: between_def slot_add)

lemma between_Cons: "between N buf r (Suc n) = buf (unat r mod N) # between N buf (r + 1) n"
proof -
  have "(unat (r + 1) + i) mod N = (unat r + Suc i) mod N" for i
    using slot_add [of r "Suc 0"] by (simp add: mod_add_cong [of "unat (r + 1)" N "unat r + 1" i i])
  then show ?thesis by (simp add: between_def map_upt_Suc del: upt_Suc)
qed

lemma slot_distinct: "i < n \<Longrightarrow> n < N \<Longrightarrow> (r + i) mod N \<noteq> (r + n) mod N"
proof
  assume a: "i < n" "n < N" "(r + i) mod N = (r + n) mod N"
  have "N dvd (r + n) - (r + i)" using a mod_eq_dvd_iff_nat [of "r + i" "r + n" N] by auto
  then have "N \<le> n - i" using a by (auto dest: dvd_imp_le)
  then show False using a by simp
qed

lemma between_store: "n < N \<Longrightarrow> between N (buf(unat (r + of_nat n) mod N := c)) r n = between N buf r n"
  using slot_distinct [of _ n "unat r"] by (auto simp: between_def slot_add)

lemma between_push: "n < N \<Longrightarrow> between N (buf(unat (r + of_nat n) mod N := c)) r (Suc n) = between N buf r n @ [c]"
  by (simp add: between_Suc between_store)

lemma between_append: "between N buf r (m + n) = between N buf r m @ between N buf (r + of_nat m) n"
  by (induction n) (simp_all add: between_Suc add.assoc between_def [of N buf r 0], simp add: between_def)

end

interpretation conring: byte_ring INPUT_BUF_SIZE
  by unfold_locales (simp_all add: INPUT_BUF_SIZE_def)

section \<open>Echo\<close>

text \<open>How often the status register will still say that the transmitter is idle. A character is echoed when it is idle
  once, a backspace when it is idle three times.\<close>

abbreviation tx_idle :: "u8 \<Rightarrow> bool" where
  "tx_idle v \<equiv> v AND LSR_TX_IDLE \<noteq> 0"

definition idle_reads :: "'a uartst_scheme \<Rightarrow> nat" where
  "idle_reads s = length (filter tx_idle (lsr_in s))"

lemma dropWhile_to_idle:
  "0 < length (filter P xs) \<Longrightarrow> \<exists>v rest. dropWhile (\<lambda>v. \<not> P v) xs = v # rest \<and> length (filter P xs) = Suc (length (filter P rest))"
  by (induction xs) auto

lemma uartputc_sync_ok:
  assumes "mach_ok (mach s)" "sync (mach s) = mach s" "\<not> panicked s" "0 < idle_reads s"
  shows "\<exists>l w. uartputc_sync c s = Ok (s\<lparr>lsr_in := l, uart_regs := w\<rparr>) \<and> length (filter tx_idle l) + 1 = idle_reads s"
proof -
  from dropWhile_to_idle [OF assms(4) [unfolded idle_reads_def]] obtain v rest where
    r: "dropWhile (\<lambda>v. v AND LSR_TX_IDLE = 0) (lsr_in s) = v # rest" "idle_reads s = Suc (length (filter tx_idle rest))"
    by (auto simp: idle_reads_def)
  have "uartputc_sync c s = Ok (s\<lparr>lsr_in := rest, uart_regs := uart_regs s @ [(THR, c)]\<rparr>)"
    using assms(1-3) r(1)
    by (simp add: uartputc_sync_def Let_def kpush_off_def kpop_off_def WriteReg_def pop_off_push_off)
  then show ?thesis using r(2) by auto
qed

lemma consputc_ok:
  assumes "mach_ok (mach s)" "sync (mach s) = mach s" "\<not> panicked s" "3 \<le> idle_reads s"
  shows "\<exists>l w. consputc c s = Ok (s\<lparr>lsr_in := l, uart_regs := w\<rparr>) \<and> idle_reads s \<le> length (filter tx_idle l) + 3"
proof (cases "c = BACKSPACE")
  case True
  obtain l1 w1 where 1: "uartputc_sync 8 s = Ok (s\<lparr>lsr_in := l1, uart_regs := w1\<rparr>)" "length (filter tx_idle l1) + 1 = idle_reads s"
    using uartputc_sync_ok [of s 8] assms by auto
  let ?s1 = "s\<lparr>lsr_in := l1, uart_regs := w1\<rparr>"
  have p1: "0 < idle_reads ?s1" using assms(4) 1(2) by (simp add: idle_reads_def del: length_greater_0_conv)
  obtain l2 w2 where 2: "uartputc_sync 0x20 ?s1 = Ok (?s1\<lparr>lsr_in := l2, uart_regs := w2\<rparr>)" "length (filter tx_idle l2) + 1 = idle_reads ?s1"
    using uartputc_sync_ok [of ?s1 "0x20", OF _ _ _ p1] assms by auto
  let ?s2 = "?s1\<lparr>lsr_in := l2, uart_regs := w2\<rparr>"
  have p2: "0 < idle_reads ?s2" using assms(4) 1(2) 2(2) by (simp add: idle_reads_def del: length_greater_0_conv)
  obtain l3 w3 where 3: "uartputc_sync 8 ?s2 = Ok (?s2\<lparr>lsr_in := l3, uart_regs := w3\<rparr>)" "length (filter tx_idle l3) + 1 = idle_reads ?s2"
    using uartputc_sync_ok [of ?s2 8, OF _ _ _ p2] assms by auto
  show ?thesis using True 1 2 3 by (auto simp: consputc_def idle_reads_def)
next
  case False
  then show ?thesis using uartputc_sync_ok [of s "word_of_int c"] assms by (fastforce simp: consputc_def)
qed

section \<open>Line editing\<close>

text \<open>
  The specification of the input side: the characters ready for \<open>consoleread\<close> and the line being edited.
  \<open>line_edit\<close> is what a typed character does to them.
\<close>

definition kill_chars :: "u8 list \<Rightarrow> u8 list" where
  "kill_chars line = rev (dropWhile (\<lambda>c. c \<noteq> 0x0A) (rev line))"

fun line_edit :: "int \<Rightarrow> u8 list \<times> u8 list \<Rightarrow> u8 list \<times> u8 list" where
  "line_edit c (inp, line) =
     (if c = Ctrl 0x55 then (inp, kill_chars line)
      else if c = Ctrl 0x48 \<or> c = 0x7F then (inp, butlast line)
      else if c = 0 \<or> INPUT_BUF_SIZE \<le> length inp + length line then (inp, line)
      else
        let ch = (if c = 0x0D then 0x0A else c); line1 = line @ [word_of_int ch] in
        if ch = 0x0A \<or> ch = Ctrl 0x44 \<or> length inp + length line1 = INPUT_BUF_SIZE then (inp @ line1, []) else (inp, line1))"

definition cons_view :: "'a consst_scheme \<Rightarrow> u8 list \<times> u8 list" where
  "cons_view s = (between INPUT_BUF_SIZE (cons_buf s) (cons_r s) (unat (cons_w s - cons_r s)),
                  between INPUT_BUF_SIZE (cons_buf s) (cons_w s) (unat (cons_e s - cons_w s)))"

definition cons_ok :: "'a consst_scheme \<Rightarrow> bool" where
  "cons_ok s \<longleftrightarrow> unat (cons_w s - cons_r s) + unat (cons_e s - cons_w s) \<le> INPUT_BUF_SIZE"

text \<open>The counters in terms of the two lengths.\<close>

definition cons_counts :: "'a consst_scheme \<Rightarrow> nat \<Rightarrow> nat \<Rightarrow> bool" where
  "cons_counts s a b \<longleftrightarrow> cons_w s = cons_r s + of_nat a \<and> cons_e s = cons_w s + of_nat b \<and> a + b \<le> INPUT_BUF_SIZE"

lemma unat_counter: "n \<le> INPUT_BUF_SIZE \<Longrightarrow> unat (r + of_nat n - r :: u32) = n"
  by (simp add: unat_of_nat INPUT_BUF_SIZE_def)

lemma cons_countsD:
  assumes "cons_counts s a b"
  shows "cons_ok s" "cons_view s = (between INPUT_BUF_SIZE (cons_buf s) (cons_r s) a, between INPUT_BUF_SIZE (cons_buf s) (cons_w s) b)"
    "unat (cons_e s - cons_w s) = b" "unat (cons_e s - cons_r s) = a + b"
proof -
  have u: "unat (cons_w s - cons_r s) = a" "unat (cons_e s - cons_w s) = b"
    using assms unat_counter [of a "cons_r s"] unat_counter [of b "cons_w s"] by (simp_all add: cons_counts_def)
  have "cons_e s = cons_r s + of_nat (a + b)" using assms by (simp add: cons_counts_def add.assoc)
  then show "unat (cons_e s - cons_r s) = a + b" using unat_counter [of "a + b" "cons_r s"] assms by (simp add: cons_counts_def)
  show "cons_ok s" "unat (cons_e s - cons_w s) = b" using u assms by (simp_all add: cons_ok_def cons_counts_def)
  show "cons_view s = (between INPUT_BUF_SIZE (cons_buf s) (cons_r s) a, between INPUT_BUF_SIZE (cons_buf s) (cons_w s) b)"
    using u by (simp add: cons_view_def)
qed

lemma cons_ok_counts: "cons_ok s \<Longrightarrow> cons_counts s (unat (cons_w s - cons_r s)) (unat (cons_e s - cons_w s))"
  by (simp add: cons_counts_def cons_ok_def)

lemma kill_chars_snoc: "kill_chars (xs @ [c]) = (if c = 0x0A then xs @ [c] else kill_chars xs)"
  by (simp add: kill_chars_def)

lemma kill_line_ok:
  assumes "mach_ok (mach s)" "sync (mach s) = mach s" "\<not> panicked s" "3 * b \<le> idle_reads s"
    and "cons_e s = cons_w s + of_nat b"
  shows "\<exists>l w b'. kill_line b s = Ok (s\<lparr>cons_e := cons_w s + of_nat b', lsr_in := l, uart_regs := w\<rparr>) \<and> b' \<le> b \<and>
    between INPUT_BUF_SIZE (cons_buf s) (cons_w s) b' = kill_chars (between INPUT_BUF_SIZE (cons_buf s) (cons_w s) b)"
  using assms
proof (induction b arbitrary: s)
  case 0
  have "cons_w s + of_nat 0 = cons_e s" using 0(5) by simp
  then have "kill_line 0 s = Ok (s\<lparr>cons_e := cons_w s + of_nat 0, lsr_in := lsr_in s, uart_regs := uart_regs s\<rparr>)"
    by (simp only: kill_line.simps) simp
  then show ?case by (intro exI conjI) (assumption, simp, simp add: kill_chars_def between_def)
next
  case (Suc b)
  have e: "cons_e s - 1 = cons_w s + of_nat b" using Suc(6) by simp
  have last: "between INPUT_BUF_SIZE (cons_buf s) (cons_w s) (Suc b) =
    between INPUT_BUF_SIZE (cons_buf s) (cons_w s) b @ [cons_buf s (cons_at (cons_e s - 1))]"
    by (simp add: conring.between_Suc cons_at_def e)
  show ?case
  proof (cases "cons_buf s (cons_at (cons_e s - 1)) = 0x0A")
    case True
    then have "kill_line (Suc b) s = Ok (s\<lparr>cons_e := cons_w s + of_nat (Suc b), lsr_in := lsr_in s, uart_regs := uart_regs s\<rparr>)"
      by (simp only: kill_line.simps Suc(6) [symmetric]) simp
    then show ?thesis using last True by (intro exI conjI) (assumption, simp, simp add: kill_chars_snoc)
  next
    case False
    let ?t = "s\<lparr>cons_e := cons_e s - 1\<rparr>"
    obtain l w where c: "consputc BACKSPACE ?t = Ok (?t\<lparr>lsr_in := l, uart_regs := w\<rparr>)" "idle_reads ?t \<le> length (filter tx_idle l) + 3"
      using consputc_ok [of ?t BACKSPACE] Suc(2-5) by (auto simp: idle_reads_def)
    let ?u = "?t\<lparr>lsr_in := l, uart_regs := w\<rparr>"
    have "3 * b \<le> idle_reads ?u" using Suc(5) c(2) by (simp add: idle_reads_def)
    then obtain l' w' b' where r: "kill_line b ?u = Ok (?u\<lparr>cons_e := cons_w ?u + of_nat b', lsr_in := l', uart_regs := w'\<rparr>)" "b' \<le> b"
      "between INPUT_BUF_SIZE (cons_buf ?u) (cons_w ?u) b' = kill_chars (between INPUT_BUF_SIZE (cons_buf ?u) (cons_w ?u) b)"
      using Suc.IH [of ?u] Suc(2-4) e by auto
    have "kill_line (Suc b) s = Ok (s\<lparr>cons_e := cons_w s + of_nat b', lsr_in := l', uart_regs := w'\<rparr>)"
      using False c(1) r(1) by simp
    then show ?thesis using r(2,3) last False by (intro exI conjI) (assumption, simp, simp add: kill_chars_snoc)
  qed
qed

text \<open>Storing a character behind the edited line, and making the line available.\<close>

lemma cons_store:
  assumes n: "cons_counts s a b" "a + b < INPUT_BUF_SIZE"
    and t: "cons_buf t = (cons_buf s)(cons_at (cons_e s) := c)" "cons_e t = cons_e s + 1" "cons_r t = cons_r s" "cons_w t = cons_w s"
  shows "cons_counts t a (Suc b)"
    "between INPUT_BUF_SIZE (cons_buf t) (cons_r t) a = between INPUT_BUF_SIZE (cons_buf s) (cons_r s) a"
    "between INPUT_BUF_SIZE (cons_buf t) (cons_w t) (Suc b) = between INPUT_BUF_SIZE (cons_buf s) (cons_w s) b @ [c]"
proof -
  have w: "cons_w s = cons_r s + of_nat a" and e: "cons_e s = cons_w s + of_nat b" using n by (simp_all add: cons_counts_def)
  have e': "cons_e s = cons_r s + of_nat (a + b)" by (simp add: e w add.assoc)
  show "cons_counts t a (Suc b)" using n t by (simp add: cons_counts_def)
  show "between INPUT_BUF_SIZE (cons_buf t) (cons_w t) (Suc b) = between INPUT_BUF_SIZE (cons_buf s) (cons_w s) b @ [c]"
    using conring.between_push [of b "cons_buf s" "cons_w s" c] n(2) unfolding e [symmetric] by (simp add: t cons_at_def)
  have "between INPUT_BUF_SIZE (cons_buf t) (cons_r t) (a + b) = between INPUT_BUF_SIZE (cons_buf s) (cons_r s) (a + b)"
    using conring.between_store [OF n(2), of "cons_buf s" "cons_r s" c] unfolding e' [symmetric] by (simp add: t cons_at_def)
  then show "between INPUT_BUF_SIZE (cons_buf t) (cons_r t) a = between INPUT_BUF_SIZE (cons_buf s) (cons_r s) a"
    by (simp add: conring.between_append)
qed

lemma cons_commit:
  assumes "cons_counts s a b"
  shows "cons_counts (s\<lparr>cons_w := cons_e s\<rparr>) (a + b) 0"
    "cons_view (s\<lparr>cons_w := cons_e s\<rparr>) = (fst (cons_view s) @ snd (cons_view s), [])"
proof -
  show c: "cons_counts (s\<lparr>cons_w := cons_e s\<rparr>) (a + b) 0" using assms by (simp add: cons_counts_def add.assoc)
  have "cons_w s = cons_r s + of_nat a" using assms by (simp add: cons_counts_def)
  then show "cons_view (s\<lparr>cons_w := cons_e s\<rparr>) = (fst (cons_view s) @ snd (cons_view s), [])"
    by (simp add: cons_countsD(2) [OF c] cons_countsD(2) [OF assms] conring.between_append) (simp add: between_def)
qed

lemma cons_view_cong:
  "cons_buf t = cons_buf s \<Longrightarrow> cons_r t = cons_r s \<Longrightarrow> cons_w t = cons_w s \<Longrightarrow> cons_e t = cons_e s \<Longrightarrow>
    cons_view t = cons_view s \<and> cons_ok t = cons_ok s"
  by (simp add: cons_view_def cons_ok_def)

lemma consoleintr_char_ok:
  assumes m: "proc_locks_ok s" "sync (mach s) = mach s" "\<not> panicked s" "3 \<le> idle_reads s" and n: "cons_counts s a b"
    and c: "c \<noteq> Ctrl 0x55" "c \<noteq> Ctrl 0x48" "c \<noteq> 0x7F"
  shows "\<exists>s'. consoleintr_char c s = Ok s' \<and> mach s' = mach s \<and> cons_ok s' \<and> cons_view s' = line_edit c (cons_view s)"
proof -
  have lt: "cons_e s - cons_r s < of_nat INPUT_BUF_SIZE \<longleftrightarrow> a + b < INPUT_BUF_SIZE"
    using cons_countsD(4) [OF n] by (simp add: word_less_nat_alt unat_of_nat INPUT_BUF_SIZE_def)
  show ?thesis
  proof (cases "c = 0 \<or> INPUT_BUF_SIZE \<le> a + b")
    case True
    then have "consoleintr_char c s = Ok s" using lt by (auto simp: consoleintr_char_def)
    then show ?thesis using True c cons_countsD(1,2) [OF n] by simp
  next
    case False
    then have ab: "a + b < INPUT_BUF_SIZE" and c0: "c \<noteq> 0" by auto
    define ch where "ch = (if c = 0x0D then 0x0A else c)"
    obtain l w where p: "consputc ch s = Ok (s\<lparr>lsr_in := l, uart_regs := w\<rparr>)"
      using consputc_ok [of s ch] m by (auto simp: proc_locks_ok_def)
    define t where "t = s\<lparr>lsr_in := l, uart_regs := w, cons_buf := (cons_buf s)(cons_at (cons_e s) := word_of_int ch),
      cons_e := cons_e s + 1\<rparr>"
    have k: "cons_counts t a (Suc b)"
      and v: "cons_view t = (fst (cons_view s), snd (cons_view s) @ [word_of_int ch])"
      using cons_store [OF n ab, of t "word_of_int ch"] cons_countsD(2) [OF n] cons_countsD(2) [of t a "Suc b"]
      by (simp_all add: t_def)
    have full: "cons_e t - cons_r t = of_nat INPUT_BUF_SIZE \<longleftrightarrow> a + Suc b = INPUT_BUF_SIZE"
      using cons_countsD(4) [OF k] ab by (simp add: word_unat_eq_iff unat_of_nat INPUT_BUF_SIZE_def)
    have len: "length (fst (cons_view s)) = a" "length (snd (cons_view s)) = b" using cons_countsD(2) [OF n] by simp_all
    let ?commit = "ch = 0x0A \<or> ch = Ctrl 0x44 \<or> a + Suc b = INPUT_BUF_SIZE"
    have spec: "line_edit c (cons_view s) = (if ?commit then (fst (cons_view t) @ snd (cons_view t), []) else cons_view t)"
      using c c0 ab len by (cases "cons_view s") (simp add: v ch_def Let_def)
    have run: "consoleintr_char c s = (if ?commit then wakeup ChCons (t\<lparr>cons_w := cons_e t\<rparr>) else Ok t)"
      using c0 lt ab p full by (simp add: consoleintr_char_def ch_def [symmetric] t_def Let_def)
    let ?u = "t\<lparr>cons_w := cons_e t\<rparr>"
    have "proc_locks_ok ?u" "mach ?u = mach s" using m by (simp_all add: t_def proc_locks_ok_def)
    then have "wakeup ChCons ?u = Ok (?u\<lparr>mach := mach s, procs := woken ChCons (myproc ?u) {0..<NPROC} (procs ?u)\<rparr>)"
      using wakeup_ok [of ?u ChCons] m(2) by simp
    then show ?thesis
      using run spec k cons_commit [OF k] cons_countsD(1) [OF k] cons_countsD(1) [OF cons_commit(1) [OF k]]
      by (auto simp: t_def cons_view_def cons_ok_def)
  qed
qed

text \<open>C8. The console's interrupt handler edits the input line as documented. For every character but control-p, which
  prints the process list, the handler returns; the characters available to \<open>consoleread\<close> and the line
  being edited change as \<open>line_edit\<close> says (erase, kill, end of line, end of file, full buffer), and together they never
  exceed the buffer. The counters may wrap around. The transmitter is assumed to become idle often enough for the
  echo.\<close>

theorem consoleintr_edits_line:
  assumes "cons_ok s" and "proc_locks_ok s" and "lock_free ConsLock (mach s)" and "\<not> panicked s" and "c \<noteq> Ctrl 0x50"
    and "3 * (unat (cons_e s - cons_w s) + 1) \<le> idle_reads s"
  shows "\<exists>s'. consoleintr c s = Ok s' \<and> cons_ok s' \<and> cons_view s' = line_edit c (cons_view s)"
proof -
  let ?s = "s\<lparr>mach := lockd ConsLock (mach s)\<rparr>" and ?a = "unat (cons_w s - cons_r s)" and ?b = "unat (cons_e s - cons_w s)"
  have m: "mach_ok (mach s)" "mach_ok (mach ?s)" "sync (mach ?s) = mach ?s" "proc_locks_ok ?s"
    using assms(2) by (simp_all add: proc_locks_ok_def)
  have n: "cons_counts ?s ?a ?b" using cons_ok_counts [OF assms(1)] by (simp add: cons_counts_def)
  have v: "cons_view ?s = cons_view s" by (simp add: cons_view_def)
  have i: "3 * (?b + 1) \<le> idle_reads ?s" "\<not> panicked ?s" using assms(4,6) by (simp_all add: idle_reads_def)
  have body: "\<exists>t. (if c = Ctrl 0x55 then kill_line (unat (cons_e ?s - cons_w ?s)) ?s
      else if c = Ctrl 0x48 \<or> c = 0x7F
      then if cons_e ?s \<noteq> cons_w ?s then consputc BACKSPACE (?s\<lparr>cons_e := cons_e ?s - 1\<rparr>) else Ok ?s
      else consoleintr_char c ?s) = Ok t \<and> mach t = mach ?s \<and> cons_ok t \<and> cons_view t = line_edit c (cons_view s)"
  proof (cases "c = Ctrl 0x55")
    case True
    have e: "cons_e ?s = cons_w ?s + of_nat ?b" by simp
    obtain l w b' where k: "kill_line ?b ?s = Ok (?s\<lparr>cons_e := cons_w ?s + of_nat b', lsr_in := l, uart_regs := w\<rparr>)" "b' \<le> ?b"
      "between INPUT_BUF_SIZE (cons_buf ?s) (cons_w ?s) b' = kill_chars (between INPUT_BUF_SIZE (cons_buf ?s) (cons_w ?s) ?b)"
      using kill_line_ok [OF m(2,3) i(2) _ e] i(1) by auto
    let ?t = "?s\<lparr>cons_e := cons_w ?s + of_nat b', lsr_in := l, uart_regs := w\<rparr>"
    have "cons_counts ?t ?a b'" using n k(2) by (simp add: cons_counts_def)
    then show ?thesis using True k(1,3) cons_countsD(1,2) [of ?t ?a b'] cons_countsD(2) [OF n] v by simp
  next
    case False
    show ?thesis
    proof (cases "c = Ctrl 0x48 \<or> c = 0x7F")
      case True
      show ?thesis
      proof (cases "cons_e s = cons_w s")
        case e: True
        then show ?thesis using False True assms(1) v by (auto simp: cons_view_def cons_ok_def between_def)
      next
        case e: False
        then obtain k where k: "?b = Suc k" by (cases ?b) (auto simp: unat_eq_0)
        let ?t = "?s\<lparr>cons_e := cons_e ?s - 1\<rparr>"
        obtain l w where p: "consputc BACKSPACE ?t = Ok (?t\<lparr>lsr_in := l, uart_regs := w\<rparr>)"
          using consputc_ok [of ?t BACKSPACE] m(2,3) i by (auto simp: idle_reads_def)
        have "cons_e s - 1 = cons_w s + of_nat k" using n k by (simp add: cons_counts_def)
        then have "cons_counts (?t\<lparr>lsr_in := l, uart_regs := w\<rparr>) ?a k" using n k by (simp add: cons_counts_def)
        then show ?thesis using False True e p cons_countsD(1,2) [of "?t\<lparr>lsr_in := l, uart_regs := w\<rparr>" ?a k] cons_countsD(2) [OF n] v
          by (auto simp: k conring.between_Suc)
      qed
    next
      case False2: False
      then show ?thesis using False consoleintr_char_ok [OF m(4,3) i(2) _ n, of c] i(1) v by auto
    qed
  qed
  then obtain t where t: "mach t = lockd ConsLock (mach s)" "cons_ok t" "cons_view t = line_edit c (cons_view s)"
    "consoleintr c s = krelease ConsLock t"
    using assms(3,5) by (auto simp: consoleintr_def kacquire_free)
  then show ?thesis
    using krelease_lockd [OF t(1) m(1) assms(3)] by (auto simp: cons_view_def cons_ok_def)
qed

definition cons_ex :: consst where
  "cons_ex = uartst.extend (fsst.extend (fs_ex\<lparr>mach := mach_run 0\<rparr>)
       \<lparr>lsr_in = replicate 30 0x20, rhr_in = [], uart_regs = [], tx_busy = False, panicking = False, panicked = False\<rparr>)
     \<lparr>cons_buf = (\<lambda>_. 0x61), cons_r = - 1, cons_w = 0, cons_e = 2, devsw = (\<lambda>_. None)\<rparr>"

lemma cons_ex_simps [simp]:
  "mach cons_ex = mach_run 0" "cons_buf cons_ex = (\<lambda>_. 0x61)" "cons_r cons_ex = - 1" "cons_w cons_ex = 0" "cons_e cons_ex = 2"
  "lsr_in cons_ex = replicate 30 0x20" "panicked cons_ex = False"
  by (simp_all add: cons_ex_def uartst.defs fsst.defs)

theorem consoleintr_edits_line_witness:
  "\<exists>s'. consoleintr 0x0D cons_ex = Ok s' \<and> cons_ok s' \<and> cons_view s' = ([0x61, 0x61, 0x61, 0x0A], [])"
proof -
  have v: "cons_view cons_ex = ([0x61], [0x61, 0x61])"
    by (simp add: cons_view_def between_def upt_rec)
  show ?thesis
    using consoleintr_edits_line [of cons_ex "0x0D"]
    by (simp add: v proc_locks_ok_def mach_run_ok cons_ok_def idle_reads_def LSR_TX_IDLE_def INPUT_BUF_SIZE_def Ctrl_def)
qed

end
