(* ===== verification/Files.thy ===== *)
theory Files
  imports Console
begin

text \<open>
  Open files and pipes, \<^verbatim>\<open>kernel/file.c\<close> and \<^verbatim>\<open>kernel/pipe.c\<close>. A file pointer is an index of
  \<open>ftable.file\<close>. A pipe is named by the address of the page \<open>kalloc\<close> gave it; \<open>pipes\<close> is the content of those
  pages seen as \<open>struct pipe\<close>.
\<close>

datatype ftype = FD_NONE | FD_PIPE | FD_INODE | FD_DEVICE

record kfile =
  ftype :: ftype
  fref :: int
  freadable :: bool
  fwritable :: bool
  fpipe :: u64
  fip :: nat
  foff :: u32
  fmajor :: u16

definition PIPESIZE :: nat where "PIPESIZE = 512"

record pipe =
  pdata :: "nat \<Rightarrow> u8"
  nread :: u32
  nwrite :: u32
  readopen :: bool
  writeopen :: bool

record filest = consst +
  ftable :: "nat \<Rightarrow> kfile"
  pipes :: "u64 \<Rightarrow> pipe"

definition upd_file :: "nat \<Rightarrow> (kfile \<Rightarrow> kfile) \<Rightarrow> 'a filest_scheme \<Rightarrow> 'a filest_scheme" where
  "upd_file i f s = s\<lparr>ftable := (ftable s)(i := f (ftable s i))\<rparr>"

definition upd_pipe :: "u64 \<Rightarrow> (pipe \<Rightarrow> pipe) \<Rightarrow> 'a filest_scheme \<Rightarrow> 'a filest_scheme" where
  "upd_pipe pi f s = s\<lparr>pipes := (pipes s)(pi := f (pipes s pi))\<rparr>"

section \<open>The file table\<close>

definition fileinit :: "'a filest_scheme \<Rightarrow> 'a filest_scheme" where
  "fileinit s = s\<lparr>mach := initlock FtableLock ''ftable'' (mach s)\<rparr>"

definition filealloc :: "'a filest_scheme \<Rightarrow> (nat option \<times> 'a filest_scheme) res" where
  "filealloc s = rbind (kacquire FtableLock s) (\<lambda>s1.
     case List.find (\<lambda>i. fref (ftable s1 i) = 0) [0..<NFILE] of
       Some i \<Rightarrow> rbind (krelease FtableLock (upd_file i (\<lambda>f. f\<lparr>fref := 1\<rparr>) s1)) (\<lambda>s2. Ok (Some i, s2))
     | None \<Rightarrow> rbind (krelease FtableLock s1) (\<lambda>s2. Ok (None, s2)))"

definition filedup :: "nat \<Rightarrow> 'a filest_scheme \<Rightarrow> (nat \<times> 'a filest_scheme) res" where
  "filedup f s = rbind (kacquire FtableLock s) (\<lambda>s1.
     if fref (ftable s1 f) < 1 then Panic ''filedup''
     else rbind (krelease FtableLock (upd_file f (\<lambda>x. x\<lparr>fref := fref x + 1\<rparr>) s1)) (\<lambda>s2. Ok (f, s2)))"

section \<open>Pipes\<close>

definition pipeclose :: "u64 \<Rightarrow> bool \<Rightarrow> 'a filest_scheme \<Rightarrow> 'a filest_scheme res" where
  "pipeclose pi wr s = rbind (kacquire (PipeLock pi) s) (\<lambda>s1.
     rbind (if wr then wakeup (ChPipeRead pi) (upd_pipe pi (\<lambda>p. p\<lparr>writeopen := False\<rparr>) s1)
            else wakeup (ChPipeWrite pi) (upd_pipe pi (\<lambda>p. p\<lparr>readopen := False\<rparr>) s1)) (\<lambda>s2.
     if \<not> readopen (pipes s2 pi) \<and> \<not> writeopen (pipes s2 pi)
     then rbind (krelease (PipeLock pi) s2) (kfree pi)
     else krelease (PipeLock pi) s2))"

definition fileclose :: "nat \<Rightarrow> 'a filest_scheme \<Rightarrow> 'a filest_scheme res" where
  "fileclose f s = rbind (kacquire FtableLock s) (\<lambda>s1.
     if fref (ftable s1 f) < 1 then Panic ''fileclose''
     else
       let s2 = upd_file f (\<lambda>x. x\<lparr>fref := fref x - 1\<rparr>) s1 in
       if 0 < fref (ftable s2 f) then krelease FtableLock s2
       else
         let ff = ftable s2 f in
         rbind (krelease FtableLock (upd_file f (\<lambda>x. x\<lparr>fref := 0, ftype := FD_NONE\<rparr>) s2)) (\<lambda>s3.
         if ftype ff = FD_PIPE then pipeclose (fpipe ff) (fwritable ff) s3
         else if ftype ff = FD_INODE \<or> ftype ff = FD_DEVICE
         then rbind (begin_op s3) (\<lambda>s4. rbind (iput (fip ff) s4) end_op)
         else Ok s3))"

definition pipealloc :: "'a filest_scheme \<Rightarrow> ((nat \<times> nat) option \<times> 'a filest_scheme) res" where
  "pipealloc s = rbind (filealloc s) (\<lambda>(f0, s1).
     case f0 of
       None \<Rightarrow> Ok (None, s1)
     | Some f0 \<Rightarrow> rbind (filealloc s1) (\<lambda>(f1, s2).
         case f1 of
           None \<Rightarrow> rbind (fileclose f0 s2) (\<lambda>s3. Ok (None, s3))
         | Some f1 \<Rightarrow> rbind (kalloc s2) (\<lambda>(pi, s3).
             if pi = 0 then rbind (fileclose f0 s3) (\<lambda>s4. rbind (fileclose f1 s4) (\<lambda>s5. Ok (None, s5)))
             else
               let s4 = upd_pipe pi (\<lambda>p. p\<lparr>readopen := True, writeopen := True, nwrite := 0, nread := 0\<rparr>) s3;
                   s5 = s4\<lparr>mach := initlock (PipeLock pi) ''pipe'' (mach s4)\<rparr>;
                   s6 = upd_file f0 (\<lambda>x. x\<lparr>ftype := FD_PIPE, freadable := True, fwritable := False, fpipe := pi\<rparr>) s5;
                   s7 = upd_file f1 (\<lambda>x. x\<lparr>ftype := FD_PIPE, freadable := False, fwritable := True, fpipe := pi\<rparr>) s6
               in Ok (Some (f0, f1), s7))))"

function pipewrite_loop :: "'a filest_scheme env \<Rightarrow> nat \<Rightarrow> u64 \<Rightarrow> u64 \<Rightarrow> nat \<Rightarrow> nat \<Rightarrow> 'a filest_scheme \<Rightarrow> (int \<times> 'a filest_scheme env \<times> 'a filest_scheme) res" where
  "pipewrite_loop env pr pi addr left i s =
     (if left = 0
      then rbind (wakeup (ChPipeRead pi) s) (\<lambda>s1. rbind (krelease (PipeLock pi) s1) (\<lambda>s2. Ok (int i, env, s2)))
      else if \<not> readopen (pipes s pi)
      then rbind (krelease (PipeLock pi) s) (\<lambda>s1. Ok (- 1, env, s1))
      else rbind (killed pr s) (\<lambda>(k, s1).
        if k \<noteq> 0 then rbind (krelease (PipeLock pi) s1) (\<lambda>s2. Ok (- 1, env, s2))
        else if nwrite (pipes s1 pi) = nread (pipes s1 pi) + of_nat PIPESIZE
        then rbind (wakeup (ChPipeRead pi) s1) (\<lambda>s2.
          case env of [] \<Rightarrow> Blocked
          | e # es \<Rightarrow> rbind (sleep e (ChPipeWrite pi) (PipeLock pi) s2) (pipewrite_loop es pr pi addr left i))
        else rbind (copyin (pagetable (procs s1 pr)) (addr + of_nat i) 1 s1) (\<lambda>(r, bs, s2).
          if r = - 1
          then rbind (wakeup (ChPipeRead pi) s2) (\<lambda>s3. rbind (krelease (PipeLock pi) s3) (\<lambda>s4. Ok (int i, env, s4)))
          else pipewrite_loop env pr pi addr (left - 1) (i + 1)
            (upd_pipe pi (\<lambda>p. p\<lparr>pdata := (pdata p)(unat (nwrite p) mod PIPESIZE := hd bs), nwrite := nwrite p + 1\<rparr>) s2))))"
  by pat_completeness auto
termination
  by (relation "measure (\<lambda>(env, pr, pi, addr, left, i, s). length env + left)") auto

declare pipewrite_loop.simps [simp del]

definition pipewrite :: "'a filest_scheme env \<Rightarrow> u64 \<Rightarrow> u64 \<Rightarrow> int \<Rightarrow> 'a filest_scheme \<Rightarrow> (int \<times> 'a filest_scheme env \<times> 'a filest_scheme) res" where
  "pipewrite env pi addr n s = with_proc s (\<lambda>pr.
     rbind (kacquire (PipeLock pi) s) (pipewrite_loop env pr pi addr (nat n) 0))"

fun piperead_wait :: "'a filest_scheme env \<Rightarrow> nat \<Rightarrow> u64 \<Rightarrow> 'a filest_scheme \<Rightarrow> (bool \<times> 'a filest_scheme env \<times> 'a filest_scheme) res" where
  "piperead_wait env pr pi s =
     (if nread (pipes s pi) = nwrite (pipes s pi) \<and> writeopen (pipes s pi)
      then rbind (killed pr s) (\<lambda>(k, s1).
        if k \<noteq> 0 then Ok (True, env, s1)
        else case env of [] \<Rightarrow> Blocked
          | e # es \<Rightarrow> rbind (sleep e (ChPipeRead pi) (PipeLock pi) s1) (piperead_wait es pr pi))
      else Ok (False, env, s))"

declare piperead_wait.simps [simp del]

fun piperead_loop :: "nat \<Rightarrow> u64 \<Rightarrow> u64 \<Rightarrow> nat \<Rightarrow> nat \<Rightarrow> 'a filest_scheme \<Rightarrow> (nat \<times> 'a filest_scheme) res" where
  "piperead_loop pr pi addr 0 i s = Ok (i, s)"
| "piperead_loop pr pi addr (Suc left) i s =
     (if nread (pipes s pi) = nwrite (pipes s pi) then Ok (i, s)
      else
        let ch = pdata (pipes s pi) (unat (nread (pipes s pi)) mod PIPESIZE);
            s1 = upd_pipe pi (\<lambda>p. p\<lparr>nread := nread p + 1\<rparr>) s
        in rbind (copyout (pagetable (procs s1 pr)) (addr + of_nat i) [ch] s1) (\<lambda>(r, s2).
           if r = - 1 then Ok (i, s2) else piperead_loop pr pi addr left (Suc i) s2))"

definition piperead :: "'a filest_scheme env \<Rightarrow> u64 \<Rightarrow> u64 \<Rightarrow> int \<Rightarrow> 'a filest_scheme \<Rightarrow> (int \<times> 'a filest_scheme env \<times> 'a filest_scheme) res" where
  "piperead env pi addr n s = with_proc s (\<lambda>pr.
     rbind (kacquire (PipeLock pi) s) (\<lambda>s1.
     rbind (piperead_wait env pr pi s1) (\<lambda>(k, env1, s2).
     if k then rbind (krelease (PipeLock pi) s2) (\<lambda>s3. Ok (- 1, env1, s3))
     else rbind (piperead_loop pr pi addr (nat n) 0 s2) (\<lambda>(i, s3).
       rbind (wakeup (ChPipeWrite pi) s3) (\<lambda>s4.
       rbind (krelease (PipeLock pi) s4) (\<lambda>s5. Ok (int i, env1, s5)))))))"

section \<open>Reading and writing files\<close>

text \<open>\<open>struct stat\<close> as bytes: four bytes of padding before the size.\<close>

definition stat_bytes :: "stat \<Rightarrow> u8 list" where
  "stat_bytes st = le_bytes 4 (st_dev st) @ le_bytes 4 (st_ino st) @ le_bytes 2 (st_type st) @ le_bytes 2 (st_nlink st) @
     replicate 4 0 @ le_bytes 8 (st_size st)"

definition filestat :: "nat \<Rightarrow> u64 \<Rightarrow> 'a filest_scheme \<Rightarrow> (int \<times> 'a filest_scheme) res" where
  "filestat f addr s = with_proc s (\<lambda>p.
     if ftype (ftable s f) = FD_INODE \<or> ftype (ftable s f) = FD_DEVICE
     then
       let ip = fip (ftable s f) in
       rbind (ilock ip s) (\<lambda>s1.
       let st = stati ip s1 in
       rbind (iunlock ip s1) (\<lambda>s2.
       rbind (copyout (pagetable (procs s2 p)) addr (stat_bytes st) s2) (\<lambda>(r, s3).
       Ok (if r < 0 then - 1 else 0, s3))))
     else Ok (- 1, s))"

definition device_of :: "kfile \<Rightarrow> 'a filest_scheme \<Rightarrow> device option" where
  "device_of f s = (if sint (fmajor f) < 0 \<or> sint (fmajor f) \<ge> int NDEV then None else devsw s (unat (fmajor f)))"

definition fileread :: "'a filest_scheme env \<Rightarrow> nat \<Rightarrow> u64 \<Rightarrow> int \<Rightarrow> 'a filest_scheme \<Rightarrow> (int \<times> 'a filest_scheme env \<times> 'a filest_scheme) res" where
  "fileread env f addr n s =
     (let x = ftable s f in
      if \<not> freadable x then Ok (- 1, env, s)
      else case ftype x of
        FD_PIPE \<Rightarrow> piperead env (fpipe x) addr n s
      | FD_DEVICE \<Rightarrow>
          (case device_of x s of None \<Rightarrow> Ok (- 1, env, s) | Some ConsoleDevice \<Rightarrow> consoleread env (UserDst addr) n s)
      | FD_INODE \<Rightarrow>
          rbind (ilock (fip x) s) (\<lambda>s1.
          rbind (readi (fip x) (UserDst addr) (foff (ftable s1 f)) (word_of_int n) s1) (\<lambda>(r, bs, s2).
          let s3 = (if 0 < r then upd_file f (\<lambda>x. x\<lparr>foff := foff x + word_of_int r\<rparr>) s2 else s2)
          in rbind (iunlock (fip x) s3) (\<lambda>s4. Ok (r, env, s4))))
      | FD_NONE \<Rightarrow> Panic ''fileread'')"

definition WRITE_MAX :: nat where "WRITE_MAX = ((MAXOPBLOCKS - 1 - 1 - 2) div 2) * BSIZE"

text \<open>The loop of \<open>filewrite\<close> on an inode, with \<open>left\<close> for \<open>n - i\<close>; it gives the value of \<open>i\<close> at its end.\<close>

function filewrite_loop :: "nat \<Rightarrow> u64 \<Rightarrow> nat \<Rightarrow> nat \<Rightarrow> 'a filest_scheme \<Rightarrow> (nat \<times> 'a filest_scheme) res" where
  "filewrite_loop f addr left i s =
     (if left = 0 then Ok (i, s)
      else
        let n1 = min left WRITE_MAX; ip = fip (ftable s f) in
        rbind (begin_op s) (\<lambda>s1.
        rbind (ilock ip s1) (\<lambda>s2.
        rbind (writei ip (UserSrc (addr + of_nat i)) (foff (ftable s2 f)) (of_nat n1) s2) (\<lambda>(r, s3).
        let s4 = (if 0 < r then upd_file f (\<lambda>x. x\<lparr>foff := foff x + word_of_int r\<rparr>) s3 else s3)
        in rbind (iunlock ip s4) (\<lambda>s5.
        rbind (end_op s5) (\<lambda>s6.
        if r \<noteq> int n1 then Ok (i, s6) else filewrite_loop f addr (left - n1) (i + n1) s6))))))"
  by pat_completeness auto
termination
  by (relation "measure (\<lambda>(f, addr, left, i, s). left)") (auto simp: WRITE_MAX_def param_defs BSIZE_def)

declare filewrite_loop.simps [simp del]

definition filewrite :: "'a filest_scheme env \<Rightarrow> nat \<Rightarrow> u64 \<Rightarrow> int \<Rightarrow> 'a filest_scheme \<Rightarrow> (int \<times> 'a filest_scheme env \<times> 'a filest_scheme) res" where
  "filewrite env f addr n s =
     (let x = ftable s f in
      if \<not> fwritable x then Ok (- 1, env, s)
      else case ftype x of
        FD_PIPE \<Rightarrow> pipewrite env (fpipe x) addr n s
      | FD_DEVICE \<Rightarrow>
          (case device_of x s of None \<Rightarrow> Ok (- 1, env, s) | Some ConsoleDevice \<Rightarrow> consolewrite env (UserSrc addr) n s)
      | FD_INODE \<Rightarrow>
          rbind (filewrite_loop f addr (nat n) 0 s) (\<lambda>(i, s1). Ok (if int i = n then n else - 1, env, s1))
      | FD_NONE \<Rightarrow> Panic ''filewrite'')"

section \<open>Pipes as queues\<close>

interpretation pipering: byte_ring PIPESIZE
  by unfold_locales (simp_all add: PIPESIZE_def)

text \<open>The bytes in a pipe, in the order in which they were written.\<close>

definition pipe_view :: "pipe \<Rightarrow> u8 list" where
  "pipe_view p = between PIPESIZE (pdata p) (nread p) (unat (nwrite p - nread p))"

definition pipe_counts :: "pipe \<Rightarrow> nat \<Rightarrow> bool" where
  "pipe_counts p k \<longleftrightarrow> nwrite p = nread p + of_nat k \<and> k \<le> PIPESIZE"

lemma pipe_countsD:
  assumes "pipe_counts p k"
  shows "pipe_view p = between PIPESIZE (pdata p) (nread p) k" "nwrite p = nread p + of_nat PIPESIZE \<longleftrightarrow> k = PIPESIZE"
    "nread p = nwrite p \<longleftrightarrow> k = 0"
proof -
  have u: "unat (of_nat k :: u32) = k" using assms by (simp add: pipe_counts_def unat_of_nat PIPESIZE_def)
  then show "pipe_view p = between PIPESIZE (pdata p) (nread p) k" using assms by (simp add: pipe_view_def pipe_counts_def)
  have inj: "(of_nat k :: u32) = of_nat j \<longleftrightarrow> k = j" if "j \<le> PIPESIZE" for j
  proof
    assume e: "(of_nat k :: u32) = of_nat j"
    have "unat (of_nat j :: u32) = j" using that by (simp add: unat_of_nat PIPESIZE_def)
    then show "k = j" using u e by simp
  qed simp
  show "nwrite p = nread p + of_nat PIPESIZE \<longleftrightarrow> k = PIPESIZE" "nread p = nwrite p \<longleftrightarrow> k = 0"
    using assms inj [of PIPESIZE] inj [of 0] by (simp_all add: pipe_counts_def)
qed

definition pipe_push :: "u8 \<Rightarrow> pipe \<Rightarrow> pipe" where
  "pipe_push c p = p\<lparr>pdata := (pdata p)(unat (nwrite p) mod PIPESIZE := c), nwrite := nwrite p + 1\<rparr>"

definition pipe_pop :: "pipe \<Rightarrow> pipe" where
  "pipe_pop p = p\<lparr>nread := nread p + 1\<rparr>"

lemma pipe_push_ok:
  assumes "pipe_counts p k" "k < PIPESIZE"
  shows "pipe_counts (pipe_push c p) (Suc k)" "pipe_view (pipe_push c p) = pipe_view p @ [c]"
    "readopen (pipe_push c p) = readopen p" "writeopen (pipe_push c p) = writeopen p"
proof -
  show c: "pipe_counts (pipe_push c p) (Suc k)" using assms by (simp add: pipe_counts_def pipe_push_def)
  show "pipe_view (pipe_push c p) = pipe_view p @ [c]"
    using pipering.between_push [OF assms(2), of "pdata p" "nread p" c] assms(1)
    by (simp add: pipe_countsD(1) [OF c] pipe_countsD(1) [OF assms(1)]) (simp add: pipe_push_def pipe_counts_def)
  show "readopen (pipe_push c p) = readopen p" "writeopen (pipe_push c p) = writeopen p" by (simp_all add: pipe_push_def)
qed

lemma pipe_pop_ok:
  assumes "pipe_counts p (Suc k)"
  shows "pipe_counts (pipe_pop p) k" "pipe_view p = pdata p (unat (nread p) mod PIPESIZE) # pipe_view (pipe_pop p)"
proof -
  show c: "pipe_counts (pipe_pop p) k" using assms by (simp add: pipe_counts_def pipe_pop_def)
  show "pipe_view p = pdata p (unat (nread p) mod PIPESIZE) # pipe_view (pipe_pop p)"
    by (simp add: pipe_countsD(1) [OF assms] pipe_countsD(1) [OF c] pipering.between_Cons) (simp add: pipe_pop_def)
qed

lemma pipewrite_loop_ok:
  assumes "mach_ok m" "mach s = lockd (PipeLock pi) m" "lock_free (PipeLock pi) m" "\<forall>i < NPROC. lock_free (ProcLock i) m"
    and "pr < NPROC" "pkilled (procs s pr) = 0" "pt_ok (mem s) (pagetable (procs s pr))" "unat addr + (i + left) \<le> 2 ^ 38"
    and "\<forall>j < i + left. readable (mem s) (pagetable (procs s pr)) (addr + of_nat j)"
    and "readopen (pipes s pi)" "pipe_counts (pipes s pi) k" "k + left \<le> PIPESIZE"
  shows "\<exists>p'. pipewrite_loop env pr pi addr left i s = Ok (int (i + left), env, s\<lparr>mach := sync m,
      procs := woken (ChPipeRead pi) (myproc s) {0..<NPROC} (procs s), pipes := (pipes s)(pi := p')\<rparr>) \<and>
    pipe_counts p' (k + left) \<and> readopen p' \<and> writeopen p' = writeopen (pipes s pi) \<and>
    pipe_view p' = pipe_view (pipes s pi) @
      map (\<lambda>j. mem s (uaddr (mem s) (pagetable (procs s pr)) (addr + of_nat (i + j)))) [0..<left]"
  using assms(2,6-12)
proof (induction left arbitrary: i k s)
  case 0
  have ok: "proc_locks_ok s" using 0(1) assms(1,4) by (simp add: proc_locks_ok_def)
  have "sync (mach s) = lockd (PipeLock pi) m" using 0(1) assms(1) by simp
  then have "wakeup (ChPipeRead pi) s =
      Ok (s\<lparr>mach := lockd (PipeLock pi) m, procs := woken (ChPipeRead pi) (myproc s) {0..<NPROC} (procs s)\<rparr>)"
    using wakeup_ok [OF ok, of "ChPipeRead pi"] by simp
  then have "pipewrite_loop env pr pi addr 0 i s = Ok (int i, env, s\<lparr>mach := sync m,
      procs := woken (ChPipeRead pi) (myproc s) {0..<NPROC} (procs s), pipes := (pipes s)(pi := pipes s pi)\<rparr>)"
    using assms(1,3) by (simp add: pipewrite_loop.simps krelease_lockd)
  then show ?case using 0 by (intro exI [of _ "pipes s pi"]) simp
next
  case (Suc left)
  let ?pt = "pagetable (procs s pr)" and ?p = "pipes s pi"
  let ?c = "mem s (uaddr (mem s) ?pt (addr + of_nat i))"
  have ok: "proc_locks_ok s" and sy: "sync (mach s) = mach s" using Suc(2) assms(1,4) by (simp_all add: proc_locks_ok_def)
  have kl: "killed pr s = Ok (0, s)" using killed_ok [OF ok assms(5)] Suc(3) sy by simp
  have u: "unat (addr + of_nat i) = unat addr + i" using Suc(5) by (intro unat_add_of_nat) simp
  have cp: "copyin ?pt (addr + of_nat i) 1 s = Ok (0, [?c], s)"
    using copyin_ok [of s ?pt "addr + of_nat i" 1] Suc(4,5,6) u by simp
  have lt: "k < PIPESIZE" using Suc(9) by simp
  have nf: "nwrite ?p \<noteq> nread ?p + of_nat PIPESIZE" using pipe_countsD(2) [OF Suc(8)] lt by simp
  let ?s = "upd_pipe pi (pipe_push ?c) s"
  have step: "pipewrite_loop env pr pi addr (Suc left) i s = pipewrite_loop env pr pi addr left (i + 1) ?s"
    by (subst pipewrite_loop.simps) (use Suc(7) kl nf cp in \<open>simp add: pipe_push_def upd_pipe_def\<close>)
  have "pipes ?s pi = pipe_push ?c ?p" "mem ?s = mem s" "procs ?s = procs s" "mach ?s = mach s" "myproc ?s = myproc s"
    by (simp_all add: upd_pipe_def myproc_def)
  note st = this pipe_push_ok [OF Suc(8) lt, of ?c]
  have h: "mach ?s = lockd (PipeLock pi) m" "pkilled (procs ?s pr) = 0" "pt_ok (mem ?s) (pagetable (procs ?s pr))"
    "unat addr + (i + 1 + left) \<le> 2 ^ 38" "\<forall>j < i + 1 + left. readable (mem ?s) (pagetable (procs ?s pr)) (addr + of_nat j)"
    "readopen (pipes ?s pi)" "pipe_counts (pipes ?s pi) (Suc k)" "Suc k + left \<le> PIPESIZE"
    using Suc(2-9) by (simp_all only: st) simp_all
  obtain p' where p': "pipewrite_loop env pr pi addr left (i + 1) ?s = Ok (int (i + 1 + left), env, ?s\<lparr>mach := sync m,
      procs := woken (ChPipeRead pi) (myproc ?s) {0..<NPROC} (procs ?s), pipes := (pipes ?s)(pi := p')\<rparr>)"
    "pipe_counts p' (Suc k + left)" "readopen p'" "writeopen p' = writeopen (pipes ?s pi)"
    "pipe_view p' = pipe_view (pipes ?s pi) @ map (\<lambda>j. mem ?s (uaddr (mem ?s) (pagetable (procs ?s pr)) (addr + of_nat (i + 1 + j)))) [0..<left]"
    using Suc.IH [OF h] by blast
  have e: "i + Suc j = i + 1 + j" for j by simp
  have l: "map (\<lambda>j. mem s (uaddr (mem s) ?pt (addr + of_nat (i + j)))) [0..<Suc left] =
      ?c # map (\<lambda>j. mem s (uaddr (mem s) ?pt (addr + of_nat (i + 1 + j)))) [0..<left]"
    by (simp only: map_upt_Suc e add_0_right)
  have "?s\<lparr>mach := sync m, procs := woken (ChPipeRead pi) (myproc ?s) {0..<NPROC} (procs ?s), pipes := (pipes ?s)(pi := p')\<rparr> =
      s\<lparr>mach := sync m, procs := woken (ChPipeRead pi) (myproc s) {0..<NPROC} (procs s), pipes := (pipes s)(pi := p')\<rparr>"
    unfolding st by (simp add: upd_pipe_def)
  then have "pipewrite_loop env pr pi addr (Suc left) i s = Ok (int (i + Suc left), env, s\<lparr>mach := sync m,
      procs := woken (ChPipeRead pi) (myproc s) {0..<NPROC} (procs s), pipes := (pipes s)(pi := p')\<rparr>)"
    using step p'(1) by simp
  moreover have "pipe_view p' = pipe_view ?p @ map (\<lambda>j. mem s (uaddr (mem s) ?pt (addr + of_nat (i + j)))) [0..<Suc left]"
    unfolding p'(5) l st by simp
  moreover have "pipe_counts p' (k + Suc left)" "writeopen p' = writeopen ?p" using p'(2,4) by (simp_all only: st) simp
  ultimately show ?case using p'(3) by (intro exI [of _ p'] conjI)
qed

text \<open>Different bytes of a user range have different physical addresses.\<close>

lemma uaddr_inj:
  fixes s :: "'a ptable_scheme"
  assumes "pt_ok (mem s) pt" "user_range (mem s) pt va n" "i < n" "j < n" "i \<noteq> j"
  shows "uaddr (mem s) pt (va + of_nat i) \<noteq> uaddr (mem s) pt (va + of_nat j)"
proof -
  let ?src = "(replicate n (0 :: u8))[j := 1]"
  obtain m' where "\<forall>k < length ?src. m' (uaddr (mem s) pt (va + of_nat k)) = ?src ! k"
    using copyout_ok [of s pt va ?src] assms(1,2) by auto
  then have "m' (uaddr (mem s) pt (va + of_nat i)) = 0" "m' (uaddr (mem s) pt (va + of_nat j)) = 1"
    using assms(3-5) by simp_all
  then show ?thesis by auto
qed

lemma user_range_sub:
  assumes "user_range m pt va n" "i < n"
  shows "user_range m pt (va + of_nat i) 1" "unat (va + of_nat i) = unat va + i"
proof -
  show u: "unat (va + of_nat i) = unat va + i" using assms by (intro unat_add_of_nat) (simp add: user_range_def)
  show "user_range m pt (va + of_nat i) 1" using assms u by (simp add: user_range_def)
qed

text \<open>Copying out one byte.\<close>

lemma copyout_byte:
  assumes "pt_ok (mem s) pt" "user_range (mem s) pt va n" "i < n"
  shows "\<exists>m'. copyout pt (va + of_nat i) [c] s = Ok (0, s\<lparr>mem := m'\<rparr>) \<and> m' (uaddr (mem s) pt (va + of_nat i)) = c \<and>
    (\<forall>a. a \<noteq> uaddr (mem s) pt (va + of_nat i) \<longrightarrow> m' a = mem s a) \<and>
    pt_ok m' pt \<and> user_range m' pt va n \<and> (\<forall>vb. uaddr m' pt vb = uaddr (mem s) pt vb)"
proof -
  note sub = user_range_sub(1) [OF assms(2,3)]
  obtain m' where m': "copyout pt (va + of_nat i) [c] s = Ok (0, s\<lparr>mem := m'\<rparr>)" "m' (uaddr (mem s) pt (va + of_nat i)) = c"
      "\<And>a. a \<noteq> uaddr (mem s) pt (va + of_nat i) \<Longrightarrow> m' a = mem s a"
    using copyout_ok [of s pt "va + of_nat i" "[c]"] assms(1) sub by auto
  have same: "m' a = mem s a" if "q \<in> tpages (mem s) pt" "in_range q 4096 a" for q a
  proof (rule m'(3))
    have "q \<noteq> frame (mem s) pt (va + of_nat i)" "page_aligned q"
      using user_rangeD [OF assms(2,3)] that(1) assms(1) by (auto simp: tpages_def dest: pt_okD)
    then have "\<not> in_range (frame (mem s) pt (va + of_nat i)) 4096 a"
      using pages_disjoint [OF _ page_aligned_frame _ that(2)] by blast
    then show "a \<noteq> uaddr (mem s) pt (va + of_nat i)" using uaddr_in_frame by metis
  qed
  have f: "lookup m' pt vb = lookup (mem s) pt vb" "pt_ok m' pt" "tpages m' pt = tpages (mem s) pt" for vb
    using pt_frame(2-4) [OF assms(1), of m'] same by blast+
  have "user_range m' pt va n = user_range (mem s) pt va n"
    by (simp add: user_range_def uaddr_cong(1,4) [OF f(1)] f(3))
  then show ?thesis using m' f(2) assms(2) uaddr_cong(2) [OF f(1)] by blast
qed

lemma piperead_loop_ok:
  assumes "pt_ok (mem s) (pagetable (procs s pr))" "user_range (mem s) (pagetable (procs s pr)) addr n" "i + left \<le> n"
    and "pipe_counts (pipes s pi) k"
  shows "\<exists>m' p'. piperead_loop pr pi addr left i s = Ok (i + min left k, s\<lparr>mem := m', pipes := (pipes s)(pi := p')\<rparr>) \<and>
    pipe_view p' = drop left (pipe_view (pipes s pi)) \<and> pipe_counts p' (k - left) \<and>
    (\<forall>j < min left k. m' (uaddr (mem s) (pagetable (procs s pr)) (addr + of_nat (i + j))) = pipe_view (pipes s pi) ! j) \<and>
    (\<forall>a. (\<forall>j < min left k. a \<noteq> uaddr (mem s) (pagetable (procs s pr)) (addr + of_nat (i + j))) \<longrightarrow> m' a = mem s a)"
  using assms
proof (induction left arbitrary: i k s)
  case 0
  then show ?case by (intro exI [of _ "mem s"] exI [of _ "pipes s pi"]) simp
next
  case (Suc left)
  let ?pt = "pagetable (procs s pr)" and ?p = "pipes s pi"
  show ?case
  proof (cases k)
    case 0
    then have e: "nread ?p = nwrite ?p" using pipe_countsD(3) [OF Suc(5)] by simp
    have "pipe_view ?p = []" using pipe_countsD(1) [OF Suc(5)] 0 by (simp add: between_def)
    then show ?thesis using 0 e Suc(5) by (intro exI [of _ "mem s"] exI [of _ ?p]) simp
  next
    case (Suc k')
    note k = this and pop = pipe_pop_ok [OF Suc.prems(4) [unfolded Suc]]
    let ?c = "pdata ?p (unat (nread ?p) mod PIPESIZE)" and ?s1 = "upd_pipe pi pipe_pop s"
    have ne: "nread ?p \<noteq> nwrite ?p" using pipe_countsD(3) [OF Suc.prems(4)] k by simp
    have s1: "mem ?s1 = mem s" "procs ?s1 = procs s" "pipes ?s1 = (pipes s)(pi := pipe_pop ?p)" by (simp_all add: upd_pipe_def)
    obtain m1 where m1: "copyout ?pt (addr + of_nat i) [?c] ?s1 = Ok (0, ?s1\<lparr>mem := m1\<rparr>)" "m1 (uaddr (mem s) ?pt (addr + of_nat i)) = ?c"
        "\<forall>a. a \<noteq> uaddr (mem s) ?pt (addr + of_nat i) \<longrightarrow> m1 a = mem s a" "pt_ok m1 ?pt" "user_range m1 ?pt addr n"
        "\<forall>vb. uaddr m1 ?pt vb = uaddr (mem s) ?pt vb"
      using copyout_byte [of ?s1 ?pt addr n i ?c] Suc.prems(1-3) s1 by auto
    let ?s2 = "?s1\<lparr>mem := m1\<rparr>"
    have s2: "mem ?s2 = m1" "procs ?s2 = procs s" "pipes ?s2 pi = pipe_pop ?p" by (simp_all add: s1)
    have u: "uaddr m1 ?pt vb = uaddr (mem s) ?pt vb" for vb using m1(6) by blast
    have h: "pt_ok (mem ?s2) (pagetable (procs ?s2 pr))" "user_range (mem ?s2) (pagetable (procs ?s2 pr)) addr n"
      "Suc i + left \<le> n" "pipe_counts (pipes ?s2 pi) k'"
      using m1(4,5) Suc.prems(3) pop(1) by (simp_all only: s2)
    obtain m' p' where r0: "piperead_loop pr pi addr left (Suc i) ?s2 = Ok (Suc i + min left k', ?s2\<lparr>mem := m', pipes := (pipes ?s2)(pi := p')\<rparr>)"
        "pipe_view p' = drop left (pipe_view (pipes ?s2 pi))" "pipe_counts p' (k' - left)"
        "\<forall>j < min left k'. m' (uaddr (mem ?s2) (pagetable (procs ?s2 pr)) (addr + of_nat (Suc i + j))) = pipe_view (pipes ?s2 pi) ! j"
        "\<forall>a. (\<forall>j < min left k'. a \<noteq> uaddr (mem ?s2) (pagetable (procs ?s2 pr)) (addr + of_nat (Suc i + j))) \<longrightarrow> m' a = mem ?s2 a"
      using Suc.IH [OF h] by blast
    note r = r0(1) r0(2-5) [unfolded s2 u]
    have "?s2\<lparr>mem := m', pipes := (pipes ?s2)(pi := p')\<rparr> = s\<lparr>mem := m', pipes := (pipes s)(pi := p')\<rparr>" by (simp add: upd_pipe_def)
    moreover have "piperead_loop pr pi addr (Suc left) i s = piperead_loop pr pi addr left (Suc i) ?s2"
      using ne m1(1) s1(2) by (simp add: upd_pipe_def pipe_pop_def Let_def)
    ultimately have run: "piperead_loop pr pi addr (Suc left) i s = Ok (i + min (Suc left) k, s\<lparr>mem := m', pipes := (pipes s)(pi := p')\<rparr>)"
      using r(1) k by simp
    have first: "m' (uaddr (mem s) ?pt (addr + of_nat i)) = ?c"
    proof -
      have "uaddr (mem s) ?pt (addr + of_nat i) \<noteq> uaddr (mem s) ?pt (addr + of_nat (Suc i + j))" if "j < min left k'" for j
        using uaddr_inj [OF Suc.prems(1,2), of i "Suc i + j"] Suc.prems(3) that by simp
      then show ?thesis using r(5) m1(2) by auto
    qed
    have "m' (uaddr (mem s) ?pt (addr + of_nat (i + j))) = pipe_view ?p ! j" if "j < min (Suc left) k" for j
      using that first r(4) k pop(2) by (cases j) simp_all
    moreover have "m' a = mem s a" if a: "\<forall>j < min (Suc left) k. a \<noteq> uaddr (mem s) ?pt (addr + of_nat (i + j))" for a
    proof -
      have "a \<noteq> uaddr (mem s) ?pt (addr + of_nat i)" using a [rule_format, of 0] k by simp
      moreover have "a \<noteq> uaddr (mem s) ?pt (addr + of_nat (Suc i + j))" if "j < min left k'" for j
        using a [rule_format, of "Suc j"] that k by simp
      ultimately show ?thesis using r(5) m1(3) by auto
    qed
    moreover have "pipe_view p' = drop (Suc left) (pipe_view ?p)" "pipe_counts p' (k - Suc left)" using r(2,3) k pop(2) by simp_all
    ultimately show ?thesis using run by blast
  qed
qed

lemma myproc_mach [simp]: "myproc (s\<lparr>mach := lockd lk m\<rparr>) = myproc (s\<lparr>mach := m\<rparr>)" "myproc (s\<lparr>mach := sync m\<rparr>) = myproc (s\<lparr>mach := m\<rparr>)"
  by (simp_all add: myproc_def)

lemma woken_same [simp]: "pagetable (woken ch me is ps i) = pagetable (ps i)" "pkilled (woken ch me is ps i) = pkilled (ps i)"
  by (simp_all add: woken_def)

lemma pipewrite_ok:
  assumes "myproc s = Some pr" "pr < NPROC" "proc_locks_ok s" "lock_free (PipeLock pi) (mach s)"
    and "pkilled (procs s pr) = 0" "pt_ok (mem s) (pagetable (procs s pr))" "unat addr + n \<le> 2 ^ 38"
    and "\<forall>j < n. readable (mem s) (pagetable (procs s pr)) (addr + of_nat j)"
    and "readopen (pipes s pi)" "pipe_counts (pipes s pi) k" "k + n \<le> PIPESIZE"
  shows "\<exists>p'. pipewrite env pi addr (int n) s = Ok (int n, env, s\<lparr>mach := sync (mach s),
      procs := woken (ChPipeRead pi) (myproc s) {0..<NPROC} (procs s), pipes := (pipes s)(pi := p')\<rparr>) \<and>
    pipe_counts p' (k + n) \<and> readopen p' \<and> writeopen p' = writeopen (pipes s pi) \<and>
    pipe_view p' = pipe_view (pipes s pi) @ map (\<lambda>j. mem s (uaddr (mem s) (pagetable (procs s pr)) (addr + of_nat j))) [0..<n]"
proof -
  let ?s = "s\<lparr>mach := lockd (PipeLock pi) (mach s)\<rparr>"
  have "pipewrite env pi addr (int n) s = pipewrite_loop env pr pi addr n 0 ?s"
    using assms(1,4) by (simp add: pipewrite_def kacquire_free)
  then show ?thesis
    using pipewrite_loop_ok [of "mach s" ?s pi pr addr 0 n k env] assms by (simp add: proc_locks_ok_def)
qed

lemma piperead_ok:
  assumes "myproc s = Some pr" "proc_locks_ok s" "lock_free (PipeLock pi) (mach s)"
    and "pt_ok (mem s) (pagetable (procs s pr))" "user_range (mem s) (pagetable (procs s pr)) addr n"
    and "pipe_counts (pipes s pi) k" "0 < k \<or> \<not> writeopen (pipes s pi)"
  shows "\<exists>m' p'. piperead env pi addr (int n) s = Ok (int (min n k), env, s\<lparr>mach := sync (mach s),
      procs := woken (ChPipeWrite pi) (myproc s) {0..<NPROC} (procs s), mem := m', pipes := (pipes s)(pi := p')\<rparr>) \<and>
    pipe_view p' = drop n (pipe_view (pipes s pi)) \<and> pipe_counts p' (k - n) \<and>
    (\<forall>j < min n k. m' (uaddr (mem s) (pagetable (procs s pr)) (addr + of_nat j)) = pipe_view (pipes s pi) ! j) \<and>
    (\<forall>a. (\<forall>j < min n k. a \<noteq> uaddr (mem s) (pagetable (procs s pr)) (addr + of_nat j)) \<longrightarrow> m' a = mem s a)"
proof -
  let ?s = "s\<lparr>mach := lockd (PipeLock pi) (mach s)\<rparr>"
  have ok: "mach_ok (mach s)" using assms(2) by (simp add: proc_locks_ok_def)
  have w: "piperead_wait env pr pi ?s = Ok (False, env, ?s)"
    using pipe_countsD(3) [OF assms(6)] assms(7) by (subst piperead_wait.simps) auto
  obtain m' p' where r: "piperead_loop pr pi addr n 0 ?s = Ok (min n k, ?s\<lparr>mem := m', pipes := (pipes s)(pi := p')\<rparr>)"
      "pipe_view p' = drop n (pipe_view (pipes s pi))" "pipe_counts p' (k - n)"
      "\<forall>j < min n k. m' (uaddr (mem s) (pagetable (procs s pr)) (addr + of_nat j)) = pipe_view (pipes s pi) ! j"
      "\<forall>a. (\<forall>j < min n k. a \<noteq> uaddr (mem s) (pagetable (procs s pr)) (addr + of_nat j)) \<longrightarrow> m' a = mem s a"
    using piperead_loop_ok [of ?s pr addr n 0 n pi k] assms(4-6) by auto
  let ?t = "?s\<lparr>mem := m', pipes := (pipes s)(pi := p')\<rparr>"
  have "proc_locks_ok ?t" using assms(2) by (simp add: proc_locks_ok_def)
  then have "wakeup (ChPipeWrite pi) ?t =
      Ok (?t\<lparr>mach := lockd (PipeLock pi) (mach s), procs := woken (ChPipeWrite pi) (myproc s) {0..<NPROC} (procs s)\<rparr>)"
    using wakeup_ok [of ?t "ChPipeWrite pi"] ok by (simp add: myproc_def)
  then have "piperead env pi addr (int n) s = Ok (int (min n k), env, s\<lparr>mach := sync (mach s),
      procs := woken (ChPipeWrite pi) (myproc s) {0..<NPROC} (procs s), mem := m', pipes := (pipes s)(pi := p')\<rparr>)"
    using assms(1,3) ok w r(1) by (simp add: piperead_def kacquire_free krelease_lockd)
  then show ?thesis using r(2-5) by blast
qed

text \<open>C3. A pipe is a queue: when \<open>pipewrite\<close> has room for its \<open>n\<close> bytes it returns \<open>n\<close> without blocking and
  appends exactly the bytes at the user's \<open>src\<close>, in order; \<open>piperead\<close> then returns the number of bytes it moves,
  the least of its argument and the length of the queue, stores that prefix of the queue at the user's \<open>dst\<close>,
  changes no other byte of memory, and leaves the rest of the queue. The counters \<open>nread\<close> and \<open>nwrite\<close> may wrap
  around.\<close>

theorem pipe_fifo:
  assumes "myproc s = Some pr" "pr < NPROC" "proc_locks_ok s" "lock_free (PipeLock pi) (mach s)"
    and "pkilled (procs s pr) = 0" "pt_ok (mem s) (pagetable (procs s pr))"
    and "unat src + n \<le> 2 ^ 38" "\<forall>j < n. readable (mem s) (pagetable (procs s pr)) (src + of_nat j)"
    and "user_range (mem s) (pagetable (procs s pr)) dst m"
    and "readopen (pipes s pi)" "pipe_counts (pipes s pi) k" "k + n \<le> PIPESIZE" "0 < k + n \<or> \<not> writeopen (pipes s pi)"
  shows "\<exists>s1 s2. let q = pipe_view (pipes s pi) @ map (\<lambda>j. mem s (uaddr (mem s) (pagetable (procs s pr)) (src + of_nat j))) [0..<n];
        at = (\<lambda>j. uaddr (mem s) (pagetable (procs s pr)) (dst + of_nat j)); moved = min m (k + n) in
      pipewrite env pi src (int n) s = Ok (int n, env, s1) \<and> pipe_view (pipes s1 pi) = q \<and> mem s1 = mem s \<and>
      piperead env pi dst (int m) s1 = Ok (int moved, env, s2) \<and> pipe_view (pipes s2 pi) = drop m q \<and>
      pipe_counts (pipes s2 pi) (k + n - m) \<and>
      (\<forall>j < moved. mem s2 (at j) = q ! j) \<and> (\<forall>a. (\<forall>j < moved. a \<noteq> at j) \<longrightarrow> mem s2 a = mem s a)"
proof -
  obtain p1 where w: "pipewrite env pi src (int n) s = Ok (int n, env, s\<lparr>mach := sync (mach s),
      procs := woken (ChPipeRead pi) (myproc s) {0..<NPROC} (procs s), pipes := (pipes s)(pi := p1)\<rparr>)"
    "pipe_counts p1 (k + n)" "writeopen p1 = writeopen (pipes s pi)"
    "pipe_view p1 = pipe_view (pipes s pi) @ map (\<lambda>j. mem s (uaddr (mem s) (pagetable (procs s pr)) (src + of_nat j))) [0..<n]"
    using pipewrite_ok [OF assms(1-8) assms(10-12), of env] by blast
  let ?s1 = "s\<lparr>mach := sync (mach s), procs := woken (ChPipeRead pi) (myproc s) {0..<NPROC} (procs s), pipes := (pipes s)(pi := p1)\<rparr>"
  have "myproc ?s1 = Some pr" "proc_locks_ok ?s1" using assms(1,3) by (simp_all add: myproc_def proc_locks_ok_def)
  then obtain s2 where "piperead env pi dst (int m) ?s1 = Ok (int (min m (k + n)), env, s2)"
      "pipe_view (pipes s2 pi) = drop m (pipe_view p1)" "pipe_counts (pipes s2 pi) (k + n - m)"
      "\<forall>j < min m (k + n). mem s2 (uaddr (mem s) (pagetable (procs s pr)) (dst + of_nat j)) = pipe_view p1 ! j"
      "\<forall>a. (\<forall>j < min m (k + n). a \<noteq> uaddr (mem s) (pagetable (procs s pr)) (dst + of_nat j)) \<longrightarrow> mem s2 a = mem s a"
    using piperead_ok [of ?s1 pr pi dst m "k + n" env] assms(4,6,9,13) w(2,3) by force
  then show ?thesis
    unfolding Let_def w(4) [symmetric] using w(1) by (intro exI [of _ ?s1] exI [of _ s2] conjI) simp_all
qed

text \<open>A pipe between the two ends of its counters' range, written and read by the process of \<open>uvm_ex\<close>.\<close>

definition pipe_ex :: filest where
  "pipe_ex = consst.extend (cons_ex\<lparr>mem := mem uvm_ex, procs := (\<lambda>_. proc_ex\<lparr>pagetable := 0x87002000\<rparr>)\<rparr>)
     \<lparr>ftable = (\<lambda>_. \<lparr>ftype = FD_NONE, fref = 0, freadable = False, fwritable = False, fpipe = 0, fip = 0, foff = 0, fmajor = 0\<rparr>),
      pipes = (\<lambda>_. \<lparr>pdata = (\<lambda>_. 7), nread = - 1, nwrite = 0, readopen = True, writeopen = True\<rparr>)\<rparr>"

lemma pipe_ex_simps [simp]:
  "mach pipe_ex = mach_run 0" "mem pipe_ex = mem uvm_ex" "procs pipe_ex i = proc_ex\<lparr>pagetable := 0x87002000\<rparr>"
  "pipes pipe_ex pi = \<lparr>pdata = (\<lambda>_. 7), nread = - 1, nwrite = 0, readopen = True, writeopen = True\<rparr>"
  by (simp_all add: pipe_ex_def consst.defs)

theorem pipe_fifo_witness:
  "\<exists>s1 s2. pipewrite [] 0x87005000 0x1010 2 pipe_ex = Ok (2, [], s1) \<and> piperead [] 0x87005000 0x1010 3 s1 = Ok (3, [], s2) \<and>
     pipe_view (pipes s2 0x87005000) = []"
proof -
  have v: "pipe_view \<lparr>pdata = (\<lambda>_. 7), nread = - 1, nwrite = 0, readopen = True, writeopen = True\<rparr> = [7]"
    by (simp add: pipe_view_def between_def upt_rec)
  have "\<forall>j < 2. readable (mem uvm_ex) 0x87002000 (0x1010 + of_nat j)"
    using uvm_ex_range by (simp add: user_range_def writable_def)
  then show ?thesis
    using pipe_fifo [of pipe_ex 0 "0x87005000" "0x1010" 2 "0x1010" 3 1 "[]"] uvm_ex_range uvm_ex_inv(1)
    by (auto simp: Let_def v mach_run_ok proc_locks_ok_def myproc_def NPROC_def proc_ex_def pipe_counts_def PIPESIZE_def)
qed

text \<open>\<open>copyout\<close> gives up, and changes nothing, on a page that the user may not write and that \<open>vmfault\<close> does not
  provide: it is mapped already, or it is not below the size of the process.\<close>

definition unwritable :: "'a ptable_scheme \<Rightarrow> nat \<Rightarrow> u64 \<Rightarrow> bool" where
  "unwritable s p va \<longleftrightarrow> \<not> writable (mem s) (pagetable (procs s p)) va \<and>
     (valid (mem s) (pagetable (procs s p)) va \<or> sz (procs s p) \<le> PGROUNDDOWN va)"

lemma MAXVA_PGROUNDDOWN: "MAXVA \<le> va \<Longrightarrow> MAXVA \<le> PGROUNDDOWN va"
proof -
  have "(274877906944 :: nat) \<le> unat va \<Longrightarrow> 274877906944 \<le> unat va div 4096 * 4096"
    using div_le_mono [of 274877906944 "unat va" 4096] by simp
  then show "MAXVA \<le> va \<Longrightarrow> ?thesis" by (simp add: layout_simps word_le_nat_alt unat_PGROUNDDOWN)
qed

lemma copyout_unwritable:
  assumes p: "myproc s = Some p" and pt: "pt_ok (mem s) (pagetable (procs s p))" and u: "unwritable s p va" and src: "src \<noteq> []"
  shows "copyout (pagetable (procs s p)) va src s = Ok (- 1, s)"
proof (cases "MAXVA \<le> va")
  case True
  then have "MAXVA \<le> PGROUNDDOWN va" by (rule MAXVA_PGROUNDDOWN)
  then show ?thesis using src by (subst copyout.simps) (simp add: Let_def)
next
  case False
  let ?pt = "pagetable (procs s p)" and ?va0 = "PGROUNDDOWN va"
  have va: "va < MAXVA" using False by simp
  note v0 = vpn_PGROUNDDOWN [OF va] lookup_PGROUNDDOWN [OF va, of "mem s" ?pt]
  show ?thesis
  proof (cases "readable (mem s) ?pt va")
    case True
    then have "lookup (mem s) ?pt ?va0 \<noteq> 0" using v0 by (auto simp: readable_def)
    then obtain q where "tbl (mem s) ?pt [idx 2 ?va0, idx 1 ?va0] = Some q" by (auto simp: lookup_def split: option.splits)
    then have "load64 (mem s) (leaf_addr (mem s) ?pt ?va0) = lookup (mem s) ?pt va"
      using leaf_addr_nz(3) [OF pt, of ?va0] v0 by simp
    then show ?thesis
      using True u src v0 fault_in_mapped [OF pt True] by (subst copyout.simps) (simp add: Let_def walk_find unwritable_def writable_def readable_def)
  next
    case False
    have "ismapped ?pt ?va0 s = Ok (valid (mem s) ?pt va, s)" using ismapped_lookup [OF pt, of ?va0] v0 by (simp add: valid_def)
    moreover have "PGROUNDDOWN ?va0 = ?va0" by (simp add: word_unat_eq_iff unat_PGROUNDDOWN)
    moreover have "sz (procs s p) \<le> ?va0 \<or> valid (mem s) ?pt va" using u by (auto simp: unwritable_def)
    ultimately have "vmfault ?pt ?va0 s = Ok (0, s)" using p by (cases "sz (procs s p) \<le> ?va0") (simp_all add: vmfault_def)
    then have "fault_in ?pt ?va0 s = Ok (0, s)"
      using False pt v0 va by (simp add: fault_in_def walkaddr_lookup readable_def valid_def frame_def) blast
    then show ?thesis using src v0 by (subst copyout.simps) (simp add: Let_def)
  qed
qed

text \<open>C40. \<open>piperead\<close> takes a byte out of the pipe before it copies it to the user: with a destination that cannot be
  written (it is mapped without write permission for the user, or it lies outside the process) it returns 0, no memory
  changes, and the first byte of the queue is lost.\<close>

theorem piperead_loses_byte:
  assumes "myproc s = Some pr" "proc_locks_ok s" "lock_free (PipeLock pi) (mach s)" "pt_ok (mem s) (pagetable (procs s pr))"
    and "unwritable s pr addr" and "pipe_counts (pipes s pi) (Suc k)"
  shows "\<exists>s'. piperead env pi addr (int (Suc n)) s = Ok (0, env, s') \<and> mem s' = mem s \<and>
    pipe_view (pipes s' pi) = tl (pipe_view (pipes s pi)) \<and> pipe_counts (pipes s' pi) k"
proof -
  let ?s = "s\<lparr>mach := lockd (PipeLock pi) (mach s)\<rparr>" and ?p = "pipes s pi"
  let ?t = "?s\<lparr>pipes := (pipes s)(pi := pipe_pop ?p)\<rparr>"
  note pop = pipe_pop_ok [OF assms(6)]
  have ok: "mach_ok (mach s)" and ne: "nread ?p \<noteq> nwrite ?p"
    using assms(2) pipe_countsD(3) [OF assms(6)] by (simp_all add: proc_locks_ok_def)
  have w: "piperead_wait env pr pi ?s = Ok (False, env, ?s)" using ne by (subst piperead_wait.simps) simp
  have "copyout (pagetable (procs ?t pr)) addr [c] ?t = Ok (- 1, ?t)" for c
    using assms(1,4,5) by (intro copyout_unwritable) (simp_all add: unwritable_def myproc_def)
  then have r: "piperead_loop pr pi addr (Suc n) 0 ?s = Ok (0, ?t)"
    using ne by (simp add: upd_pipe_def pipe_pop_def Let_def)
  have "proc_locks_ok ?t" using assms(2) by (simp add: proc_locks_ok_def)
  then have "wakeup (ChPipeWrite pi) ?t =
      Ok (?t\<lparr>mach := lockd (PipeLock pi) (mach s), procs := woken (ChPipeWrite pi) (myproc s) {0..<NPROC} (procs s)\<rparr>)"
    using wakeup_ok [of ?t "ChPipeWrite pi"] ok by (simp add: myproc_def)
  moreover have "nat (int (Suc n)) = Suc n" by simp
  ultimately have "piperead env pi addr (int (Suc n)) s = Ok (0, env, s\<lparr>mach := sync (mach s),
      procs := woken (ChPipeWrite pi) (myproc s) {0..<NPROC} (procs s), pipes := (pipes s)(pi := pipe_pop ?p)\<rparr>)"
    using assms(1,3) ok w r by (simp add: piperead_def kacquire_free krelease_lockd del: piperead_loop.simps of_nat_Suc)
  then show ?thesis using pop by simp
qed

theorem piperead_loses_byte_witness:
  "\<exists>s'. piperead [] 0x87005000 0x5000000000 1 pipe_ex = Ok (0, [], s') \<and> pipe_view (pipes s' 0x87005000) = []"
proof -
  have v: "pipe_view \<lparr>pdata = (\<lambda>_. 7), nread = - 1, nwrite = 0, readopen = True, writeopen = True\<rparr> = [7]"
    by (simp add: pipe_view_def between_def upt_rec)
  have "unwritable pipe_ex 0 0x5000000000"
    by (simp add: unwritable_def writable_def readable_def proc_ex_def layout_simps PGROUNDDOWN_def PGSIZE_def)
  then show ?thesis
    using piperead_loses_byte [of pipe_ex 0 "0x87005000" "0x5000000000" 0 "[]" 0] uvm_ex_inv(1)
    by (auto simp: v mach_run_ok proc_locks_ok_def myproc_def pipe_counts_def PIPESIZE_def)
qed

end
