(* ===== verification/Procops.thy ===== *)
theory Procops
  imports Files
begin

text \<open>
  The life of a process, the part of \<^verbatim>\<open>kernel/proc.c\<close> that uses files and inodes: \<open>userinit\<close>, \<open>kfork\<close>, \<open>kexit\<close> and
  \<open>kwait\<close>. \<open>kexit\<close> does not return to its caller; \<open>kexit_zombie\<close> is the routine up to its call of \<open>sched\<close> and
  gives the state the scheduler gets.
\<close>

definition userinit :: "'a fsst_scheme \<Rightarrow> 'a fsst_scheme res" where
  "userinit s = rbind (allocproc s) (\<lambda>(r, s1).
     case r of
       None \<Rightarrow> Panic ''kerneltrap''
     | Some p \<Rightarrow>
         rbind (namei [SLASH] (s1\<lparr>initproc := Some p\<rparr>)) (\<lambda>(ip, s2).
         krelease (ProcLock p) (upd_proc p (\<lambda>q. q\<lparr>cwd := ip, pstate := RUNNABLE\<rparr>) s2)))"

text \<open>The body of the loop of \<open>kfork\<close> over the file descriptors.\<close>

definition dup_fd :: "nat \<Rightarrow> nat \<Rightarrow> nat \<Rightarrow> 'a filest_scheme \<Rightarrow> 'a filest_scheme res" where
  "dup_fd p np i s = (case ofile (procs s p) i of
     None \<Rightarrow> Ok s
   | Some f \<Rightarrow> rbind (filedup f s) (\<lambda>(f, s1). Ok (upd_proc np (\<lambda>q. q\<lparr>ofile := (ofile q)(i := Some f)\<rparr>) s1)))"

definition copy_trapframe :: "nat \<Rightarrow> nat \<Rightarrow> 'a ptable_scheme \<Rightarrow> 'a ptable_scheme" where
  "copy_trapframe p np s =
     s\<lparr>mem := write_bytes (mem s) (trapframe (procs s np)) (bytes_at (mem s) (trapframe (procs s p)) TF_SIZE)\<rparr>"

text \<open>The name field has 16 bytes, the last one for the NUL.\<close>

definition safe_name :: "u8 list \<Rightarrow> u8 list" where
  "safe_name xs = take 15 xs"

definition kfork :: "'a filest_scheme \<Rightarrow> (int \<times> 'a filest_scheme) res" where
  "kfork s = with_proc s (\<lambda>p. rbind (allocproc s) (\<lambda>(r, s1).
     case r of
       None \<Rightarrow> Ok (- 1, s1)
     | Some np \<Rightarrow>
         rbind (uvmcopy (pagetable (procs s1 p)) (pagetable (procs s1 np)) (sz (procs s1 p)) s1) (\<lambda>(e, s2).
         if e < 0
         then rbind (freeproc np s2) (\<lambda>s3. rbind (krelease (ProcLock np) s3) (\<lambda>s4. Ok (- 1, s4)))
         else
           let s3 = upd_proc np (\<lambda>q. q\<lparr>sz := sz (procs s2 p)\<rparr>) s2;
               s4 = tf_set TF_A0 0 np (copy_trapframe p np s3)
           in rbind (rfold (dup_fd p np) [0..<NOFILE] s4) (\<lambda>s5.
              rbind (case cwd (procs s5 p) of None \<Rightarrow> Panic ''kerneltrap'' | Some ip \<Rightarrow> idup ip s5) (\<lambda>(ip, s6).
              let s7 = upd_proc np (\<lambda>q. q\<lparr>cwd := Some ip, pname := safe_name (pname (procs s6 p))\<rparr>) s6;
                  k = pid (procs s7 np)
              in rbind (krelease (ProcLock np) s7) (\<lambda>s8.
                 rbind (kacquire WaitLock s8) (\<lambda>s9.
                 rbind (krelease WaitLock (upd_proc np (\<lambda>q. q\<lparr>parent := Some p\<rparr>) s9)) (\<lambda>s10.
                 rbind (kacquire (ProcLock np) s10) (\<lambda>s11.
                 rbind (krelease (ProcLock np) (upd_proc np (\<lambda>q. q\<lparr>pstate := RUNNABLE\<rparr>) s11)) (\<lambda>s12.
                 Ok (k, s12)))))))))))"

definition close_fd :: "nat \<Rightarrow> nat \<Rightarrow> 'a filest_scheme \<Rightarrow> 'a filest_scheme res" where
  "close_fd p fd s = (case ofile (procs s p) fd of
     None \<Rightarrow> Ok s
   | Some f \<Rightarrow> rbind (fileclose f s) (\<lambda>s1. Ok (upd_proc p (\<lambda>q. q\<lparr>ofile := (ofile q)(fd := None)\<rparr>) s1)))"

definition kexit_zombie :: "int \<Rightarrow> 'a filest_scheme \<Rightarrow> 'a filest_scheme res" where
  "kexit_zombie status s = with_proc s (\<lambda>p.
     if initproc s = Some p then Panic ''init exiting''
     else rbind (rfold (close_fd p) [0..<NOFILE] s) (\<lambda>s1.
       rbind (begin_op s1) (\<lambda>s2.
       rbind (case cwd (procs s2 p) of None \<Rightarrow> Panic ''kerneltrap'' | Some ip \<Rightarrow> iput ip s2) (\<lambda>s3.
       rbind (end_op s3) (\<lambda>s4.
       rbind (kacquire WaitLock (upd_proc p (\<lambda>q. q\<lparr>cwd := None\<rparr>) s4)) (\<lambda>s5.
       rbind (reparent p s5) (\<lambda>s6.
       rbind (wakeup (proc_chan (parent (procs s6 p))) s6) (\<lambda>s7.
       rbind (kacquire (ProcLock p) s7) (\<lambda>s8.
       krelease WaitLock (upd_proc p (\<lambda>q. q\<lparr>xstate := status, pstate := ZOMBIE\<rparr>) s8))))))))))"

definition kexit :: "('a filest_scheme \<Rightarrow> 'a filest_scheme) \<Rightarrow> int \<Rightarrow> 'a filest_scheme \<Rightarrow> 'a filest_scheme res" where
  "kexit swtch status s = rbind (kexit_zombie status s) (\<lambda>s1. rbind (sched swtch s1) (\<lambda>_. Panic ''zombie exit''))"

text \<open>One scan of the process table by \<open>kwait\<close>. The first component is the result when the scan ends the call, the
  second the code's \<open>havekids\<close>.\<close>

fun kwait_scan :: "nat \<Rightarrow> u64 \<Rightarrow> nat list \<Rightarrow> bool \<Rightarrow> 'a ptable_scheme \<Rightarrow> (int option \<times> bool \<times> 'a ptable_scheme) res" where
  "kwait_scan p addr [] havekids s = Ok (None, havekids, s)"
| "kwait_scan p addr (i # is) havekids s =
     (if parent (procs s i) \<noteq> Some p then kwait_scan p addr is havekids s
      else rbind (kacquire (ProcLock i) s) (\<lambda>s1.
        if pstate (procs s1 i) = ZOMBIE
        then
          let k = pid (procs s1 i) in
          rbind (if addr \<noteq> 0
                 then copyout (pagetable (procs s1 p)) addr (le_bytes 4 (word_of_int (xstate (procs s1 i)) :: u32)) s1
                 else Ok (0, s1)) (\<lambda>(r, s2).
          if r < 0
          then rbind (krelease (ProcLock i) s2) (\<lambda>s3. rbind (krelease WaitLock s3) (\<lambda>s4. Ok (Some (- 1), True, s4)))
          else rbind (freeproc i s2) (\<lambda>s3.
            rbind (krelease (ProcLock i) s3) (\<lambda>s4. rbind (krelease WaitLock s4) (\<lambda>s5. Ok (Some k, True, s5)))))
        else rbind (krelease (ProcLock i) s1) (kwait_scan p addr is True)))"

fun kwait_loop :: "'a ptable_scheme env \<Rightarrow> nat \<Rightarrow> u64 \<Rightarrow> 'a ptable_scheme \<Rightarrow> (int \<times> 'a ptable_scheme env \<times> 'a ptable_scheme) res" where
  "kwait_loop env p addr s = rbind (kwait_scan p addr [0..<NPROC] False s) (\<lambda>(r, havekids, s1).
     case r of
       Some k \<Rightarrow> Ok (k, env, s1)
     | None \<Rightarrow>
         rbind (if \<not> havekids then Ok (True, s1) else rbind (killed p s1) (\<lambda>(k, s2). Ok (k \<noteq> 0, s2))) (\<lambda>(stop, s2).
         if stop then rbind (krelease WaitLock s2) (\<lambda>s3. Ok (- 1, env, s3))
         else (case env of [] \<Rightarrow> Blocked
           | e # es \<Rightarrow> rbind (sleep e (ChProc p) WaitLock s2) (kwait_loop es p addr))))"

declare kwait_loop.simps [simp del]

definition kwait :: "'a ptable_scheme env \<Rightarrow> u64 \<Rightarrow> 'a ptable_scheme \<Rightarrow> (int \<times> 'a ptable_scheme env \<times> 'a ptable_scheme) res" where
  "kwait env addr s = with_proc s (\<lambda>p. rbind (kacquire WaitLock s) (kwait_loop env p addr))"

end
