(* ===== verification/Exec.thy ===== *)
theory Exec
  imports Procops
begin

text \<open>
  Program loading, \<^verbatim>\<open>kernel/exec.c\<close>. The arguments are the strings \<open>argv\<close> points to. The local array \<open>ustack\<close> has
  \<open>MAXARG\<close> entries; the callers pass at most \<open>MAXARG - 1\<close> arguments, so the final null entry_pc fits.
\<close>

definition ELF_MAGIC :: u32 where "ELF_MAGIC = 0x464C457F"
definition ELF_PROG_LOAD :: u32 where "ELF_PROG_LOAD = 1"

record elfhdr =
  elf_magic :: u32
  elf_entry :: u64
  elf_phoff :: u64
  elf_phnum :: u16

definition get_elfhdr :: "u8 list \<Rightarrow> elfhdr" where
  "get_elfhdr d = \<lparr>elf_magic = get_le 4 d 0, elf_entry = get_le 8 d 24, elf_phoff = get_le 8 d 32, elf_phnum = get_le 2 d 56\<rparr>"

record proghdr =
  ph_type :: u32
  ph_flags :: u32
  ph_off :: u64
  ph_vaddr :: u64
  ph_filesz :: u64
  ph_memsz :: u64

definition get_proghdr :: "u8 list \<Rightarrow> proghdr" where
  "get_proghdr d = \<lparr>ph_type = get_le 4 d 0, ph_flags = get_le 4 d 4, ph_off = get_le 8 d 8, ph_vaddr = get_le 8 d 16,
     ph_filesz = get_le 8 d 32, ph_memsz = get_le 8 d 40\<rparr>"

definition flags2perm :: "u32 \<Rightarrow> u64" where
  "flags2perm flags =
     (let perm = (if flags AND 1 \<noteq> 0 then PTE_X else 0)
      in if flags AND 2 \<noteq> 0 then perm OR PTE_W else perm)"

text \<open>The loop of \<open>loadseg\<close>; \<open>left\<close> is \<open>sz - i\<close>.\<close>

function loadseg_loop :: "u64 \<Rightarrow> u64 \<Rightarrow> nat \<Rightarrow> u32 \<Rightarrow> nat \<Rightarrow> nat \<Rightarrow> 'a fsst_scheme \<Rightarrow> (int \<times> 'a fsst_scheme) res" where
  "loadseg_loop pt va ip off i left s =
     (if left = 0 then Ok (0, s)
      else rbind (walkaddr pt (va + of_nat i) s) (\<lambda>(pa, s1).
        if pa = 0 then Panic ''loadseg: address should exist''
        else
          let n = min left 4096 in
          rbind (readi ip (KernDst pa) (off + of_nat i) (of_nat n) s1) (\<lambda>(r, bs, s2).
          if r \<noteq> int n then Ok (- 1, s2) else loadseg_loop pt va ip off (i + 4096) (left - n) s2)))"
  by pat_completeness auto
termination
  by (relation "measure (\<lambda>(pt, va, ip, off, i, left, s). left)") auto

declare loadseg_loop.simps [simp del]

definition loadseg :: "u64 \<Rightarrow> u64 \<Rightarrow> nat \<Rightarrow> u32 \<Rightarrow> u32 \<Rightarrow> 'a fsst_scheme \<Rightarrow> (int \<times> 'a fsst_scheme) res" where
  "loadseg pt va ip off n s = loadseg_loop pt va ip off 0 (unat n) s"

text \<open>The loop over the program headers. It gives false for a jump to \<open>bad\<close>, and the value of \<open>sz\<close>.\<close>

fun kexec_load :: "u64 \<Rightarrow> nat \<Rightarrow> nat \<Rightarrow> u32 \<Rightarrow> u64 \<Rightarrow> 'a fsst_scheme \<Rightarrow> (bool \<times> u64 \<times> 'a fsst_scheme) res" where
  "kexec_load pt ip 0 off size0 s = Ok (True, size0, s)"
| "kexec_load pt ip (Suc n) off size0 s =
     rbind (readi ip LocalDst off 56 s) (\<lambda>(r, bs, s1).
     let ph = get_proghdr bs in
     if r \<noteq> 56 then Ok (False, size0, s1)
     else if ph_type ph \<noteq> ELF_PROG_LOAD then kexec_load pt ip n (off + 56) size0 s1
     else if ph_memsz ph < ph_filesz ph then Ok (False, size0, s1)
     else if ph_vaddr ph + ph_memsz ph < ph_vaddr ph then Ok (False, size0, s1)
     else if ph_vaddr ph mod PGSIZE \<noteq> 0 then Ok (False, size0, s1)
     else rbind (uvmalloc pt size0 (ph_vaddr ph + ph_memsz ph) (flags2perm (ph_flags ph)) s1) (\<lambda>(sz1, s2).
       if sz1 = 0 then Ok (False, size0, s2)
       else rbind (loadseg pt (ph_vaddr ph) ip (ucast (ph_off ph)) (ucast (ph_filesz ph)) s2) (\<lambda>(r, s3).
         if r < 0 then Ok (False, sz1, s3) else kexec_load pt ip n (off + 56) sz1 s3)))"

text \<open>The loop that copies the arguments to the new stack.\<close>

fun kexec_args :: "u64 \<Rightarrow> u64 \<Rightarrow> u8 list list \<Rightarrow> u64 \<Rightarrow> u64 list \<Rightarrow> 'a ptable_scheme \<Rightarrow>
    ((u64 \<times> u64 list) option \<times> 'a ptable_scheme) res" where
  "kexec_args pt stackbase [] sp ustack s = Ok (Some (sp, ustack), s)"
| "kexec_args pt stackbase (a # as) sp ustack s =
     (if MAXARG \<le> length ustack then Ok (None, s)
      else
        let sp1 = sp - (of_nat (length a) + 1); sp2 = sp1 - sp1 mod 16 in
        if sp2 < stackbase then Ok (None, s)
        else rbind (copyout pt sp2 (a @ [0]) s) (\<lambda>(r, s1).
          if r < 0 then Ok (None, s1) else kexec_args pt stackbase as sp2 (ustack @ [sp2]) s1))"

definition kexec_stack :: "u64 \<Rightarrow> u64 \<Rightarrow> u8 list list \<Rightarrow> u64 \<Rightarrow> 'a ptable_scheme \<Rightarrow>
    ((u64 \<times> nat) option \<times> 'a ptable_scheme) res" where
  "kexec_stack pt stackbase argv sp s = rbind (kexec_args pt stackbase argv sp [] s) (\<lambda>(r, s1).
     case r of
       None \<Rightarrow> Ok (None, s1)
     | Some (sp, ustack) \<Rightarrow>
         let sp1 = sp - (of_nat (length ustack) + 1) * 8; sp2 = sp1 - sp1 mod 16 in
         if sp2 < stackbase then Ok (None, s1)
         else rbind (copyout pt sp2 (concat (map (le_bytes 8) (ustack @ [0]))) s1) (\<lambda>(r, s2).
           if r < 0 then Ok (None, s2) else Ok (Some (sp2, length ustack), s2)))"

text \<open>What stands at the label \<open>bad\<close>.\<close>

definition kexec_bad :: "u64 \<Rightarrow> u64 \<Rightarrow> nat option \<Rightarrow> 'a fsst_scheme \<Rightarrow> (int \<times> 'a fsst_scheme) res" where
  "kexec_bad pt size0 ip s =
     rbind (if pt \<noteq> 0 then proc_freepagetable pt size0 s else Ok s) (\<lambda>s1.
     rbind (case ip of None \<Rightarrow> Ok s1 | Some ip \<Rightarrow> rbind (iunlockput ip s1) end_op) (\<lambda>s2. Ok (- 1, s2)))"

definition last_elem :: "u8 list \<Rightarrow> u8 list" where
  "last_elem path = rev (takeWhile (\<lambda>c. c \<noteq> SLASH) (rev path))"

definition kexec_commit :: "nat \<Rightarrow> u8 list \<Rightarrow> u64 \<Rightarrow> u64 \<Rightarrow> u64 \<Rightarrow> u64 \<Rightarrow> u64 \<Rightarrow> 'a ptable_scheme \<Rightarrow> 'a ptable_scheme res" where
  "kexec_commit p path pt sz1 sp entry_pc oldsz s =
     (let s1 = upd_proc p (\<lambda>q. q\<lparr>pname := safe_name (last_elem path)\<rparr>) (tf_set TF_A1 sp p s);
          oldpagetable = pagetable (procs s1 p);
          s2 = tf_set TF_SP sp p (tf_set TF_EPC entry_pc p (upd_proc p (\<lambda>q. q\<lparr>pagetable := pt, sz := sz1\<rparr>) s1))
      in proc_freepagetable oldpagetable oldsz s2)"

text \<open>The part of \<open>kexec\<close> behind the loading of the program: the stack and the switch to the new image.\<close>

definition kexec_image :: "nat \<Rightarrow> u8 list \<Rightarrow> u8 list list \<Rightarrow> u64 \<Rightarrow> u64 \<Rightarrow> u64 \<Rightarrow> 'a fsst_scheme \<Rightarrow> (int \<times> 'a fsst_scheme) res" where
  "kexec_image p path argv pt sz0 entry_pc s =
     (let oldsz = sz (procs s p); sz0 = PGROUNDUP sz0 in
      rbind (uvmalloc pt sz0 (sz0 + (of_nat USERSTACK + 1) * PGSIZE) PTE_W s) (\<lambda>(sz1, s1).
      if sz1 = 0 then kexec_bad pt sz0 None s1
      else rbind (uvmclear pt (sz1 - (of_nat USERSTACK + 1) * PGSIZE) s1) (\<lambda>s2.
        rbind (kexec_stack pt (sz1 - of_nat USERSTACK * PGSIZE) argv sz1 s2) (\<lambda>(r, s3).
        case r of
          None \<Rightarrow> kexec_bad pt sz1 None s3
        | Some (sp, argc) \<Rightarrow>
            rbind (kexec_commit p path pt sz1 sp entry_pc oldsz s3) (\<lambda>s4. Ok (int argc, s4))))))"

definition kexec :: "u8 list \<Rightarrow> u8 list list \<Rightarrow> 'a fsst_scheme \<Rightarrow> (int \<times> 'a fsst_scheme) res" where
  "kexec path argv s = with_proc s (\<lambda>p.
     rbind (begin_op s) (\<lambda>s1.
     rbind (namei path s1) (\<lambda>(r, s2).
     case r of
       None \<Rightarrow> rbind (end_op s2) (\<lambda>s3. Ok (- 1, s3))
     | Some ip \<Rightarrow>
         rbind (ilock ip s2) (\<lambda>s3.
         rbind (readi ip LocalDst 0 64 s3) (\<lambda>(r, bs, s4).
         let elf = get_elfhdr bs in
         if r \<noteq> 64 then kexec_bad 0 0 (Some ip) s4
         else if elf_magic elf \<noteq> ELF_MAGIC then kexec_bad 0 0 (Some ip) s4
         else rbind (proc_pagetable p s4) (\<lambda>(pt, s5).
           if pt = 0 then kexec_bad 0 0 (Some ip) s5
           else rbind (kexec_load pt ip (unat (elf_phnum elf)) (ucast (elf_phoff elf)) 0 s5) (\<lambda>(good, sz1, s6).
             if \<not> good then kexec_bad pt sz1 (Some ip) s6
             else rbind (iunlockput ip s6) (\<lambda>s7.
               rbind (end_op s7) (kexec_image p path argv pt sz1 (elf_entry elf))))))))))"

end
