(* ===== verification/Sysproc.thy ===== *)
theory Sysproc
  imports Exec
begin

text \<open>
  Arguments of system calls, the first half of \<^verbatim>\<open>kernel/syscall.c\<close>, and the process system calls,
  \<^verbatim>\<open>kernel/sysproc.c\<close>. A handler returns the 64-bit value that goes to register \<open>a0\<close>. \<open>sys_exit\<close> does not return: it
  gives the state in which the scheduler takes over.
\<close>

record tickst = filest +
  ticks :: u32

definition ret :: "int \<Rightarrow> u64" where
  "ret r = word_of_int r"

section \<open>Fetching arguments\<close>

definition fetchaddr :: "u64 \<Rightarrow> 'a ptable_scheme \<Rightarrow> (u64 option \<times> 'a ptable_scheme) res" where
  "fetchaddr addr s = with_proc s (\<lambda>p.
     if addr \<ge> sz (procs s p) \<or> addr + 8 > sz (procs s p) then Ok (None, s)
     else rbind (copyin (pagetable (procs s p)) addr 8 s) (\<lambda>(r, bs, s1).
       Ok (if r \<noteq> 0 then None else Some (get_le 8 bs 0), s1)))"

text \<open>The string; the code returns its length and stores it in the caller's buffer.\<close>

definition fetchstr :: "u64 \<Rightarrow> nat \<Rightarrow> 'a ptable_scheme \<Rightarrow> (u8 list option \<times> 'a ptable_scheme) res" where
  "fetchstr addr mx s = with_proc s (\<lambda>p. copyinstr (pagetable (procs s p)) addr mx s)"

definition argraw :: "nat \<Rightarrow> 'a ptable_scheme \<Rightarrow> u64 res" where
  "argraw n s = with_proc s (\<lambda>p. if n \<le> 5 then Ok (tf_get (TF_A0 + 8 * of_nat n) p s) else Panic ''argraw'')"

definition argint :: "nat \<Rightarrow> 'a ptable_scheme \<Rightarrow> int res" where
  "argint n s = rbind (argraw n s) (\<lambda>x. Ok (sint (ucast x :: u32)))"

definition argaddr :: "nat \<Rightarrow> 'a ptable_scheme \<Rightarrow> u64 res" where
  "argaddr n s = argraw n s"

definition argstr :: "nat \<Rightarrow> nat \<Rightarrow> 'a ptable_scheme \<Rightarrow> (u8 list option \<times> 'a ptable_scheme) res" where
  "argstr n mx s = rbind (argaddr n s) (\<lambda>addr. fetchstr addr mx s)"

section \<open>Process system calls\<close>

definition sys_exit :: "'a filest_scheme \<Rightarrow> 'a filest_scheme res" where
  "sys_exit s = rbind (argint 0 s) (\<lambda>n. kexit_zombie n s)"

definition sys_getpid :: "'a ptable_scheme \<Rightarrow> (u64 \<times> 'a ptable_scheme) res" where
  "sys_getpid s = with_proc s (\<lambda>p. Ok (ret (pid (procs s p)), s))"

definition sys_fork :: "'a filest_scheme \<Rightarrow> (u64 \<times> 'a filest_scheme) res" where
  "sys_fork s = rbind (kfork s) (\<lambda>(r, s1). Ok (ret r, s1))"

definition sys_wait :: "'a ptable_scheme env \<Rightarrow> 'a ptable_scheme \<Rightarrow> (u64 \<times> 'a ptable_scheme env \<times> 'a ptable_scheme) res" where
  "sys_wait env s = rbind (argaddr 0 s) (\<lambda>p. rbind (kwait env p s) (\<lambda>(r, env1, s1). Ok (ret r, env1, s1)))"

definition SBRK_EAGER :: int where "SBRK_EAGER = 1"

definition sys_sbrk :: "'a ptable_scheme \<Rightarrow> (u64 \<times> 'a ptable_scheme) res" where
  "sys_sbrk s = rbind (argint 0 s) (\<lambda>n. rbind (argint 1 s) (\<lambda>t. with_proc s (\<lambda>p.
     let addr = sz (procs s p) in
     if t = SBRK_EAGER \<or> n < 0
     then rbind (growproc n s) (\<lambda>(r, s1). Ok (if r < 0 then ret (- 1) else addr, s1))
     else if addr + word_of_int n < addr then Ok (ret (- 1), s)
     else Ok (addr, upd_proc p (\<lambda>q. q\<lparr>sz := sz q + word_of_int n\<rparr>) s))))"

text \<open>The loop of \<open>sys_pause\<close>; the comparison of \<open>ticks - ticks0\<close> with \<open>n\<close> is one of unsigned integers.\<close>

fun pause_loop :: "'a tickst_scheme env \<Rightarrow> u32 \<Rightarrow> u32 \<Rightarrow> 'a tickst_scheme \<Rightarrow> (u64 \<times> 'a tickst_scheme env \<times> 'a tickst_scheme) res" where
  "pause_loop env ticks0 n s =
     (if ticks s - ticks0 < n
      then with_proc s (\<lambda>p. rbind (killed p s) (\<lambda>(k, s1).
        if k \<noteq> 0 then rbind (krelease TicksLock s1) (\<lambda>s2. Ok (ret (- 1), env, s2))
        else case env of [] \<Rightarrow> Blocked
          | e # es \<Rightarrow> rbind (sleep e ChTicks TicksLock s1) (pause_loop es ticks0 n)))
      else rbind (krelease TicksLock s) (\<lambda>s1. Ok (0, env, s1)))"

declare pause_loop.simps [simp del]

definition sys_pause :: "'a tickst_scheme env \<Rightarrow> 'a tickst_scheme \<Rightarrow> (u64 \<times> 'a tickst_scheme env \<times> 'a tickst_scheme) res" where
  "sys_pause env s = rbind (argint 0 s) (\<lambda>n. rbind (kacquire TicksLock s) (\<lambda>s1.
     pause_loop env (ticks s1) (word_of_int (if n < 0 then 0 else n)) s1))"

definition sys_kill :: "'a ptable_scheme \<Rightarrow> (u64 \<times> 'a ptable_scheme) res" where
  "sys_kill s = rbind (argint 0 s) (\<lambda>k. rbind (kkill k s) (\<lambda>(r, s1). Ok (ret r, s1)))"

definition sys_uptime :: "'a tickst_scheme \<Rightarrow> (u64 \<times> 'a tickst_scheme) res" where
  "sys_uptime s = rbind (kacquire TicksLock s) (\<lambda>s1.
     let xticks = ticks s1 in rbind (krelease TicksLock s1) (\<lambda>s2. Ok (ucast xticks, s2)))"

end
