(* ===== verification/Sysfile.thy ===== *)
theory Sysfile
  imports Sysproc
begin

text \<open>
  The file system calls, \<^verbatim>\<open>kernel/sysfile.c\<close>: file descriptors, links, directories, opening, \<open>exec\<close> and \<open>pipe\<close>, and
  the dispatch of system calls at the end of \<^verbatim>\<open>kernel/syscall.c\<close>.
\<close>

section \<open>File descriptors\<close>

definition argfd :: "nat \<Rightarrow> 'a ptable_scheme \<Rightarrow> (nat \<times> nat) option res" where
  "argfd n s = rbind (argint n s) (\<lambda>fd.
     if fd < 0 \<or> fd \<ge> int NOFILE then Ok None
     else with_proc s (\<lambda>p. Ok (case ofile (procs s p) (nat fd) of None \<Rightarrow> None | Some f \<Rightarrow> Some (nat fd, f))))"

definition fdalloc :: "nat \<Rightarrow> 'a ptable_scheme \<Rightarrow> (nat option \<times> 'a ptable_scheme) res" where
  "fdalloc f s = with_proc s (\<lambda>p.
     case List.find (\<lambda>fd. ofile (procs s p) fd = None) [0..<NOFILE] of
       None \<Rightarrow> Ok (None, s)
     | Some fd \<Rightarrow> Ok (Some fd, upd_proc p (\<lambda>q. q\<lparr>ofile := (ofile q)(fd := Some f)\<rparr>) s))"

definition sys_dup :: "'a filest_scheme \<Rightarrow> (u64 \<times> 'a filest_scheme) res" where
  "sys_dup s = rbind (argfd 0 s) (\<lambda>r. case r of
     None \<Rightarrow> Ok (ret (- 1), s)
   | Some (_, f) \<Rightarrow> rbind (fdalloc f s) (\<lambda>(r, s1). case r of
       None \<Rightarrow> Ok (ret (- 1), s1)
     | Some fd \<Rightarrow> rbind (filedup f s1) (\<lambda>(_, s2). Ok (of_nat fd, s2))))"

definition sys_read :: "'a filest_scheme env \<Rightarrow> 'a filest_scheme \<Rightarrow> (u64 \<times> 'a filest_scheme env \<times> 'a filest_scheme) res" where
  "sys_read env s = rbind (argaddr 1 s) (\<lambda>p. rbind (argint 2 s) (\<lambda>n. rbind (argfd 0 s) (\<lambda>r. case r of
     None \<Rightarrow> Ok (ret (- 1), env, s)
   | Some (_, f) \<Rightarrow> rbind (fileread env f p n s) (\<lambda>(r, env1, s1). Ok (ret r, env1, s1)))))"

definition sys_write :: "'a filest_scheme env \<Rightarrow> 'a filest_scheme \<Rightarrow> (u64 \<times> 'a filest_scheme env \<times> 'a filest_scheme) res" where
  "sys_write env s = rbind (argaddr 1 s) (\<lambda>p. rbind (argint 2 s) (\<lambda>n. rbind (argfd 0 s) (\<lambda>r. case r of
     None \<Rightarrow> Ok (ret (- 1), env, s)
   | Some (_, f) \<Rightarrow> rbind (filewrite env f p n s) (\<lambda>(r, env1, s1). Ok (ret r, env1, s1)))))"

definition sys_close :: "'a filest_scheme \<Rightarrow> (u64 \<times> 'a filest_scheme) res" where
  "sys_close s = rbind (argfd 0 s) (\<lambda>r. case r of
     None \<Rightarrow> Ok (ret (- 1), s)
   | Some (fd, f) \<Rightarrow> with_proc s (\<lambda>p.
       rbind (fileclose f (upd_proc p (\<lambda>q. q\<lparr>ofile := (ofile q)(fd := None)\<rparr>) s)) (\<lambda>s1. Ok (0, s1))))"

definition sys_fstat :: "'a filest_scheme \<Rightarrow> (u64 \<times> 'a filest_scheme) res" where
  "sys_fstat s = rbind (argaddr 1 s) (\<lambda>st. rbind (argfd 0 s) (\<lambda>r. case r of
     None \<Rightarrow> Ok (ret (- 1), s)
   | Some (_, f) \<Rightarrow> rbind (filestat f st s) (\<lambda>(r, s1). Ok (ret r, s1))))"

section \<open>Links\<close>

text \<open>What stands at the label \<open>bad\<close> of \<open>sys_link\<close>.\<close>

definition link_bad :: "nat \<Rightarrow> 'a fsst_scheme \<Rightarrow> (u64 \<times> 'a fsst_scheme) res" where
  "link_bad ip s = rbind (ilock ip s) (\<lambda>s1.
     rbind (iupdate ip (upd_inode ip (\<lambda>x. x\<lparr>inlink := inlink x - 1\<rparr>) s1)) (\<lambda>s2.
     rbind (iunlockput ip s2) (\<lambda>s3. rbind (end_op s3) (\<lambda>s4. Ok (ret (- 1), s4)))))"

definition link_paths :: "u8 list \<Rightarrow> u8 list \<Rightarrow> 'a fsst_scheme \<Rightarrow> (u64 \<times> 'a fsst_scheme) res" where
  "link_paths old new s = rbind (begin_op s) (\<lambda>s1. rbind (namei old s1) (\<lambda>(r, s2). case r of
     None \<Rightarrow> rbind (end_op s2) (\<lambda>s3. Ok (ret (- 1), s3))
   | Some ip \<Rightarrow> rbind (ilock ip s2) (\<lambda>s3.
       if itype (itable s3 ip) = T_DIR
       then rbind (iunlockput ip s3) (\<lambda>s4. rbind (end_op s4) (\<lambda>s5. Ok (ret (- 1), s5)))
       else rbind (iupdate ip (upd_inode ip (\<lambda>x. x\<lparr>inlink := inlink x + 1\<rparr>) s3)) (\<lambda>s4.
         rbind (iunlock ip s4) (\<lambda>s5.
         rbind (nameiparent new s5) (\<lambda>(r, s6). case r of
           None \<Rightarrow> link_bad ip s6
         | Some (dp, nm) \<Rightarrow> rbind (ilock dp s6) (\<lambda>s7.
             if idev (itable s7 dp) \<noteq> idev (itable s7 ip)
             then rbind (iunlockput dp s7) (link_bad ip)
             else rbind (dirlink dp nm (inum (itable s7 ip)) s7) (\<lambda>(r, s8).
               if r < 0 then rbind (iunlockput dp s8) (link_bad ip)
               else rbind (iunlockput dp s8) (\<lambda>s9.
                 rbind (iput ip s9) (\<lambda>s10. rbind (end_op s10) (\<lambda>s11. Ok (0, s11))))))))))))"

definition sys_link :: "'a fsst_scheme \<Rightarrow> (u64 \<times> 'a fsst_scheme) res" where
  "sys_link s = rbind (argstr 0 MAXPATH s) (\<lambda>(r, s1). case r of
     None \<Rightarrow> Ok (ret (- 1), s1)
   | Some old \<Rightarrow> rbind (argstr 1 MAXPATH s1) (\<lambda>(r, s2). case r of
       None \<Rightarrow> Ok (ret (- 1), s2)
     | Some new \<Rightarrow> link_paths old new s2))"

text \<open>The loop of \<open>isdirempty\<close> over the entries behind the first two.\<close>

fun isdirempty_loop :: "nat \<Rightarrow> nat list \<Rightarrow> 'a fsst_scheme \<Rightarrow> (bool \<times> 'a fsst_scheme) res" where
  "isdirempty_loop dp [] s = Ok (True, s)"
| "isdirempty_loop dp (off # offs) s = rbind (readi dp LocalDst (of_nat off) 16 s) (\<lambda>(r, bs, s1).
     if r \<noteq> 16 then Panic ''isdirempty: readi''
     else if de_inum (get_dirent bs) \<noteq> 0 then Ok (False, s1) else isdirempty_loop dp offs s1)"

definition isdirempty :: "nat \<Rightarrow> 'a fsst_scheme \<Rightarrow> (bool \<times> 'a fsst_scheme) res" where
  "isdirempty dp s = isdirempty_loop dp (drop 2 (dir_offsets dp s)) s"

definition unlink_bad :: "nat \<Rightarrow> 'a fsst_scheme \<Rightarrow> (u64 \<times> 'a fsst_scheme) res" where
  "unlink_bad dp s = rbind (iunlockput dp s) (\<lambda>s1. rbind (end_op s1) (\<lambda>s2. Ok (ret (- 1), s2)))"

definition DOT :: "u8 list" where "DOT = [0x2E]"
definition DOTDOT :: "u8 list" where "DOTDOT = [0x2E, 0x2E]"

text \<open>The part of \<open>sys_unlink\<close> behind the checks: the entry at \<open>off\<close> of \<open>dp\<close> is erased and \<open>ip\<close> loses a link.\<close>

definition unlink_entry :: "nat \<Rightarrow> nat \<Rightarrow> nat \<Rightarrow> 'a fsst_scheme \<Rightarrow> (u64 \<times> 'a fsst_scheme) res" where
  "unlink_entry dp ip off s =
     rbind (writei dp (LocalSrc (replicate 16 0)) (of_nat off) 16 s) (\<lambda>(r, s1).
     if r \<noteq> 16 then Panic ''unlink: writei''
     else rbind (if itype (itable s1 ip) = T_DIR
                 then iupdate dp (upd_inode dp (\<lambda>x. x\<lparr>inlink := inlink x - 1\<rparr>) s1) else Ok s1) (\<lambda>s2.
       rbind (iunlockput dp s2) (\<lambda>s3.
       rbind (iupdate ip (upd_inode ip (\<lambda>x. x\<lparr>inlink := inlink x - 1\<rparr>) s3)) (\<lambda>s4.
       rbind (iunlockput ip s4) (\<lambda>s5. rbind (end_op s5) (\<lambda>s6. Ok (0, s6)))))))"

definition unlink_path :: "u8 list \<Rightarrow> 'a fsst_scheme \<Rightarrow> (u64 \<times> 'a fsst_scheme) res" where
  "unlink_path path s = rbind (begin_op s) (\<lambda>s1. rbind (nameiparent path s1) (\<lambda>(r, s2). case r of
     None \<Rightarrow> rbind (end_op s2) (\<lambda>s3. Ok (ret (- 1), s3))
   | Some (dp, nm) \<Rightarrow> rbind (ilock dp s2) (\<lambda>s3.
       if namecmp nm DOT = 0 \<or> namecmp nm DOTDOT = 0 then unlink_bad dp s3
       else rbind (dirlookup dp nm s3) (\<lambda>(r, s4). case r of
         None \<Rightarrow> unlink_bad dp s4
       | Some (ip, off) \<Rightarrow> rbind (ilock ip s4) (\<lambda>s5.
           if sint (inlink (itable s5 ip)) < 1 then Panic ''unlink: nlink < 1''
           else rbind (if itype (itable s5 ip) = T_DIR then isdirempty ip s5 else Ok (True, s5)) (\<lambda>(e, s6).
             if \<not> e then rbind (iunlockput ip s6) (unlink_bad dp)
             else unlink_entry dp ip off s6))))))"

definition sys_unlink :: "'a fsst_scheme \<Rightarrow> (u64 \<times> 'a fsst_scheme) res" where
  "sys_unlink s = rbind (argstr 0 MAXPATH s) (\<lambda>(r, s1). case r of
     None \<Rightarrow> Ok (ret (- 1), s1)
   | Some path \<Rightarrow> unlink_path path s1)"

section \<open>Creating\<close>

text \<open>What stands at the label \<open>fail\<close> of \<open>create\<close>.\<close>

definition create_fail :: "nat \<Rightarrow> nat \<Rightarrow> 'a fsst_scheme \<Rightarrow> (nat option \<times> 'a fsst_scheme) res" where
  "create_fail dp ip s = rbind (iupdate ip (upd_inode ip (\<lambda>x. x\<lparr>inlink := 0\<rparr>) s)) (\<lambda>s1.
     rbind (iunlockput ip s1) (\<lambda>s2. rbind (iunlockput dp s2) (\<lambda>s3. Ok (None, s3))))"

text \<open>The entries \<open>.\<close> and \<open>..\<close> of a new directory; the result says whether both were made.\<close>

definition create_dots :: "nat \<Rightarrow> nat \<Rightarrow> 'a fsst_scheme \<Rightarrow> (bool \<times> 'a fsst_scheme) res" where
  "create_dots dp ip s = rbind (dirlink ip DOT (inum (itable s ip)) s) (\<lambda>(r, s1).
     if r < 0 then Ok (False, s1)
     else rbind (dirlink ip DOTDOT (inum (itable s1 dp)) s1) (\<lambda>(r, s2). Ok (\<not> r < 0, s2)))"

definition create_new :: "nat \<Rightarrow> u8 list \<Rightarrow> u16 \<Rightarrow> u16 \<Rightarrow> u16 \<Rightarrow> 'a fsst_scheme \<Rightarrow> (nat option \<times> 'a fsst_scheme) res" where
  "create_new dp nm type mj mn s = rbind (ialloc (idev (itable s dp)) type s) (\<lambda>(r, s1). case r of
     None \<Rightarrow> rbind (iunlockput dp s1) (\<lambda>s2. Ok (None, s2))
   | Some ip \<Rightarrow> rbind (ilock ip s1) (\<lambda>s2.
       rbind (iupdate ip (upd_inode ip (\<lambda>x. x\<lparr>imajor := mj, iminor := mn, inlink := 1\<rparr>) s2)) (\<lambda>s3.
       rbind (if type = T_DIR then create_dots dp ip s3 else Ok (True, s3)) (\<lambda>(good, s4).
       if \<not> good then create_fail dp ip s4
       else rbind (dirlink dp nm (inum (itable s4 ip)) s4) (\<lambda>(r, s5).
         if r < 0 then create_fail dp ip s5
         else rbind (if type = T_DIR then iupdate dp (upd_inode dp (\<lambda>x. x\<lparr>inlink := inlink x + 1\<rparr>) s5) else Ok s5) (\<lambda>s6.
           rbind (iunlockput dp s6) (\<lambda>s7. Ok (Some ip, s7))))))))"

definition create :: "u8 list \<Rightarrow> u16 \<Rightarrow> u16 \<Rightarrow> u16 \<Rightarrow> 'a fsst_scheme \<Rightarrow> (nat option \<times> 'a fsst_scheme) res" where
  "create path type mj mn s = rbind (nameiparent path s) (\<lambda>(r, s1). case r of
     None \<Rightarrow> Ok (None, s1)
   | Some (dp, nm) \<Rightarrow> rbind (ilock dp s1) (\<lambda>s2.
       rbind (dirlookup dp nm s2) (\<lambda>(r, s3). case r of
         Some (ip, _) \<Rightarrow> rbind (iunlockput dp s3) (\<lambda>s4. rbind (ilock ip s4) (\<lambda>s5.
           if type = T_FILE \<and> (itype (itable s5 ip) = T_FILE \<or> itype (itable s5 ip) = T_DEVICE) then Ok (Some ip, s5)
           else rbind (iunlockput ip s5) (\<lambda>s6. Ok (None, s6))))
       | None \<Rightarrow> create_new dp nm type mj mn s3)))"

definition O_RDONLY :: u32 where "O_RDONLY = 0x000"
definition O_WRONLY :: u32 where "O_WRONLY = 0x001"
definition O_RDWR :: u32 where "O_RDWR = 0x002"
definition O_CREATE :: u32 where "O_CREATE = 0x200"
definition O_TRUNC :: u32 where "O_TRUNC = 0x400"

text \<open>The first half of \<open>sys_open\<close>: the locked inode, or nothing when the call has failed and the transaction ended.\<close>

definition open_inode :: "u8 list \<Rightarrow> u32 \<Rightarrow> 'a fsst_scheme \<Rightarrow> (nat option \<times> 'a fsst_scheme) res" where
  "open_inode path omode s =
     rbind (if omode AND O_CREATE \<noteq> 0
            then rbind (create path T_FILE 0 0 s) (\<lambda>(r, s1). case r of
              None \<Rightarrow> rbind (end_op s1) (\<lambda>s2. Ok (None, s2))
            | Some ip \<Rightarrow> Ok (Some ip, s1))
            else rbind (namei path s) (\<lambda>(r, s1). case r of
              None \<Rightarrow> rbind (end_op s1) (\<lambda>s2. Ok (None, s2))
            | Some ip \<Rightarrow> rbind (ilock ip s1) (\<lambda>s2.
                if itype (itable s2 ip) = T_DIR \<and> omode \<noteq> O_RDONLY
                then rbind (iunlockput ip s2) (\<lambda>s3. rbind (end_op s3) (\<lambda>s4. Ok (None, s4)))
                else Ok (Some ip, s2)))) (\<lambda>(r, s1). case r of
       None \<Rightarrow> Ok (None, s1)
     | Some ip \<Rightarrow>
         if itype (itable s1 ip) = T_DEVICE \<and>
            (sint (imajor (itable s1 ip)) < 0 \<or> sint (imajor (itable s1 ip)) \<ge> int NDEV)
         then rbind (iunlockput ip s1) (\<lambda>s2. rbind (end_op s2) (\<lambda>s3. Ok (None, s3)))
         else Ok (Some ip, s1))"

definition open_file :: "nat \<Rightarrow> nat \<Rightarrow> u32 \<Rightarrow> 'a filest_scheme \<Rightarrow> 'a filest_scheme" where
  "open_file f ip omode s =
     (let s1 = (if itype (itable s ip) = T_DEVICE
                then upd_file f (\<lambda>x. x\<lparr>ftype := FD_DEVICE, fmajor := imajor (itable s ip)\<rparr>) s
                else upd_file f (\<lambda>x. x\<lparr>ftype := FD_INODE, foff := 0\<rparr>) s)
      in upd_file f (\<lambda>x. x\<lparr>fip := ip, freadable := omode AND O_WRONLY = 0,
           fwritable := omode AND O_WRONLY \<noteq> 0 \<or> omode AND O_RDWR \<noteq> 0\<rparr>) s1)"

definition open_path :: "u8 list \<Rightarrow> u32 \<Rightarrow> 'a filest_scheme \<Rightarrow> (u64 \<times> 'a filest_scheme) res" where
  "open_path path omode s = rbind (begin_op s) (\<lambda>s1. rbind (open_inode path omode s1) (\<lambda>(r, s2). case r of
     None \<Rightarrow> Ok (ret (- 1), s2)
   | Some ip \<Rightarrow> rbind (filealloc s2) (\<lambda>(r, s3). case r of
       None \<Rightarrow> rbind (iunlockput ip s3) (\<lambda>s4. rbind (end_op s4) (\<lambda>s5. Ok (ret (- 1), s5)))
     | Some f \<Rightarrow> rbind (fdalloc f s3) (\<lambda>(r, s4). case r of
         None \<Rightarrow> rbind (fileclose f s4) (\<lambda>s5. rbind (iunlockput ip s5) (\<lambda>s6. rbind (end_op s6) (\<lambda>s7. Ok (ret (- 1), s7))))
       | Some fd \<Rightarrow>
           let s5 = open_file f ip omode s4 in
           rbind (if omode AND O_TRUNC \<noteq> 0 \<and> itype (itable s5 ip) = T_FILE then itrunc ip s5 else Ok s5) (\<lambda>s6.
           rbind (iunlock ip s6) (\<lambda>s7. rbind (end_op s7) (\<lambda>s8. Ok (of_nat fd, s8))))))))"

definition sys_open :: "'a filest_scheme \<Rightarrow> (u64 \<times> 'a filest_scheme) res" where
  "sys_open s = rbind (argint 1 s) (\<lambda>omode. rbind (argstr 0 MAXPATH s) (\<lambda>(r, s1). case r of
     None \<Rightarrow> Ok (ret (- 1), s1)
   | Some path \<Rightarrow> open_path path (word_of_int omode) s1))"

text \<open>The common body of \<open>sys_mkdir\<close> and \<open>sys_mknod\<close> behind \<open>begin_op\<close>.\<close>

definition make_node :: "u16 \<Rightarrow> u16 \<Rightarrow> u16 \<Rightarrow> 'a fsst_scheme \<Rightarrow> (u64 \<times> 'a fsst_scheme) res" where
  "make_node type mj mn s = rbind (argstr 0 MAXPATH s) (\<lambda>(r, s1).
     rbind (case r of None \<Rightarrow> Ok (None, s1) | Some path \<Rightarrow> create path type mj mn s1) (\<lambda>(r, s2). case r of
       None \<Rightarrow> rbind (end_op s2) (\<lambda>s3. Ok (ret (- 1), s3))
     | Some ip \<Rightarrow> rbind (iunlockput ip s2) (\<lambda>s3. rbind (end_op s3) (\<lambda>s4. Ok (0, s4)))))"

definition sys_mkdir :: "'a fsst_scheme \<Rightarrow> (u64 \<times> 'a fsst_scheme) res" where
  "sys_mkdir s = rbind (begin_op s) (make_node T_DIR 0 0)"

definition sys_mknod :: "'a fsst_scheme \<Rightarrow> (u64 \<times> 'a fsst_scheme) res" where
  "sys_mknod s = rbind (begin_op s) (\<lambda>s1. rbind (argint 1 s1) (\<lambda>mj. rbind (argint 2 s1) (\<lambda>mn.
     make_node T_DEVICE (word_of_int mj) (word_of_int mn) s1)))"

definition sys_chdir :: "'a fsst_scheme \<Rightarrow> (u64 \<times> 'a fsst_scheme) res" where
  "sys_chdir s = with_proc s (\<lambda>p. rbind (begin_op s) (\<lambda>s1. rbind (argstr 0 MAXPATH s1) (\<lambda>(r, s2).
     rbind (case r of None \<Rightarrow> Ok (None, s2) | Some path \<Rightarrow> namei path s2) (\<lambda>(r, s3). case r of
       None \<Rightarrow> rbind (end_op s3) (\<lambda>s4. Ok (ret (- 1), s4))
     | Some ip \<Rightarrow> rbind (ilock ip s3) (\<lambda>s4.
         if itype (itable s4 ip) \<noteq> T_DIR
         then rbind (iunlockput ip s4) (\<lambda>s5. rbind (end_op s5) (\<lambda>s6. Ok (ret (- 1), s6)))
         else rbind (iunlock ip s4) (\<lambda>s5.
           rbind (case cwd (procs s5 p) of None \<Rightarrow> Panic ''kerneltrap'' | Some d \<Rightarrow> iput d s5) (\<lambda>s6.
           rbind (end_op s6) (\<lambda>s7. Ok (0, upd_proc p (\<lambda>q. q\<lparr>cwd := Some ip\<rparr>) s7)))))))))"

section \<open>Exec and pipe\<close>

text \<open>The loop of \<open>sys_exec\<close>: it fetches the argument strings into pages of their own. The result is the strings, or
  nothing for a jump to \<open>bad\<close>, and the pages, which both exits free.\<close>

fun exec_args :: "u64 \<Rightarrow> nat \<Rightarrow> nat \<Rightarrow> u8 list list \<Rightarrow> u64 list \<Rightarrow> 'a ptable_scheme \<Rightarrow>
    (u8 list list option \<times> u64 list \<times> 'a ptable_scheme) res" where
  "exec_args uargv i 0 argv pages s = Ok (None, pages, s)"
| "exec_args uargv i (Suc left) argv pages s = rbind (fetchaddr (uargv + 8 * of_nat i) s) (\<lambda>(r, s1). case r of
     None \<Rightarrow> Ok (None, pages, s1)
   | Some uarg \<Rightarrow>
       if uarg = 0 then Ok (Some argv, pages, s1)
       else rbind (kalloc s1) (\<lambda>(pg, s2).
         if pg = 0 then Ok (None, pages, s2)
         else rbind (fetchstr uarg 4096 s2) (\<lambda>(r, s3). case r of
           None \<Rightarrow> Ok (None, pages @ [pg], s3)
         | Some a \<Rightarrow> exec_args uargv (i + 1) left (argv @ [a]) (pages @ [pg]) (s3\<lparr>mem := write_bytes (mem s3) pg (a @ [0])\<rparr>))))"

definition sys_exec :: "'a fsst_scheme \<Rightarrow> (u64 \<times> 'a fsst_scheme) res" where
  "sys_exec s = rbind (argaddr 1 s) (\<lambda>uargv. rbind (argstr 0 MAXPATH s) (\<lambda>(r, s1). case r of
     None \<Rightarrow> Ok (ret (- 1), s1)
   | Some path \<Rightarrow> rbind (exec_args uargv 0 MAXARG [] [] s1) (\<lambda>(r, pages, s2).
       rbind (case r of None \<Rightarrow> Ok (- 1, s2) | Some argv \<Rightarrow> kexec path argv s2) (\<lambda>(r, s3).
       rbind (rfold kfree pages s3) (\<lambda>s4. Ok (ret r, s4))))))"

text \<open>The clean-up of \<open>sys_pipe\<close> once the descriptors in \<open>fds\<close> have been taken.\<close>

definition pipe_undo :: "nat \<Rightarrow> nat list \<Rightarrow> nat \<Rightarrow> nat \<Rightarrow> 'a filest_scheme \<Rightarrow> (u64 \<times> 'a filest_scheme) res" where
  "pipe_undo p fds rfile wfile s =
     (let s1 = fold (\<lambda>fd. upd_proc p (\<lambda>q. q\<lparr>ofile := (ofile q)(fd := None)\<rparr>)) fds s in
      rbind (fileclose rfile s1) (\<lambda>s2. rbind (fileclose wfile s2) (\<lambda>s3. Ok (ret (- 1), s3))))"

definition sys_pipe :: "'a filest_scheme \<Rightarrow> (u64 \<times> 'a filest_scheme) res" where
  "sys_pipe s = with_proc s (\<lambda>p. rbind (argaddr 0 s) (\<lambda>fdarray. rbind (pipealloc s) (\<lambda>(r, s1). case r of
     None \<Rightarrow> Ok (ret (- 1), s1)
   | Some (rfile, wfile) \<Rightarrow> rbind (fdalloc rfile s1) (\<lambda>(r, s2). case r of
       None \<Rightarrow> pipe_undo p [] rfile wfile s2
     | Some fd0 \<Rightarrow> rbind (fdalloc wfile s2) (\<lambda>(r, s3). case r of
         None \<Rightarrow> pipe_undo p [fd0] rfile wfile s3
       | Some fd1 \<Rightarrow> rbind (copyout (pagetable (procs s3 p)) fdarray (le_bytes 4 (of_nat fd0 :: u32)) s3) (\<lambda>(r, s4).
           if r < 0 then pipe_undo p [fd0, fd1] rfile wfile s4
           else rbind (copyout (pagetable (procs s4 p)) (fdarray + 4) (le_bytes 4 (of_nat fd1 :: u32)) s4) (\<lambda>(r, s5).
             if r < 0 then pipe_undo p [fd0, fd1] rfile wfile s5 else Ok (0, s5))))))))"

end
