(* ===== verification/Virtio.thy ===== *)
theory Virtio
  imports Sysfile
begin

text \<open>
  The disk driver, \<^verbatim>\<open>kernel/virtio_disk.c\<close>. The descriptor table and the two rings are typed arrays; an address in a
  descriptor names the kernel object it points to. The device itself is not part of the kernel: \<open>dev\<close> gives
  the value a read of a register returns after a sequence of register writes, and what the device does to the used
  ring happens while the driver sleeps.
\<close>

definition NUM :: nat where "NUM = 8"
definition VRING_DESC_F_NEXT :: u16 where "VRING_DESC_F_NEXT = 1"
definition VRING_DESC_F_WRITE :: u16 where "VRING_DESC_F_WRITE = 2"
definition VIRTIO_BLK_T_IN :: u32 where "VIRTIO_BLK_T_IN = 0"
definition VIRTIO_BLK_T_OUT :: u32 where "VIRTIO_BLK_T_OUT = 1"

datatype dma = NoAddr | ReqAddr nat | DataAddr nat | StatusAddr nat

record virtq_desc =
  vaddr :: dma
  vlen :: u32
  vflags :: u16
  vnext :: u16

record virtio_blk_req =
  rq_type :: u32
  rq_reserved :: u32
  rq_sector :: u64

record vdisk = tickst +
  vdesc :: "nat \<Rightarrow> virtq_desc"
  avail_idx :: u16
  avail_ring :: "nat \<Rightarrow> u16"
  dev_used_idx :: u16
  used_ring :: "nat \<Rightarrow> u32"
  vfree :: "nat \<Rightarrow> bool"
  used_idx :: u16
  info_b :: "nat \<Rightarrow> nat option"
  info_status :: "nat \<Rightarrow> u8"
  vops :: "nat \<Rightarrow> virtio_blk_req"
  mmio :: "(nat \<times> u32) list"

definition free_virtq_desc :: virtq_desc where
  "free_virtq_desc = \<lparr>vaddr = NoAddr, vlen = 0, vflags = 0, vnext = 0\<rparr>"

section \<open>Initialisation\<close>

definition VIRTIO_MMIO_MAGIC_VALUE :: nat where "VIRTIO_MMIO_MAGIC_VALUE = 0x000"
definition VIRTIO_MMIO_VERSION :: nat where "VIRTIO_MMIO_VERSION = 0x004"
definition VIRTIO_MMIO_DEVICE_ID :: nat where "VIRTIO_MMIO_DEVICE_ID = 0x008"
definition VIRTIO_MMIO_VENDOR_ID :: nat where "VIRTIO_MMIO_VENDOR_ID = 0x00c"
definition VIRTIO_MMIO_DEVICE_FEATURES :: nat where "VIRTIO_MMIO_DEVICE_FEATURES = 0x010"
definition VIRTIO_MMIO_DRIVER_FEATURES :: nat where "VIRTIO_MMIO_DRIVER_FEATURES = 0x020"
definition VIRTIO_MMIO_QUEUE_SEL :: nat where "VIRTIO_MMIO_QUEUE_SEL = 0x030"
definition VIRTIO_MMIO_QUEUE_NUM_MAX :: nat where "VIRTIO_MMIO_QUEUE_NUM_MAX = 0x034"
definition VIRTIO_MMIO_QUEUE_NUM :: nat where "VIRTIO_MMIO_QUEUE_NUM = 0x038"
definition VIRTIO_MMIO_QUEUE_READY :: nat where "VIRTIO_MMIO_QUEUE_READY = 0x044"
definition VIRTIO_MMIO_QUEUE_NOTIFY :: nat where "VIRTIO_MMIO_QUEUE_NOTIFY = 0x050"
definition VIRTIO_MMIO_INTERRUPT_STATUS :: nat where "VIRTIO_MMIO_INTERRUPT_STATUS = 0x060"
definition VIRTIO_MMIO_INTERRUPT_ACK :: nat where "VIRTIO_MMIO_INTERRUPT_ACK = 0x064"
definition VIRTIO_MMIO_STATUS :: nat where "VIRTIO_MMIO_STATUS = 0x070"
definition VIRTIO_MMIO_QUEUE_DESC_LOW :: nat where "VIRTIO_MMIO_QUEUE_DESC_LOW = 0x080"
definition VIRTIO_MMIO_QUEUE_DESC_HIGH :: nat where "VIRTIO_MMIO_QUEUE_DESC_HIGH = 0x084"
definition VIRTIO_MMIO_DRIVER_DESC_LOW :: nat where "VIRTIO_MMIO_DRIVER_DESC_LOW = 0x090"
definition VIRTIO_MMIO_DRIVER_DESC_HIGH :: nat where "VIRTIO_MMIO_DRIVER_DESC_HIGH = 0x094"
definition VIRTIO_MMIO_DEVICE_DESC_LOW :: nat where "VIRTIO_MMIO_DEVICE_DESC_LOW = 0x0a0"
definition VIRTIO_MMIO_DEVICE_DESC_HIGH :: nat where "VIRTIO_MMIO_DEVICE_DESC_HIGH = 0x0a4"
definition VIRTIO_CONFIG_S_ACKNOWLEDGE :: u32 where "VIRTIO_CONFIG_S_ACKNOWLEDGE = 1"
definition VIRTIO_CONFIG_S_DRIVER :: u32 where "VIRTIO_CONFIG_S_DRIVER = 2"
definition VIRTIO_CONFIG_S_DRIVER_OK :: u32 where "VIRTIO_CONFIG_S_DRIVER_OK = 4"
definition VIRTIO_CONFIG_S_FEATURES_OK :: u32 where "VIRTIO_CONFIG_S_FEATURES_OK = 8"

text \<open>The bits of the features the driver turns down.\<close>

definition refused_features :: "nat list" where
  "refused_features = [5, 7, 11, 12, 27, 29, 28]"

definition wreg :: "nat \<Rightarrow> u32 \<Rightarrow> 'a vdisk_scheme \<Rightarrow> 'a vdisk_scheme" where
  "wreg r v s = s\<lparr>mmio := mmio s @ [(r, v)]\<rparr>"

definition rreg :: "((nat \<times> u32) list \<Rightarrow> nat \<Rightarrow> u32) \<Rightarrow> nat \<Rightarrow> 'a vdisk_scheme \<Rightarrow> u32" where
  "rreg dev r s = dev (mmio s) r"

text \<open>The queue memory: three pages, zeroed, whose addresses the device gets.\<close>

definition virtio_queue :: "'a vdisk_scheme \<Rightarrow> 'a vdisk_scheme res" where
  "virtio_queue s = rbind (kalloc s) (\<lambda>(d, s1). rbind (kalloc s1) (\<lambda>(a, s2). rbind (kalloc s2) (\<lambda>(u, s3).
     if d = 0 \<or> a = 0 \<or> u = 0 then Panic ''virtio disk kalloc''
     else
       let s4 = s3\<lparr>mem := memset (memset (memset (mem s3) d 0 4096) a 0 4096) u 0 4096,
                  vdesc := (\<lambda>_. free_virtq_desc), avail_idx := 0, avail_ring := (\<lambda>_. 0), dev_used_idx := 0,
                  used_ring := (\<lambda>_. 0)\<rparr>;
           hi = (\<lambda>x :: u64. ucast (drop_bit 32 x) :: u32); lo = (\<lambda>x :: u64. ucast x :: u32)
       in Ok (fold (\<lambda>(r, v). wreg r v)
            [(VIRTIO_MMIO_QUEUE_NUM, of_nat NUM), (VIRTIO_MMIO_QUEUE_DESC_LOW, lo d), (VIRTIO_MMIO_QUEUE_DESC_HIGH, hi d),
             (VIRTIO_MMIO_DRIVER_DESC_LOW, lo a), (VIRTIO_MMIO_DRIVER_DESC_HIGH, hi a),
             (VIRTIO_MMIO_DEVICE_DESC_LOW, lo u), (VIRTIO_MMIO_DEVICE_DESC_HIGH, hi u), (VIRTIO_MMIO_QUEUE_READY, 1)] s4))))"

definition virtio_disk_init :: "((nat \<times> u32) list \<Rightarrow> nat \<Rightarrow> u32) \<Rightarrow> 'a vdisk_scheme \<Rightarrow> 'a vdisk_scheme res" where
  "virtio_disk_init dev s0 =
     (let s = s0\<lparr>mach := initlock VdiskLock ''virtio_disk'' (mach s0)\<rparr> in
      if rreg dev VIRTIO_MMIO_MAGIC_VALUE s \<noteq> 0x74726976 \<or> rreg dev VIRTIO_MMIO_VERSION s \<noteq> 2 \<or>
         rreg dev VIRTIO_MMIO_DEVICE_ID s \<noteq> 2 \<or> rreg dev VIRTIO_MMIO_VENDOR_ID s \<noteq> 0x554d4551
      then Panic ''could not find virtio disk''
      else
        let st1 = VIRTIO_CONFIG_S_ACKNOWLEDGE; st2 = st1 OR VIRTIO_CONFIG_S_DRIVER;
            s1 = wreg VIRTIO_MMIO_STATUS st2 (wreg VIRTIO_MMIO_STATUS st1 (wreg VIRTIO_MMIO_STATUS 0 s));
            features = fold (\<lambda>b f. f AND NOT (push_bit b 1)) refused_features (rreg dev VIRTIO_MMIO_DEVICE_FEATURES s1);
            s2 = wreg VIRTIO_MMIO_STATUS (st2 OR VIRTIO_CONFIG_S_FEATURES_OK) (wreg VIRTIO_MMIO_DRIVER_FEATURES features s1);
            status = rreg dev VIRTIO_MMIO_STATUS s2
        in if status AND VIRTIO_CONFIG_S_FEATURES_OK = 0 then Panic ''virtio disk FEATURES_OK unset''
           else
             let s3 = wreg VIRTIO_MMIO_QUEUE_SEL 0 s2; mx = rreg dev VIRTIO_MMIO_QUEUE_NUM_MAX s3 in
             if rreg dev VIRTIO_MMIO_QUEUE_READY s3 \<noteq> 0 then Panic ''virtio disk should not be ready''
             else if mx = 0 then Panic ''virtio disk has no queue 0''
             else if mx < of_nat NUM then Panic ''virtio disk max queue too short''
             else rbind (virtio_queue s3) (\<lambda>s4.
               Ok (wreg VIRTIO_MMIO_STATUS (status OR VIRTIO_CONFIG_S_DRIVER_OK)
                    (s4\<lparr>vfree := (\<lambda>i. i < NUM \<or> vfree s4 i)\<rparr>))))"

section \<open>Descriptors\<close>

definition alloc_desc :: "'a vdisk_scheme \<Rightarrow> nat option \<times> 'a vdisk_scheme" where
  "alloc_desc s = (case List.find (vfree s) [0..<NUM] of
     None \<Rightarrow> (None, s)
   | Some i \<Rightarrow> (Some i, s\<lparr>vfree := (vfree s)(i := False)\<rparr>))"

definition free_desc :: "nat \<Rightarrow> 'a vdisk_scheme \<Rightarrow> 'a vdisk_scheme res" where
  "free_desc i s =
     (if i \<ge> NUM then Panic ''free_desc 1''
      else if vfree s i then Panic ''free_desc 2''
      else wakeup ChDiskFree (s\<lparr>vdesc := (vdesc s)(i := free_virtq_desc), vfree := (vfree s)(i := True)\<rparr>))"

text \<open>The loop of \<open>free_chain\<close>. Each round frees a descriptor and \<open>free_desc\<close> panics on one that is free, so more than
  \<open>NUM\<close> rounds cannot happen and the bound \<open>NUM + 1\<close> does not cut the loop short.\<close>

fun free_chain_loop :: "nat \<Rightarrow> nat \<Rightarrow> 'a vdisk_scheme \<Rightarrow> 'a vdisk_scheme res" where
  "free_chain_loop 0 i s = Blocked"
| "free_chain_loop (Suc n) i s =
     (let flag = vflags (vdesc s i); nxt = unat (vnext (vdesc s i)) in
      rbind (free_desc i s) (\<lambda>s1. if flag AND VRING_DESC_F_NEXT \<noteq> 0 then free_chain_loop n nxt s1 else Ok s1))"

definition free_chain :: "nat \<Rightarrow> 'a vdisk_scheme \<Rightarrow> 'a vdisk_scheme res" where
  "free_chain i s = free_chain_loop (NUM + 1) i s"

fun alloc_descs :: "nat \<Rightarrow> nat list \<Rightarrow> 'a vdisk_scheme \<Rightarrow> (nat list option \<times> 'a vdisk_scheme) res" where
  "alloc_descs 0 ix s = Ok (Some ix, s)"
| "alloc_descs (Suc n) ix s = (case alloc_desc s of
     (Some i, s1) \<Rightarrow> alloc_descs n (ix @ [i]) s1
   | (None, s1) \<Rightarrow> rbind (rfold free_desc ix s1) (\<lambda>s2. Ok (None, s2)))"

definition alloc3_desc :: "'a vdisk_scheme \<Rightarrow> (nat list option \<times> 'a vdisk_scheme) res" where
  "alloc3_desc s = alloc_descs 3 [] s"

section \<open>Requests\<close>

text \<open>The part of \<open>virtio_disk_rw\<close> that formats the three descriptors and hands the request to the device.\<close>

definition virtio_format :: "nat \<Rightarrow> bool \<Rightarrow> nat \<Rightarrow> nat \<Rightarrow> nat \<Rightarrow> 'a vdisk_scheme \<Rightarrow> 'a vdisk_scheme" where
  "virtio_format b write i0 i1 i2 s =
     s\<lparr>vops := (vops s)(i0 := \<lparr>rq_type = (if write then VIRTIO_BLK_T_OUT else VIRTIO_BLK_T_IN), rq_reserved = 0,
          rq_sector = ucast (blockno (bufs s b) * of_nat (BSIZE div 512))\<rparr>),
       vdesc := (vdesc s)
         (i0 := \<lparr>vaddr = ReqAddr i0, vlen = 16, vflags = VRING_DESC_F_NEXT, vnext = of_nat i1\<rparr>,
          i1 := \<lparr>vaddr = DataAddr b, vlen = of_nat BSIZE,
             vflags = (if write then 0 else VRING_DESC_F_WRITE) OR VRING_DESC_F_NEXT, vnext = of_nat i2\<rparr>,
          i2 := \<lparr>vaddr = StatusAddr i0, vlen = 1, vflags = VRING_DESC_F_WRITE, vnext = 0\<rparr>),
       info_status := (info_status s)(i0 := 0xff)\<rparr>"

definition virtio_submit :: "nat \<Rightarrow> nat \<Rightarrow> 'a vdisk_scheme \<Rightarrow> 'a vdisk_scheme" where
  "virtio_submit b i0 s =
     (let s1 = upd_buf b (\<lambda>x. x\<lparr>bdisk := True\<rparr>) s;
          s2 = s1\<lparr>info_b := (info_b s1)(i0 := Some b),
                  avail_ring := (avail_ring s1)(unat (avail_idx s1) mod NUM := of_nat i0),
                  avail_idx := avail_idx s1 + 1\<rparr>
      in wreg VIRTIO_MMIO_QUEUE_NOTIFY 0 s2)"

fun rw_alloc :: "'a vdisk_scheme env \<Rightarrow> 'a vdisk_scheme \<Rightarrow> (nat list \<times> 'a vdisk_scheme env \<times> 'a vdisk_scheme) res" where
  "rw_alloc env s = rbind (alloc3_desc s) (\<lambda>(r, s1). case r of
     Some ix \<Rightarrow> Ok (ix, env, s1)
   | None \<Rightarrow> (case env of [] \<Rightarrow> Blocked | e # es \<Rightarrow> rbind (sleep e ChDiskFree VdiskLock s1) (rw_alloc es)))"

fun rw_wait :: "'a vdisk_scheme env \<Rightarrow> nat \<Rightarrow> 'a vdisk_scheme \<Rightarrow> ('a vdisk_scheme env \<times> 'a vdisk_scheme) res" where
  "rw_wait env b s =
     (if bdisk (bufs s b)
      then (case env of [] \<Rightarrow> Blocked | e # es \<Rightarrow> rbind (sleep e (ChBuf b) VdiskLock s) (rw_wait es b))
      else Ok (env, s))"

declare rw_alloc.simps [simp del] rw_wait.simps [simp del]

definition virtio_disk_rw :: "'a vdisk_scheme env \<Rightarrow> nat \<Rightarrow> bool \<Rightarrow> 'a vdisk_scheme \<Rightarrow> ('a vdisk_scheme env \<times> 'a vdisk_scheme) res" where
  "virtio_disk_rw env b write s = rbind (kacquire VdiskLock s) (\<lambda>s1.
     rbind (rw_alloc env s1) (\<lambda>(ix, env1, s2).
     let i0 = ix ! 0; s3 = virtio_submit b i0 (virtio_format b write i0 (ix ! 1) (ix ! 2) s2) in
     rbind (rw_wait env1 b s3) (\<lambda>(env2, s4).
     rbind (free_chain i0 (s4\<lparr>info_b := (info_b s4)(i0 := None)\<rparr>)) (\<lambda>s5.
     rbind (krelease VdiskLock s5) (\<lambda>s6. Ok (env2, s6))))))"

text \<open>The body of the loop of the interrupt handler. The device's index does not change while the handler runs, so
  the loop makes as many rounds as the device is ahead.\<close>

definition virtio_intr1 :: "'a vdisk_scheme \<Rightarrow> 'a vdisk_scheme res" where
  "virtio_intr1 s =
     (let i = unat (used_ring s (unat (used_idx s) mod NUM)) in
      if info_status s i \<noteq> 0 then Panic ''virtio_disk_intr status''
      else case info_b s i of
        None \<Rightarrow> Panic ''kerneltrap''
      | Some b \<Rightarrow> rbind (wakeup (ChBuf b) (upd_buf b (\<lambda>x. x\<lparr>bdisk := False\<rparr>) s)) (\<lambda>s1.
          Ok (s1\<lparr>used_idx := used_idx s1 + 1\<rparr>)))"

fun virtio_intr_loop :: "nat \<Rightarrow> 'a vdisk_scheme \<Rightarrow> 'a vdisk_scheme res" where
  "virtio_intr_loop 0 s = Ok s"
| "virtio_intr_loop (Suc n) s = rbind (virtio_intr1 s) (virtio_intr_loop n)"

definition virtio_disk_intr :: "((nat \<times> u32) list \<Rightarrow> nat \<Rightarrow> u32) \<Rightarrow> 'a vdisk_scheme \<Rightarrow> 'a vdisk_scheme res" where
  "virtio_disk_intr dev s = rbind (kacquire VdiskLock s) (\<lambda>s1.
     let s2 = wreg VIRTIO_MMIO_INTERRUPT_ACK (rreg dev VIRTIO_MMIO_INTERRUPT_STATUS s1 AND 3) s1 in
     rbind (virtio_intr_loop (unat (dev_used_idx s2 - used_idx s2)) s2) (krelease VdiskLock))"

section \<open>The life of a request's descriptors\<close>

definition descs :: "(nat \<Rightarrow> bool) \<Rightarrow> nat set" where
  "descs f = {i. i < NUM \<and> f i}"

lemma finite_descs [simp]: "finite (descs f)"
  by (simp add: descs_def)

lemma alloc_desc_ok:
  assumes "descs (vfree s) \<noteq> {}"
  shows "\<exists>i. alloc_desc s = (Some i, s\<lparr>vfree := (vfree s)(i := False)\<rparr>) \<and> i < NUM \<and> vfree s i"
proof -
  obtain j where j: "j < NUM" "vfree s j" using assms by (auto simp: descs_def)
  show ?thesis
  proof (cases "List.find (vfree s) [0..<NUM]")
    case None
    then show ?thesis using j unfolding find_None_iff by simp
  next
    case (Some i)
    then obtain k where "k < length [0..<NUM]" "i = [0..<NUM] ! k" "vfree s i" unfolding find_Some_iff by blast
    then have "i < NUM" "vfree s i" by simp_all
    then show ?thesis using Some by (intro exI [of _ i]) (simp add: alloc_desc_def)
  qed
qed

lemma alloc_descs_ok:
  assumes "n \<le> card (descs (vfree s))"
  shows "\<exists>ix. alloc_descs n acc s = Ok (Some (acc @ ix), s\<lparr>vfree := (\<lambda>i. vfree s i \<and> i \<notin> set ix)\<rparr>) \<and>
    length ix = n \<and> distinct ix \<and> (\<forall>i \<in> set ix. i < NUM \<and> vfree s i)"
  using assms
proof (induction n arbitrary: acc s)
  case 0
  show ?case by (rule exI [of _ "[]"]) simp
next
  case (Suc n)
  then have "descs (vfree s) \<noteq> {}" by auto
  then obtain i where i: "alloc_desc s = (Some i, s\<lparr>vfree := (vfree s)(i := False)\<rparr>)" "i < NUM" "vfree s i"
    using alloc_desc_ok by blast
  let ?s = "s\<lparr>vfree := (vfree s)(i := False)\<rparr>"
  have "descs (vfree ?s) = descs (vfree s) - {i}" by (auto simp: descs_def)
  then have "n \<le> card (descs (vfree ?s))" using Suc.prems i(2,3) by (simp add: card_Diff_singleton descs_def)
  from Suc.IH [OF this, of "acc @ [i]"] obtain ix where
    ix: "alloc_descs n (acc @ [i]) ?s = Ok (Some ((acc @ [i]) @ ix), ?s\<lparr>vfree := (\<lambda>j. vfree ?s j \<and> j \<notin> set ix)\<rparr>)"
      "length ix = n" "distinct ix" "\<forall>j \<in> set ix. j < NUM \<and> vfree ?s j" by blast
  have "?s\<lparr>vfree := (\<lambda>j. vfree ?s j \<and> j \<notin> set ix)\<rparr> = s\<lparr>vfree := (\<lambda>j. vfree s j \<and> j \<notin> set (i # ix))\<rparr>"
    by (simp add: fun_eq_iff)
  then have "alloc_descs (Suc n) acc s = Ok (Some (acc @ i # ix), s\<lparr>vfree := (\<lambda>j. vfree s j \<and> j \<notin> set (i # ix))\<rparr>)"
    using i(1) ix(1) by simp
  moreover have "i \<notin> set ix" "\<forall>j \<in> set (i # ix). j < NUM \<and> vfree s j"
    using ix(4) i(2,3) by (auto split: if_splits)
  ultimately show ?case using ix(2,3) by (intro exI [of _ "i # ix"]) simp
qed

lemma free_desc_ok:
  assumes "i < NUM" "\<not> vfree s i" "proc_locks_ok s"
  shows "\<exists>s1. free_desc i s = Ok s1 \<and> vfree s1 = (vfree s)(i := True) \<and> vdesc s1 = (vdesc s)(i := free_virtq_desc) \<and> proc_locks_ok s1"
  using assms wakeup_ok [of "s\<lparr>vdesc := (vdesc s)(i := free_virtq_desc), vfree := (vfree s)(i := True)\<rparr>" ChDiskFree]
  by (simp add: free_desc_def proc_locks_ok_def)

text \<open>C36. Freeing a chain of descriptors ends, whatever the descriptors hold: \<open>free_chain\<close> returns or panics, also
  when the \<open>next\<close> fields form a cycle. So the bound of the loop in the model never cuts it short.\<close>

theorem free_chain_ends:
  assumes "proc_locks_ok s"
  shows "(\<exists>s'. free_chain i s = Ok s') \<or> (\<exists>msg. free_chain i s = Panic msg)"
proof -
  have "free_chain_loop n i s \<noteq> Blocked" if "card (descs (\<lambda>i. \<not> vfree s i)) < n" "proc_locks_ok s" for n
    using that
  proof (induction n arbitrary: i s)
    case (Suc n)
    show ?case
    proof (cases "i < NUM \<and> \<not> vfree s i")
      case True
      then obtain s1 where s1: "free_desc i s = Ok s1" "vfree s1 = (vfree s)(i := True)" "proc_locks_ok s1"
        using free_desc_ok [of i s] Suc.prems(2) by blast
      have "descs (\<lambda>j. \<not> vfree s1 j) = descs (\<lambda>j. \<not> vfree s j) - {i}" "i \<in> descs (\<lambda>j. \<not> vfree s j)"
        using True by (auto simp: descs_def s1(2))
      then have "card (descs (\<lambda>j. \<not> vfree s1 j)) < n"
        using Suc.prems(1) card_Diff1_less [OF finite_descs, of i "\<lambda>j. \<not> vfree s j"] by (simp only:) simp
      then show ?thesis using Suc.IH [OF _ s1(3)] s1(1) by (simp add: Let_def)
    next
      case False
      then show ?thesis by (auto simp: free_desc_def Let_def)
    qed
  qed simp
  moreover have "card (descs (\<lambda>i. \<not> vfree s i)) < NUM + 1"
  proof -
    have "card (descs (\<lambda>i. \<not> vfree s i)) \<le> card {..<NUM}" by (rule card_mono) (auto simp: descs_def)
    then show ?thesis by simp
  qed
  ultimately have "free_chain i s \<noteq> Blocked" using assms unfolding free_chain_def by blast
  then show ?thesis by (cases "free_chain i s") blast+
qed

lemma free_chain_step:
  assumes "free_desc i s = Ok s1" "vflags (vdesc s i) AND VRING_DESC_F_NEXT \<noteq> 0" "unat (vnext (vdesc s i)) = j"
  shows "free_chain_loop (Suc n) i s = free_chain_loop n j s1"
  using assms by (simp add: Let_def)

lemma free_chain_last:
  assumes "free_desc i s = Ok s1" "vflags (vdesc s i) AND VRING_DESC_F_NEXT = 0"
  shows "free_chain_loop (Suc n) i s = Ok s1"
  using assms by (simp add: Let_def)

text \<open>C10. A request takes three different free descriptors, and the chain that \<open>virtio_disk_rw\<close> formats in them leads
  \<open>free_chain\<close> through exactly these three: afterwards the same descriptors are free as before the request.\<close>

theorem virtio_request_chain:
  assumes "3 \<le> card (descs (vfree s))" "proc_locks_ok s"
  shows "\<exists>i0 i1 i2 s1 s2. alloc3_desc s = Ok (Some [i0, i1, i2], s1) \<and> distinct [i0, i1, i2] \<and>
    (\<forall>i \<in> {i0, i1, i2}. i < NUM \<and> vfree s i \<and> \<not> vfree s1 i) \<and>
    free_chain i0 (virtio_submit b i0 (virtio_format b wr i0 i1 i2 s1)) = Ok s2 \<and> vfree s2 = vfree s"
proof -
  obtain ix where ix: "alloc3_desc s = Ok (Some ix, s\<lparr>vfree := (\<lambda>i. vfree s i \<and> i \<notin> set ix)\<rparr>)" "length ix = 3" "distinct ix"
    "\<forall>i \<in> set ix. i < NUM \<and> vfree s i" using alloc_descs_ok [OF assms(1), of "[]"] by (auto simp: alloc3_desc_def)
  obtain i0 i1 i2 where e: "ix = [i0, i1, i2]" using ix(2) by (auto simp: numeral_3_eq_3 length_Suc_conv)
  let ?s1 = "s\<lparr>vfree := (\<lambda>i. vfree s i \<and> i \<notin> set ix)\<rparr>" and ?t = "\<lambda>s. virtio_submit b i0 (virtio_format b wr i0 i1 i2 s)"
  have d: "i0 \<noteq> i1" "i0 \<noteq> i2" "i1 \<noteq> i2" "i0 < NUM" "i1 < NUM" "i2 < NUM" "vfree s i0" "vfree s i1" "vfree s i2"
    using ix(3,4) e by auto
  have u: "unat (of_nat i :: u16) = i" if "i < NUM" for i using that by (simp add: unat_of_nat NUM_def)
  have t: "vfree (?t ?s1) = vfree ?s1" "vdesc (?t ?s1) = vdesc (virtio_format b wr i0 i1 i2 ?s1)" "proc_locks_ok (?t ?s1)"
    using assms(2) by (simp_all add: virtio_submit_def virtio_format_def Let_def wreg_def upd_buf_def proc_locks_ok_def)
  obtain t1 where t1: "free_desc i0 (?t ?s1) = Ok t1" "vfree t1 = (vfree ?s1)(i0 := True)"
    "vdesc t1 = (vdesc (virtio_format b wr i0 i1 i2 ?s1))(i0 := free_virtq_desc)" "proc_locks_ok t1"
    using free_desc_ok [OF d(4) _ t(3)] t(1,2) e by auto
  obtain t2 where t2: "free_desc i1 t1 = Ok t2" "vfree t2 = (vfree t1)(i1 := True)"
    "vdesc t2 = (vdesc t1)(i1 := free_virtq_desc)" "proc_locks_ok t2"
    using free_desc_ok [OF d(5) _ t1(4)] t1(2) d e by auto
  obtain t3 where t3: "free_desc i2 t2 = Ok t3" "vfree t3 = (vfree t2)(i2 := True)"
    using free_desc_ok [OF d(6) _ t2(4)] t2(2) t1(2) d e by auto
  note fmt = virtio_format_def VRING_DESC_F_NEXT_def VRING_DESC_F_WRITE_def
  have c0: "vflags (vdesc (?t ?s1) i0) AND VRING_DESC_F_NEXT \<noteq> 0" "unat (vnext (vdesc (?t ?s1) i0)) = i1"
    unfolding t(2) using d u by (simp_all add: fmt)
  have c1: "vflags (vdesc t1 i1) AND VRING_DESC_F_NEXT \<noteq> 0" "unat (vnext (vdesc t1 i1)) = i2"
    unfolding t1(3) using d u by (simp_all add: fmt)
  have c2: "vflags (vdesc t2 i2) AND VRING_DESC_F_NEXT = 0" unfolding t2(3) t1(3) using d by (simp add: fmt)
  have "free_chain i0 (?t ?s1) = free_chain_loop (Suc (Suc (Suc 6))) i0 (?t ?s1)" by (simp add: free_chain_def NUM_def)
  also have "\<dots> = Ok t3"
    using free_chain_step [OF t1(1) c0] free_chain_step [OF t2(1) c1] free_chain_last [OF t3(1) c2] by (simp only:)
  finally have "free_chain i0 (?t ?s1) = Ok t3" .
  moreover have "vfree t3 = vfree s" using t3(2) t2(2) t1(2) d e by (simp add: fun_eq_iff)
  ultimately show ?thesis using ix(1) d e by (intro exI [of _ i0] exI [of _ i1] exI [of _ i2] exI [of _ ?s1] exI [of _ t3]) simp
qed

definition vdisk_ex :: vdisk where
  "vdisk_ex = tickst.extend (filest.extend pipe_ex \<lparr>ticks = 0\<rparr>)
     \<lparr>vdesc = (\<lambda>_. free_virtq_desc), avail_idx = 0, avail_ring = (\<lambda>_. 0), dev_used_idx = 0, used_ring = (\<lambda>_. 0),
      vfree = (\<lambda>i. i < NUM \<and> i \<noteq> 1), used_idx = 0, info_b = (\<lambda>_. None), info_status = (\<lambda>_. 0),
      vops = (\<lambda>_. \<lparr>rq_type = 0, rq_reserved = 0, rq_sector = 0\<rparr>), mmio = []\<rparr>"

lemma vdisk_ex_simps: "vfree vdisk_ex = (\<lambda>i. i < NUM \<and> i \<noteq> 1)" "proc_locks_ok vdisk_ex"
  by (simp_all add: vdisk_ex_def tickst.defs filest.defs proc_locks_ok_def mach_run_ok)

theorem free_chain_ends_witness:
  "(\<exists>s'. free_chain 1 vdisk_ex = Ok s') \<or> (\<exists>msg. free_chain 1 vdisk_ex = Panic msg)"
  by (rule free_chain_ends [OF vdisk_ex_simps(2)])

theorem virtio_request_chain_witness:
  "\<exists>i0 i1 i2 s1 s2. alloc3_desc vdisk_ex = Ok (Some [i0, i1, i2], s1) \<and> distinct [i0, i1, i2] \<and>
    free_chain i0 (virtio_submit 0 i0 (virtio_format 0 True i0 i1 i2 s1)) = Ok s2 \<and> vfree s2 = (\<lambda>i. i < NUM \<and> i \<noteq> 1)"
proof -
  have "descs (vfree vdisk_ex) = {0, 2, 3, 4, 5, 6, 7}" by (auto simp: descs_def vdisk_ex_simps NUM_def)
  then show ?thesis using virtio_request_chain [of vdisk_ex 0 True] vdisk_ex_simps by fastforce
qed

end
