(* ===== verification/Trap.thy ===== *)
theory Trap
  imports Virtio
begin

text \<open>
  Traps, interrupts and the dispatch of system calls: \<^verbatim>\<open>kernel/trap.c\<close>, \<^verbatim>\<open>kernel/plic.c\<close>, \<open>syscall\<close> of
  \<^verbatim>\<open>kernel/syscall.c\<close> and \<open>forkret\<close> of \<^verbatim>\<open>kernel/proc.c\<close>. The supervisor registers of a hart are a record. The code
  in \<^verbatim>\<open>trampoline.S\<close> and \<^verbatim>\<open>kernelvec.S\<close> is assembly; the addresses of its entry points are parameters of the state.
\<close>

record csr =
  stvec :: u64
  sepc :: u64
  scause :: u64
  stval :: u64
  spp :: bool
  spie :: bool
  stimecmp :: u64

record trapst = vdisk +
  csrs :: "nat \<Rightarrow> csr"
  mtime :: u64
  plic_in :: "u32 list"
  plic_out :: "(u64 \<times> u32) list"
  forkret_first :: bool
  kernelvec_addr :: u64
  uservec_addr :: u64
  userret_addr :: u64
  usertrap_addr :: u64

definition my_csr :: "'a trapst_scheme \<Rightarrow> csr" where
  "my_csr s = csrs s (cpuid (mach s))"

definition upd_csr :: "(csr \<Rightarrow> csr) \<Rightarrow> 'a trapst_scheme \<Rightarrow> 'a trapst_scheme" where
  "upd_csr f s = s\<lparr>csrs := (csrs s)(cpuid (mach s) := f (my_csr s))\<rparr>"

definition intr_off_s :: "'a trapst_scheme \<Rightarrow> 'a trapst_scheme" where
  "intr_off_s s = s\<lparr>mach := intr_off (mach s)\<rparr>"

section \<open>The interrupt controller\<close>

definition plic_write :: "u64 \<Rightarrow> u32 \<Rightarrow> 'a trapst_scheme \<Rightarrow> 'a trapst_scheme" where
  "plic_write a v s = s\<lparr>plic_out := plic_out s @ [(a, v)]\<rparr>"

definition plicinit :: "'a trapst_scheme \<Rightarrow> 'a trapst_scheme" where
  "plicinit s = plic_write (PLIC + word_of_int VIRTIO0_IRQ * 4) 1 (plic_write (PLIC + word_of_int UART0_IRQ * 4) 1 s)"

definition plicinithart :: "'a trapst_scheme \<Rightarrow> 'a trapst_scheme" where
  "plicinithart s =
     (let hart = cpuid (mach s) in
      plic_write (PLIC_SPRIORITY hart) 0
        (plic_write (PLIC_SENABLE hart) (push_bit (nat UART0_IRQ) 1 OR push_bit (nat VIRTIO0_IRQ) 1) s))"

text \<open>\<open>plic_in\<close> is what the reads of the claim register return, in order; 0 when no interrupt is pending.\<close>

definition plic_claim :: "'a trapst_scheme \<Rightarrow> int \<times> 'a trapst_scheme" where
  "plic_claim s = (case plic_in s of [] \<Rightarrow> (0, s) | irq # irqs \<Rightarrow> (sint irq, s\<lparr>plic_in := irqs\<rparr>))"

definition plic_complete :: "int \<Rightarrow> 'a trapst_scheme \<Rightarrow> 'a trapst_scheme" where
  "plic_complete irq s = plic_write (PLIC_SCLAIM (cpuid (mach s))) (word_of_int irq) s"

section \<open>System calls\<close>

text \<open>Whether a system call returns to the process or has ended it.\<close>

datatype flow = Returns u64 | Exits

type_synonym 's handler = "'s env \<Rightarrow> 's \<Rightarrow> (flow \<times> 's env \<times> 's) res"

definition plain :: "('s \<Rightarrow> (u64 \<times> 's) res) \<Rightarrow> 's handler" where
  "plain h env s = rbind (h s) (\<lambda>(v, s1). Ok (Returns v, env, s1))"

definition waiting :: "('s env \<Rightarrow> 's \<Rightarrow> (u64 \<times> 's env \<times> 's) res) \<Rightarrow> 's handler" where
  "waiting h env s = rbind (h env s) (\<lambda>(v, env1, s1). Ok (Returns v, env1, s1))"

definition syscalls :: "('a tickst_scheme) handler list" where
  "syscalls =
     [plain sys_fork, (\<lambda>env s. rbind (sys_exit s) (\<lambda>s1. Ok (Exits, env, s1))), waiting sys_wait, plain sys_pipe,
      waiting sys_read, plain sys_kill, plain sys_exec, plain sys_fstat, plain sys_chdir, plain sys_dup,
      plain sys_getpid, plain sys_sbrk, waiting sys_pause, plain sys_uptime, plain sys_open, waiting sys_write,
      plain sys_mknod, plain sys_unlink, plain sys_link, plain sys_mkdir, plain sys_close]"

text \<open>The number of entries of the array \<open>syscalls\<close>; entry 0 is empty.\<close>

definition NELEM_syscalls :: int where "NELEM_syscalls = 22"

lemma length_syscalls: "int (length syscalls) + 1 = NELEM_syscalls"
  by (simp add: syscalls_def NELEM_syscalls_def)

definition syscall :: "'a tickst_scheme env \<Rightarrow> 'a tickst_scheme \<Rightarrow> (bool \<times> 'a tickst_scheme env \<times> 'a tickst_scheme) res" where
  "syscall env s = with_proc s (\<lambda>p.
     let num = sint (ucast (tf_get TF_A7 p s) :: u32) in
     if 0 < num \<and> num < NELEM_syscalls
     then rbind ((syscalls ! (nat num - 1)) env s) (\<lambda>(r, env1, s1). case r of
       Returns v \<Rightarrow> Ok (True, env1, tf_set TF_A0 v p s1)
     | Exits \<Rightarrow> Ok (False, env1, s1))
     else rbind (printf (ascii ''%d %s: unknown sys call %d'' @ [10])
                  [VInt (word_of_int (pid (procs s p))), VStr (Some (pname (procs s p))), VInt (word_of_int num)] s) (\<lambda>s1.
       Ok (True, env, tf_set TF_A0 (ret (- 1)) p s1)))"

section \<open>Interrupts\<close>

definition trapinit :: "'a trapst_scheme \<Rightarrow> 'a trapst_scheme" where
  "trapinit s = s\<lparr>mach := initlock TicksLock ''time'' (mach s)\<rparr>"

definition trapinithart :: "'a trapst_scheme \<Rightarrow> 'a trapst_scheme" where
  "trapinithart s = upd_csr (\<lambda>c. c\<lparr>stvec := kernelvec_addr s\<rparr>) s"

definition clockintr :: "'a trapst_scheme \<Rightarrow> 'a trapst_scheme res" where
  "clockintr s =
     rbind (if cpuid (mach s) = 0
            then rbind (kacquire TicksLock s) (\<lambda>s1.
              rbind (wakeup ChTicks (s1\<lparr>ticks := ticks s1 + 1\<rparr>)) (krelease TicksLock))
            else Ok s) (\<lambda>s2.
     Ok (upd_csr (\<lambda>c. c\<lparr>stimecmp := mtime s2 + 1000000\<rparr>) s2))"

definition devintr :: "((nat \<times> u32) list \<Rightarrow> nat \<Rightarrow> u32) \<Rightarrow> 'a trapst_scheme \<Rightarrow> (int \<times> 'a trapst_scheme) res" where
  "devintr dev s =
     (if scause (my_csr s) = 0x8000000000000009
      then
        let (irq, s1) = plic_claim s in
        rbind (if irq = UART0_IRQ then uartintr s1
               else if irq = VIRTIO0_IRQ then virtio_disk_intr dev s1
               else if irq \<noteq> 0 then printf (ascii ''unexpected interrupt irq=%d'' @ [10]) [VInt (word_of_int irq)] s1
               else Ok s1) (\<lambda>s2.
        Ok (1, if irq \<noteq> 0 then plic_complete irq s2 else s2))
      else if scause (my_csr s) = 0x8000000000000005
      then rbind (clockintr s) (\<lambda>s1. Ok (2, s1))
      else Ok (0, s))"

section \<open>Traps\<close>

definition prepare_return :: "'a trapst_scheme \<Rightarrow> 'a trapst_scheme res" where
  "prepare_return s = with_proc s (\<lambda>p.
     let s1 = intr_off_s s;
         s2 = upd_csr (\<lambda>c. c\<lparr>stvec := TRAMPOLINE + (uservec_addr s1 - trampoline s1)\<rparr>) s1;
         s3 = tf_set TF_KERNEL_SATP (satp s2 (cpuid (mach s2))) p s2;
         s4 = tf_set TF_KERNEL_SP (kstack (procs s3 p) + PGSIZE) p s3;
         s5 = tf_set TF_KERNEL_TRAP (usertrap_addr s4) p s4;
         s6 = tf_set TF_KERNEL_HARTID (of_nat (tp (mach s5))) p s5
     in Ok (upd_csr (\<lambda>c. c\<lparr>spp := False, spie := True, sepc := tf_get TF_EPC p s6\<rparr>) s6))"

text \<open>What \<open>usertrap\<close> does behind the handling of the trap itself; \<open>which_dev\<close> is 2 for a timer interrupt. The result
  \<open>None\<close> means that the process has exited, otherwise it is the value for \<open>satp\<close>.\<close>

definition usertrap_end :: "('a trapst_scheme \<Rightarrow> 'a trapst_scheme) \<Rightarrow> nat \<Rightarrow> int \<Rightarrow> 'a trapst_scheme \<Rightarrow>
    (u64 option \<times> 'a trapst_scheme) res" where
  "usertrap_end swtch p which_dev s = rbind (killed p s) (\<lambda>(k, s1).
     if k \<noteq> 0 then rbind (kexit_zombie (- 1) s1) (\<lambda>s2. Ok (None, s2))
     else rbind (if which_dev = 2 then yield swtch s1 else Ok s1) (\<lambda>s2.
       rbind (prepare_return s2) (\<lambda>s3. Ok (Some (MAKE_SATP (pagetable (procs s3 p))), s3))))"

definition unexpected_trap :: "nat \<Rightarrow> 'a trapst_scheme \<Rightarrow> 'a trapst_scheme res" where
  "unexpected_trap p s =
     rbind (printf (ascii ''usertrap(): unexpected scause 0x%lx pid=%d'' @ [10])
              [VInt (scause (my_csr s)), VInt (word_of_int (pid (procs s p)))] s) (\<lambda>s1.
     rbind (printf (ascii ''            sepc=0x%lx stval=0x%lx'' @ [10])
              [VInt (sepc (my_csr s1)), VInt (stval (my_csr s1))] s1) (setkilled p))"

definition usertrap_syscall :: "('a trapst_scheme \<Rightarrow> 'a trapst_scheme) \<Rightarrow> 'a trapst_scheme env \<Rightarrow> nat \<Rightarrow> 'a trapst_scheme \<Rightarrow>
    (u64 option \<times> 'a trapst_scheme env \<times> 'a trapst_scheme) res" where
  "usertrap_syscall swtch env p s = rbind (killed p s) (\<lambda>(k, s1).
     if k \<noteq> 0 then rbind (kexit_zombie (- 1) s1) (\<lambda>s2. Ok (None, env, s2))
     else
       let s2 = tf_set TF_EPC (tf_get TF_EPC p s1 + 4) p s1;
           s3 = s2\<lparr>mach := intr_on (mach s2)\<rparr>
       in rbind (syscall env s3) (\<lambda>(back, env1, s4).
          if \<not> back then Ok (None, env1, s4)
          else rbind (usertrap_end swtch p 0 s4) (\<lambda>(r, s5). Ok (r, env1, s5))))"

definition usertrap :: "((nat \<times> u32) list \<Rightarrow> nat \<Rightarrow> u32) \<Rightarrow> ('a trapst_scheme \<Rightarrow> 'a trapst_scheme) \<Rightarrow> 'a trapst_scheme env \<Rightarrow>
    'a trapst_scheme \<Rightarrow> (u64 option \<times> 'a trapst_scheme env \<times> 'a trapst_scheme) res" where
  "usertrap dev swtch env s =
     (if spp (my_csr s) then Panic ''usertrap: not from user mode''
      else with_proc s (\<lambda>p.
        let s1 = upd_csr (\<lambda>c. c\<lparr>stvec := kernelvec_addr s\<rparr>) s;
            s2 = tf_set TF_EPC (sepc (my_csr s1)) p s1
        in if scause (my_csr s2) = 8 then usertrap_syscall swtch env p s2
           else rbind (devintr dev s2) (\<lambda>(which_dev, s3).
             rbind (if which_dev \<noteq> 0 then Ok s3
                    else if scause (my_csr s3) = 15 \<or> scause (my_csr s3) = 13
                    then rbind (vmfault (pagetable (procs s3 p)) (stval (my_csr s3)) s3) (\<lambda>(pa, s4).
                      if pa \<noteq> 0 then Ok s4 else unexpected_trap p s4)
                    else unexpected_trap p s3) (\<lambda>s5.
             rbind (usertrap_end swtch p which_dev s5) (\<lambda>(r, s6). Ok (r, env, s6))))))"

definition kerneltrap :: "((nat \<times> u32) list \<Rightarrow> nat \<Rightarrow> u32) \<Rightarrow> ('a trapst_scheme \<Rightarrow> 'a trapst_scheme) \<Rightarrow>
    'a trapst_scheme \<Rightarrow> 'a trapst_scheme res" where
  "kerneltrap dev swtch s =
     (let c = my_csr s in
      if \<not> spp c then Panic ''kerneltrap: not from supervisor mode''
      else if intr_get (mach s) then Panic ''kerneltrap: interrupts enabled''
      else rbind (devintr dev s) (\<lambda>(which_dev, s1).
        if which_dev = 0
        then rbind (printf (ascii ''scause=0x%lx sepc=0x%lx stval=0x%lx'' @ [10])
               [VInt (scause c), VInt (sepc (my_csr s1)), VInt (stval (my_csr s1))] s1) (\<lambda>_. Panic ''kerneltrap'')
        else rbind (if which_dev = 2 \<and> myproc s1 \<noteq> None then yield swtch s1 else Ok s1) (\<lambda>s2.
          Ok (upd_csr (\<lambda>x. x\<lparr>sepc := sepc c, spp := spp c, spie := spie c\<rparr>) (intr_off_s s2)))))"

section \<open>The first run of a process\<close>

text \<open>The result is the value for \<open>satp\<close> with which \<open>forkret\<close> jumps to \<open>userret\<close> in the trampoline.\<close>

definition forkret :: "'a trapst_scheme \<Rightarrow> (u64 \<times> 'a trapst_scheme) res" where
  "forkret s = with_proc s (\<lambda>p.
     rbind (krelease (ProcLock p) s) (\<lambda>s1.
     rbind (if forkret_first s1
            then rbind (fsinit (of_nat ROOTDEV) s1) (\<lambda>s2.
              rbind (kexec (ascii ''/init'') [ascii ''/init''] (s2\<lparr>forkret_first := False\<rparr>)) (\<lambda>(r, s3).
              if r = - 1 then Panic ''exec'' else Ok (tf_set TF_A0 (ret r) p s3)))
            else Ok s1) (\<lambda>s4.
     rbind (prepare_return s4) (\<lambda>s5. Ok (MAKE_SATP (pagetable (procs s5 p)), s5)))))"

end
