(* ===== verification/Boot.thy ===== *)
theory Boot
  imports Trap
begin

text \<open>
  Starting the machine: \<^verbatim>\<open>kernel/start.c\<close>, which runs in machine mode, and \<^verbatim>\<open>kernel/main.c\<close>. \<open>start\<close> works on the
  machine-mode registers of its hart. \<open>main_hart0\<close> and \<open>main_other\<close> are the two branches of \<open>main\<close> up to the call of
  \<open>scheduler\<close>.
\<close>

record mregs =
  mhartid :: u64
  mstatus :: u64
  mepc :: u64
  m_satp :: u64
  medeleg :: u64
  mideleg :: u64
  m_sie :: u64
  pmpaddr0 :: u64
  pmpcfg0 :: u64
  mie :: u64
  menvcfg :: u64
  mcounteren :: u64
  m_stimecmp :: u64
  m_time :: u64
  m_tp :: u64

definition MSTATUS_MPP_MASK :: u64 where "MSTATUS_MPP_MASK = push_bit 11 3"
definition MSTATUS_MPP_S :: u64 where "MSTATUS_MPP_S = push_bit 11 1"
definition SIE_SEIE :: u64 where "SIE_SEIE = push_bit 9 1"
definition SIE_STIE :: u64 where "SIE_STIE = push_bit 5 1"
definition MIE_STIE :: u64 where "MIE_STIE = push_bit 5 1"

definition timerinit :: "mregs \<Rightarrow> mregs" where
  "timerinit m = m\<lparr>mie := mie m OR MIE_STIE, menvcfg := menvcfg m OR push_bit 63 1, mcounteren := mcounteren m OR 2,
     m_stimecmp := m_time m + 1000000\<rparr>"

definition start :: "u64 \<Rightarrow> mregs \<Rightarrow> mregs" where
  "start main_addr m =
     (let m1 = m\<lparr>mstatus := (mstatus m AND NOT MSTATUS_MPP_MASK) OR MSTATUS_MPP_S, mepc := main_addr, m_satp := 0,
          medeleg := 0xffff, mideleg := 0xffff\<rparr>;
          m2 = m1\<lparr>m_sie := m_sie m1 OR SIE_SEIE OR SIE_STIE, pmpaddr0 := 0x3fffffffffffff, pmpcfg0 := 0xf\<rparr>;
          m3 = timerinit m2
      in m3\<lparr>m_tp := mhartid m3\<rparr>)"

record bootst = trapst +
  started :: bool

definition main_hart0 :: "((nat \<times> u32) list \<Rightarrow> nat \<Rightarrow> u32) \<Rightarrow> 'a bootst_scheme \<Rightarrow> 'a bootst_scheme res" where
  "main_hart0 dev s =
     rbind (printf [10] [] (printfinit (consoleinit s))) (\<lambda>s1.
     rbind (printf (ascii ''xv6 kernel is booting'' @ [10]) [] s1) (\<lambda>s2.
     rbind (printf [10] [] s2) (\<lambda>s3.
     rbind (kinit s3) (\<lambda>s4.
     rbind (kvminit s4) (\<lambda>s5.
     let s6 = plicinithart (plicinit (trapinithart (trapinit (procinit (kvminithart s5)))));
         s7 = fileinit (iinit (binit s6))
     in rbind (virtio_disk_init dev s7) (\<lambda>s8.
        rbind (userinit s8) (\<lambda>s9. Ok (s9\<lparr>started := True\<rparr>))))))))"

definition main_other :: "'a bootst_scheme \<Rightarrow> 'a bootst_scheme res" where
  "main_other s =
     (if \<not> started s then Blocked
      else rbind (printf (ascii ''hart %d starting'' @ [10]) [VInt (of_nat (cpuid (mach s)))] s) (\<lambda>s1.
        Ok (plicinithart (trapinithart (kvminithart s1)))))"

definition main :: "((nat \<times> u32) list \<Rightarrow> nat \<Rightarrow> u32) \<Rightarrow> 'a bootst_scheme \<Rightarrow> 'a bootst_scheme res" where
  "main dev s = (if cpuid (mach s) = 0 then main_hart0 dev s else main_other s)"

end
