(* ===== verification/Ulib.thy ===== *)
theory Ulib
  imports Cstring
begin

text \<open>
  The user library, \<^verbatim>\<open>user/ulib.c\<close>: its string and memory routines on byte-addressed memory, and \<open>gets\<close>, whose input is
  the list of the bytes that reading descriptor 0 returns one by one. A loop that runs until it finds a NUL has no
  result when there is none. Names that \<^verbatim>\<open>kernel/string.c\<close> uses too have the suffix \<open>_u\<close>.
\<close>

section \<open>The routines\<close>

partial_function (option) strcpy :: "mem \<Rightarrow> u64 \<Rightarrow> u64 \<Rightarrow> mem option" where
  "strcpy m s t = (if m t \<noteq> 0 then strcpy (m(s := m t)) (s + 1) (t + 1) else Some (m(s := m t)))"

partial_function (option) strcmp :: "mem \<Rightarrow> u64 \<Rightarrow> u64 \<Rightarrow> int option" where
  "strcmp m p q = (if m p \<noteq> 0 \<and> m p = m q then strcmp m (p + 1) (q + 1) else Some (uint (m p) - uint (m q)))"

partial_function (option) strchr :: "mem \<Rightarrow> u64 \<Rightarrow> u8 \<Rightarrow> u64 option" where
  "strchr m s c = (if m s = 0 then Some 0 else if m s = c then Some s else strchr m (s + 1) c)"

definition memset_u :: "mem \<Rightarrow> u64 \<Rightarrow> int \<Rightarrow> nat \<Rightarrow> mem" where
  "memset_u m dst c n = fold (\<lambda>i m. m(dst + of_nat i := word_of_int c)) [0..<n] m"

definition memmove_u :: "mem \<Rightarrow> u64 \<Rightarrow> u64 \<Rightarrow> int \<Rightarrow> mem" where
  "memmove_u m vdst vsrc n =
     (if vsrc > vdst then copy_fwd m vdst vsrc (nat n)
      else copy_bwd m (vdst + word_of_int n) (vsrc + word_of_int n) (nat n))"

fun memcmp_u :: "mem \<Rightarrow> u64 \<Rightarrow> u64 \<Rightarrow> nat \<Rightarrow> int" where
  "memcmp_u m p1 p2 0 = 0"
| "memcmp_u m p1 p2 (Suc n) =
     (if m p1 \<noteq> m p2 then uint (m p1) - uint (m p2) else memcmp_u m (p1 + 1) (p2 + 1) n)"

definition memcpy_u :: "mem \<Rightarrow> u64 \<Rightarrow> u64 \<Rightarrow> int \<Rightarrow> mem" where
  "memcpy_u m dst src n = memmove_u m dst src n"

text \<open>The loop of \<open>atoi\<close>, with the wrap-around of a 32-bit \<open>int\<close>.\<close>

fun atoi_loop :: "u32 \<Rightarrow> u8 list \<Rightarrow> u32" where
  "atoi_loop n [] = n"
| "atoi_loop n (c # s) = (if 0x30 \<le> c \<and> c \<le> 0x39 then atoi_loop (n * 10 + ucast c - 0x30) s else n)"

definition atoi :: "u8 list \<Rightarrow> int" where
  "atoi s = sint (atoi_loop 0 s)"

text \<open>\<open>left\<close> is \<open>max - 1 - i\<close>. The result is the content of \<open>buf\<close> before the NUL, and the input that is left.\<close>

fun gets_loop :: "nat \<Rightarrow> u8 list \<Rightarrow> u8 list \<times> u8 list" where
  "gets_loop 0 inp = ([], inp)"
| "gets_loop (Suc left) [] = ([], [])"
| "gets_loop (Suc left) (c # inp) =
     (if c = 0x0A \<or> c = 0x0D then ([c], inp)
      else let (buf, rest) = gets_loop left inp in (c # buf, rest))"

definition gets :: "nat \<Rightarrow> u8 list \<Rightarrow> u8 list \<times> u8 list" where
  "gets mx inp = gets_loop (mx - 1) inp"

section \<open>Properties\<close>

lemma strcmp_cstr:
  "cstr m p xs \<Longrightarrow> cstr m q ys \<Longrightarrow> \<exists>r. strcmp m p q = Some r \<and> (r = 0 \<longleftrightarrow> xs = ys)"
proof (induction xs arbitrary: p q ys)
  case Nil
  then show ?case by (cases ys) (auto simp: strcmp.simps [of m p q] uint_0_iff)
next
  case (Cons x xs)
  show ?case
  proof (cases "\<exists>zs. ys = x # zs")
    case True
    then obtain zs where "ys = x # zs" by blast
    then show ?thesis using Cons.IH [of "p + 1" "q + 1" zs] Cons.prems by (auto simp: strcmp.simps [of m p q])
  next
    case False
    then show ?thesis using Cons.prems by (cases ys) (auto simp: strcmp.simps [of m p q] word_uint_eq_iff)
  qed
qed

lemma gets_loop_split: "gets_loop left inp = (buf, rest) \<Longrightarrow> inp = buf @ rest \<and> length buf \<le> left"
  by (induction left inp arbitrary: buf rest rule: gets_loop.induct) (auto split: if_splits prod.splits)

text \<open>The user library's \<open>memmove\<close> and \<open>memcpy\<close>, whose loops run in other cases than the kernel's, compute the
  same memory as the kernel's \<open>memmove\<close>, for regions that may overlap.\<close>

lemma memmove_u_kernel:
  assumes "0 \<le> n" "unat src + nat n \<le> 2 ^ 64" "unat dst + nat n \<le> 2 ^ 64"
  shows "memmove_u m dst src n = memmove m dst src (nat n) \<and> memcpy_u m dst src n = memcpy m dst src (nat n)"
proof -
  let ?k = "nat n"
  have k: "?k \<le> 2 ^ 64" "(word_of_int n :: u64) = of_nat ?k" using assms by simp_all
  have src: "unat (src + of_nat i) = unat src + i" and dst: "unat (dst + of_nat i) = unat dst + i" if "i < ?k" for i
    using assms(2,3) that by (simp_all add: unat_add_of_nat)
  have ne: "src + of_nat i \<noteq> dst + of_nat j" if "i < ?k" "j < ?k" "unat src + i \<noteq> unat dst + j" for i j
    using src [OF that(1)] dst [OF that(2)] that(3) by metis
  have "memmove_u m dst src n = (\<lambda>a. if in_range dst ?k a then m (src + (a - dst)) else m a)"
  proof (cases "src > dst")
    case True
    then have "unat dst < unat src" by (simp add: word_less_nat_alt)
    then have "src + of_nat i \<noteq> dst + of_nat j" if "j < i" "i < ?k" for i j using that by (intro ne) simp_all
    then show ?thesis using True copy_fwd_eq [OF k(1)] by (simp add: memmove_u_def)
  next
    case False
    then have "unat src \<le> unat dst" by (simp add: word_less_nat_alt)
    then have "src + of_nat i \<noteq> dst + of_nat j" if "i < j" "j < ?k" for i j using that by (intro ne) simp_all
    then show ?thesis using False copy_bwd_eq [OF k(1)] k(2) by (simp add: memmove_u_def)
  qed
  then show ?thesis by (simp add: memcpy_u_def memcpy_def memmove_eq [OF assms(2,3)])
qed

end
