(* ===== verification/Grep.thy ===== *)
theory Grep
  imports Dirs
begin

text \<open>
  The pattern matcher and the line loop of \<^verbatim>\<open>user/grep.c\<close>. Patterns and lines are lists of bytes without NUL; reading
  behind the end gives the NUL. A file is given by the pieces that the successive calls of \<open>read\<close> return.
\<close>

definition CARET :: u8 where "CARET = 0x5E"
definition STAR :: u8 where "STAR = 0x2A"
definition DOLLAR :: u8 where "DOLLAR = 0x24"
definition PERIOD :: u8 where "PERIOD = 0x2E"
definition NL :: u8 where "NL = 0x0A"

section \<open>Matching\<close>

function matchhere :: "u8 list \<Rightarrow> u8 list \<Rightarrow> bool" and matchstar :: "u8 \<Rightarrow> u8 list \<Rightarrow> u8 list \<Rightarrow> bool" where
  "matchhere re tx =
     (if char_at re 0 = 0 then True
      else if char_at re 1 = STAR then matchstar (char_at re 0) (drop 2 re) tx
      else if char_at re 0 = DOLLAR \<and> char_at re 1 = 0 then char_at tx 0 = 0
      else if char_at tx 0 \<noteq> 0 \<and> (char_at re 0 = PERIOD \<or> char_at re 0 = char_at tx 0)
      then matchhere (drop 1 re) (drop 1 tx)
      else False)"
| "matchstar c re tx =
     (if matchhere re tx then True
      else if char_at tx 0 \<noteq> 0 \<and> (char_at tx 0 = c \<or> c = PERIOD) then matchstar c re (drop 1 tx)
      else False)"
  by pat_completeness auto
termination
  by (relation "measures [\<lambda>x. case x of Inl (re, tx) \<Rightarrow> length re | Inr (c, re, tx) \<Rightarrow> length re,
      \<lambda>x. case x of Inl (re, tx) \<Rightarrow> length tx | Inr (c, re, tx) \<Rightarrow> length tx, \<lambda>x. case x of Inl _ \<Rightarrow> 0 | Inr _ \<Rightarrow> 1]")
    (auto simp: char_at_def split: if_splits)

declare matchhere.simps [simp del] matchstar.simps [simp del]

text \<open>The loop of \<open>match\<close>.\<close>

function match_loop :: "u8 list \<Rightarrow> u8 list \<Rightarrow> bool" where
  "match_loop re tx = (if matchhere re tx then True else if char_at tx 0 \<noteq> 0 then match_loop re (drop 1 tx) else False)"
  by pat_completeness auto
termination
  by (relation "measure (\<lambda>(re, tx). length tx)") (auto simp: char_at_def split: if_splits)

declare match_loop.simps [simp del]

definition match :: "u8 list \<Rightarrow> u8 list \<Rightarrow> bool" where
  "match re tx = (if char_at re 0 = CARET then matchhere (drop 1 re) tx else match_loop re tx)"

section \<open>Lines\<close>

text \<open>The inner loop of \<open>grep\<close> on the bytes \<open>p\<close> up to the NUL: what it writes, and the bytes behind the last newline.
  \<open>strchr\<close> finds a newline only before the first NUL.\<close>

function grep_scan :: "u8 list \<Rightarrow> u8 list \<Rightarrow> u8 list \<times> u8 list" where
  "grep_scan pattern p =
     (if NL \<in> set (takeWhile (\<lambda>c. c \<noteq> 0) p)
      then
        let line = takeWhile (\<lambda>c. c \<noteq> NL) p; (out, rest) = grep_scan pattern (drop (length line + 1) p)
        in ((if match pattern line then line @ [NL] else []) @ out, rest)
      else ([], p))"
  by pat_completeness auto
termination
proof (relation "measure (\<lambda>(pattern, p). length p)")
  fix pattern p line out rest assume "NL \<in> set (takeWhile (\<lambda>c. c \<noteq> 0) p)"
  then have "p \<noteq> []" by auto
  then show "((pattern, drop (length line + 1) p), pattern, p) \<in> measure (\<lambda>(pattern, p). length p)" by simp
qed simp

declare grep_scan.simps [simp del]

text \<open>What \<open>read\<close> with the count \<open>k\<close> returns when the file delivers the given pieces: at most \<open>k\<close> bytes of the first one;
  the rest of it stays for the next call. After the last piece comes the end of the file.\<close>

fun read_some :: "nat \<Rightarrow> u8 list list \<Rightarrow> u8 list \<times> u8 list list" where
  "read_some k [] = ([], [])"
| "read_some k (piece # pieces) = (take k piece, if length piece \<le> k then pieces else drop k piece # pieces)"

lemma read_some_concat: "read_some k pieces = (x, pieces1) \<Longrightarrow> x \<noteq> [] \<Longrightarrow> concat pieces = x @ concat pieces1"
  by (cases pieces) (auto split: if_splits simp flip: append_assoc)

lemma read_some_shorter: "(x, pieces1) = read_some k pieces \<Longrightarrow> x \<noteq> [] \<Longrightarrow> length (concat pieces1) < length (concat pieces)"
  using read_some_concat [of k pieces x pieces1] by (simp del: length_concat)

definition BUF_SIZE :: nat where "BUF_SIZE = 1024"

text \<open>The outer loop: \<open>pend\<close> are the \<open>m\<close> bytes kept in \<open>buf\<close>. A read that returns no byte ends the loop: at the end of the
  file, and also when \<open>buf\<close> is full and the count is 0.\<close>

function grep_loop :: "u8 list \<Rightarrow> u8 list \<Rightarrow> u8 list list \<Rightarrow> u8 list" where
  "grep_loop pattern pend pieces =
     (case read_some (BUF_SIZE - length pend - 1) pieces of (x, pieces1) \<Rightarrow>
      if x = [] then []
      else case grep_scan pattern (pend @ x) of (out, rest) \<Rightarrow> out @ grep_loop pattern rest pieces1)"
  by pat_completeness auto
termination
proof (relation "measure (\<lambda>(pattern, pend, pieces). length (concat pieces))")
  fix pattern pend out rest :: "u8 list" and x pieces pieces1
  assume "(x, pieces1) = read_some (BUF_SIZE - length pend - 1) pieces" "x \<noteq> []"
  from read_some_shorter [OF this]
  show "((pattern, rest, pieces1), pattern, pend, pieces) \<in> measure (\<lambda>(pattern, pend, pieces). length (concat pieces))"
    by simp
qed simp

declare grep_loop.simps [simp del]

definition grep :: "u8 list \<Rightarrow> u8 list list \<Rightarrow> u8 list" where
  "grep pattern pieces = grep_loop pattern [] pieces"

section \<open>What the patterns mean\<close>

definition accepts :: "u8 \<Rightarrow> u8 \<Rightarrow> bool" where
  "accepts c x \<longleftrightarrow> c = PERIOD \<or> c = x"

text \<open>\<open>sees re tx\<close>: the pattern matches at the start of the text. \<open>c*\<close> stands for any number of accepted characters, a
  final \<open>$\<close> for the end of the text.\<close>

inductive sees :: "u8 list \<Rightarrow> u8 list \<Rightarrow> bool" where
  sees_done: "sees [] tx"
| sees_end: "sees [DOLLAR] []"
| sees_star: "\<forall>x \<in> set u. accepts c x \<Longrightarrow> sees re tx \<Longrightarrow> sees (c # STAR # re) (u @ tx)"
| sees_char: "accepts c x \<Longrightarrow> char_at re 0 \<noteq> STAR \<Longrightarrow> \<not> (c = DOLLAR \<and> re = []) \<Longrightarrow> sees re tx \<Longrightarrow> sees (c # re) (x # tx)"

inductive_cases sees_starE: "sees (c # STAR # re) tx"
inductive_cases sees_consE: "sees (c # re) tx"

lemma sees_star_iff: "sees (c # STAR # re) tx \<longleftrightarrow> (\<exists>u v. tx = u @ v \<and> (\<forall>x \<in> set u. accepts c x) \<and> sees re v)"
  by (auto elim!: sees_starE intro: sees_star simp: char_at_def)

lemma sees_star_step:
  "sees (c # STAR # re) tx \<longleftrightarrow> sees re tx \<or> (\<exists>x xs. tx = x # xs \<and> accepts c x \<and> sees (c # STAR # re) xs)"
proof
  assume "sees (c # STAR # re) tx"
  then obtain u v where uv: "tx = u @ v" "\<forall>x \<in> set u. accepts c x" "sees re v" by (auto simp: sees_star_iff)
  show "sees re tx \<or> (\<exists>x xs. tx = x # xs \<and> accepts c x \<and> sees (c # STAR # re) xs)"
  proof (cases u)
    case Nil
    then show ?thesis using uv by simp
  next
    case (Cons x u')
    then have "sees (c # STAR # re) (u' @ v)" using uv(2,3) by (intro sees_star) simp_all
    then show ?thesis using uv Cons by simp
  qed
next
  assume "sees re tx \<or> (\<exists>x xs. tx = x # xs \<and> accepts c x \<and> sees (c # STAR # re) xs)"
  then show "sees (c # STAR # re) tx"
  proof (elim disjE exE conjE)
    assume "sees re tx"
    then show ?thesis using sees_star [of "[]" c re tx] by simp
  next
    fix x xs assume h: "tx = x # xs" "accepts c x" "sees (c # STAR # re) xs"
    then obtain u v where "xs = u @ v" "\<forall>x \<in> set u. accepts c x" "sees re v" by (auto simp: sees_star_iff)
    then show ?thesis using sees_star [of "x # u" c re v] h by simp
  qed
qed

lemma sees_char_iff:
  assumes "char_at re 0 \<noteq> STAR" "\<not> (c = DOLLAR \<and> re = [])"
  shows "sees (c # re) tx \<longleftrightarrow> (\<exists>x xs. tx = x # xs \<and> accepts c x \<and> sees re xs)"
  using assms by (auto elim!: sees_consE intro: sees_char simp: char_at_def)

lemma sees_end_iff: "sees [DOLLAR] tx \<longleftrightarrow> tx = []"
  by (auto elim!: sees_consE intro: sees_end)

lemma char_at_simps [simp]: "char_at [] i = 0" "char_at (x # xs) 0 = x" "char_at (x # xs) (Suc i) = char_at xs i"
  by (simp_all add: char_at_def)

lemma match_sees:
  "0 \<notin> set re \<Longrightarrow> 0 \<notin> set tx \<Longrightarrow> matchhere re tx \<longleftrightarrow> sees re tx"
  "0 \<notin> set re' \<Longrightarrow> 0 \<notin> set tx' \<Longrightarrow> matchstar c re' tx' \<longleftrightarrow> sees (c # STAR # re') tx'"
proof (induction re tx and c re' tx' rule: matchhere_matchstar.induct)
  case (1 re tx)
  show ?case
  proof (cases re)
    case Nil
    then show ?thesis using matchhere.simps [of re tx] by (simp add: sees_done)
  next
    case (Cons c rest)
    then have c: "c \<noteq> 0" "0 \<notin> set rest" using 1(3) by auto
    show ?thesis
    proof (cases rest)
      case Nil
      then show ?thesis using Cons c 1(2-4) matchhere.simps [of re tx]
        by (cases tx) (auto simp: sees_end_iff sees_char_iff sees_done accepts_def STAR_def)
    next
      case (Cons d rest')
      note re = \<open>re = c # rest\<close> Cons
      show ?thesis
      proof (cases "d = STAR")
        case True
        then show ?thesis using re c 1(1) 1(3,4) matchhere.simps [of re tx] by simp
      next
        case False
        then show ?thesis using re c 1(2-4) matchhere.simps [of re tx]
          by (cases tx) (auto simp: sees_char_iff accepts_def)
      qed
    qed
  qed
next
  case (2 c re tx)
  show ?case
    using 2 matchstar.simps [of c re tx] sees_star_step [of c re tx] by (cases tx) (auto simp: accepts_def)
qed

lemma match_loop_sees:
  "0 \<notin> set re \<Longrightarrow> 0 \<notin> set tx \<Longrightarrow> match_loop re tx \<longleftrightarrow> (\<exists>pre post. tx = pre @ post \<and> sees re post)"
proof (induction tx)
  case Nil
  then show ?case by (simp add: match_loop.simps [of re "[]"] match_sees)
next
  case (Cons x xs)
  have "(\<exists>pre post. x # xs = pre @ post \<and> sees re post) \<longleftrightarrow> sees re (x # xs) \<or> (\<exists>pre post. xs = pre @ post \<and> sees re post)"
    by (metis append_Cons append_Nil append_eq_Cons_conv)
  then show ?case using Cons by (auto simp: match_loop.simps [of re "x # xs"] match_sees)
qed

text \<open>C38. \<open>match\<close> decides the meaning of patterns: a pattern that starts with \<open>^\<close> must match at the start of the line, any
  other one at some position of it, the empty end included. Both functions are total, so matching always ends.\<close>

theorem grep_match_spec:
  assumes "0 \<notin> set re" "0 \<notin> set tx"
  shows "match re tx \<longleftrightarrow>
    (case re of [] \<Rightarrow> True | c # rest \<Rightarrow> if c = CARET then sees rest tx else \<exists>pre post. tx = pre @ post \<and> sees re post)"
  using assms by (cases re) (auto simp: match_def match_loop_sees match_sees CARET_def intro: sees_done)

theorem grep_match_spec_witness:
  "match [0x61, STAR, DOLLAR] [0x62, 0x61, 0x61] \<longleftrightarrow> (\<exists>pre post. [0x62, 0x61, 0x61] = pre @ post \<and> sees [0x61, STAR, DOLLAR] post)"
  using grep_match_spec [of "[0x61, STAR, DOLLAR]" "[0x62, 0x61, 0x61]"] by (simp add: STAR_def DOLLAR_def CARET_def)

section \<open>What is printed\<close>

text \<open>The complete lines of a file and what follows the last newline.\<close>

fun file_lines :: "u8 list \<Rightarrow> u8 list \<Rightarrow> u8 list list" where
  "file_lines cur [] = []"
| "file_lines cur (c # cs) = (if c = NL then cur # file_lines [] cs else file_lines (cur @ [c]) cs)"

definition print_matching :: "u8 list \<Rightarrow> u8 list list \<Rightarrow> u8 list" where
  "print_matching pattern ls = concat (map (\<lambda>l. l @ [NL]) (filter (match pattern) ls))"

lemma file_lines_word: "NL \<notin> set w \<Longrightarrow> file_lines cur (w @ cs) = file_lines (cur @ w) cs"
  by (induction w arbitrary: cur) auto

lemma grep_scan_lines:
  assumes "0 \<notin> set p"
  shows "\<exists>rest. grep_scan pattern p = (print_matching pattern (file_lines [] p), rest) \<and> NL \<notin> set rest \<and> 0 \<notin> set rest \<and> length rest \<le> length p \<and>
    (\<forall>q. file_lines [] (p @ q) = file_lines [] p @ file_lines [] (rest @ q))"
  using assms
proof (induction pattern p rule: grep_scan.induct)
  case (1 pattern p)
  have tw: "takeWhile (\<lambda>c. c \<noteq> 0) p = p" using 1(2) by (auto simp: takeWhile_eq_all_conv)
  show ?case
  proof (cases "NL \<in> set p")
    case True
    let ?l = "takeWhile (\<lambda>c. c \<noteq> NL) p" and ?p = "drop (Suc (length (takeWhile (\<lambda>c. c \<noteq> NL) p))) p"
    obtain b where b: "p = ?l @ NL # b" using True by (metis (mono_tags, lifting) dropWhile_eq_Nil_conv hd_dropWhile
          list.collapse takeWhile_dropWhile_id)
    have l: "NL \<notin> set ?l" by (auto dest: set_takeWhileD)
    have e: "?p = b" by (subst (2) b) simp
    have "0 \<notin> set b" using 1(2) b by (metis in_set_conv_decomp append_Cons append_assoc)
    then obtain rest where r: "grep_scan pattern b = (print_matching pattern (file_lines [] b), rest)" "NL \<notin> set rest" "0 \<notin> set rest"
      "length rest \<le> length b" "\<forall>q. file_lines [] (b @ q) = file_lines [] b @ file_lines [] (rest @ q)"
      using 1(1) [of ?l] tw True e by auto
    have fl: "file_lines [] (p @ q) = ?l # file_lines [] (b @ q)" for q
      by (subst b) (simp add: file_lines_word [OF l])
    have "grep_scan pattern p = (print_matching pattern (?l # file_lines [] b), rest)"
      by (subst grep_scan.simps) (simp add: tw True e r(1) print_matching_def Let_def)
    moreover have "length b \<le> length p" by (subst b) simp
    ultimately show ?thesis using r(2-5) fl [of "[]"] fl by simp
  next
    case False
    have "grep_scan pattern p = ([], p)" by (subst grep_scan.simps) (simp add: tw False)
    then show ?thesis using False 1(2) file_lines_word [OF False, of "[]" "[]"] by (simp add: print_matching_def)
  qed
qed

lemma print_matching_append [simp]: "print_matching pattern (xs @ ys) = print_matching pattern xs @ print_matching pattern ys"
  by (simp add: print_matching_def)

lemma file_lines_length: "l \<in> set (file_lines cur p) \<Longrightarrow> length l < length cur + length p"
  by (induction cur p rule: file_lines.induct) (auto split: if_splits)

lemma file_lines_long: "BUF_SIZE - 1 \<le> length cur \<Longrightarrow> takeWhile (\<lambda>l. length l < BUF_SIZE - 1) (file_lines cur p) = []"
  by (induction cur p rule: file_lines.induct) auto

lemma grep_loop_lines:
  assumes "[] \<notin> set pieces" "0 \<notin> set (concat pieces)" "0 \<notin> set pend" "NL \<notin> set pend" "length pend < BUF_SIZE"
  shows "grep_loop pattern pend pieces =
    print_matching pattern (takeWhile (\<lambda>l. length l < BUF_SIZE - 1) (file_lines [] (pend @ concat pieces)))"
  using assms
proof (induction pattern pend pieces rule: grep_loop.induct)
  case (1 pattern pend pieces)
  obtain x pieces1 where x: "read_some (BUF_SIZE - length pend - 1) pieces = (x, pieces1)" by force
  note e = grep_loop.simps [of pattern pend pieces, unfolded x prod.case]
  show ?case
  proof (cases "x = []")
    case True
    then have "pieces = [] \<or> BUF_SIZE - 1 \<le> length pend"
      using x 1(2) by (cases pieces) (auto split: if_splits)
    then have "takeWhile (\<lambda>l. length l < BUF_SIZE - 1) (file_lines [] (pend @ concat pieces)) = []"
      using file_lines_word [OF 1(5), of "[]"] file_lines_long [of pend] by auto
    then show ?thesis using True by (simp add: e print_matching_def)
  next
    case False
    note c = read_some_concat [OF x False]
    have x1: "length (pend @ x) < BUF_SIZE" "[] \<notin> set pieces1" using x 1(2,6) by (cases pieces; auto split: if_splits)+
    obtain rest where r: "grep_scan pattern (pend @ x) = (print_matching pattern (file_lines [] (pend @ x)), rest)"
      "NL \<notin> set rest" "0 \<notin> set rest" "length rest \<le> length (pend @ x)"
      "\<forall>q. file_lines [] ((pend @ x) @ q) = file_lines [] (pend @ x) @ file_lines [] (rest @ q)"
      using grep_scan_lines [of "pend @ x" pattern] 1(3,4) c by auto
    have "\<forall>l \<in> set (file_lines [] (pend @ x)). length l < BUF_SIZE - 1"
      using file_lines_length [of _ "[]" "pend @ x"] x1(1) by fastforce
    then have "takeWhile (\<lambda>l. length l < BUF_SIZE - 1) (file_lines [] (pend @ concat pieces)) =
        file_lines [] (pend @ x) @ takeWhile (\<lambda>l. length l < BUF_SIZE - 1) (file_lines [] (rest @ concat pieces1))"
      using r(5) [rule_format, of "concat pieces1"] c by (simp add: takeWhile_append)
    moreover have "grep_loop pattern rest pieces1 =
        print_matching pattern (takeWhile (\<lambda>l. length l < BUF_SIZE - 1) (file_lines [] (rest @ concat pieces1)))"
      using 1(1) [OF x [symmetric] False r(1) [symmetric]] x1 r(2-4) 1(3) c by simp
    ultimately show ?thesis using False r(1) by (simp add: e)
  qed
qed

text \<open>C39. \<open>grep\<close> prints exactly the matching ones among the complete lines in front of the first line that does not fit its
  buffer, in order, however the input is cut into pieces by \<open>read\<close>. A line of \<open>BUF_SIZE - 1\<close> bytes or more fills
  the buffer and ends the program, so no later line is looked at; a last line without a newline is not printed, even
  when it matches. The input holds no NUL.\<close>

theorem grep_prints_matching_lines:
  assumes "[] \<notin> set pieces" "0 \<notin> set (concat pieces)"
  shows "grep pattern pieces =
    print_matching pattern (takeWhile (\<lambda>l. length l < BUF_SIZE - 1) (file_lines [] (concat pieces)))"
  using grep_loop_lines [OF assms, of "[]"] by (simp add: grep_def BUF_SIZE_def)

theorem grep_prints_matching_lines_witness:
  "grep [0x61] [[0x62, 0x61], [NL, 0x61]] = print_matching [0x61] [[0x62, 0x61]]"
  using grep_prints_matching_lines [of "[[0x62, 0x61], [NL, 0x61]]" "[0x61]"] by (simp add: NL_def BUF_SIZE_def)

end
