(* ===== verification/Sh.thy ===== *)
theory Sh
  imports Sysfile
begin

text \<open>
  The parser of the shell, \<^verbatim>\<open>user/sh.c\<close>. A command line is the list of its bytes; a pointer into it is a position, and
  \<open>es\<close> is its length, where the NUL stands. An argument is the pair of the positions \<open>argv[i]\<close> and \<open>eargv[i]\<close>.
  \<open>panic\<close> ends the child process that parses, with its message.
\<close>

section \<open>Tokens\<close>


definition whitespace :: "u8 list" where "whitespace = [0x20, 0x09, 0x0D, 0x0A, 0x0B]"

definition symbols :: "u8 list" where "symbols = [0x3C, 0x7C, 0x3E, 0x26, 0x3B, 0x28, 0x29]"



definition delim :: "u8 \<Rightarrow> bool" where
  "delim c \<longleftrightarrow> c \<in> set whitespace \<or> c \<in> set symbols"



definition word :: "u8 list \<Rightarrow> nat \<times> nat \<Rightarrow> bool" where
  "word buf t \<longleftrightarrow> fst t < snd t \<and> snd t \<le> length buf \<and> (\<forall>i. fst t \<le> i \<and> i < snd t \<longrightarrow> \<not> delim (buf ! i)) \<and>
     (snd t = length buf \<or> delim (buf ! snd t))"











section \<open>Commands\<close>

datatype cmd = EXEC "(nat \<times> nat) list" | REDIR cmd nat nat u32 nat | PIPE cmd cmd | LIST cmd cmd | BACK cmd












section \<open>Parsing ends and finds words\<close>

fun tokens :: "cmd \<Rightarrow> (nat \<times> nat) list" where
  "tokens (EXEC args) = args"
| "tokens (REDIR c q eq mode fd) = (q, eq) # tokens c"
| "tokens (PIPE l r) = tokens l @ tokens r"
| "tokens (LIST l r) = tokens l @ tokens r"
| "tokens (BACK c) = tokens c"

definition good :: "u8 list \<Rightarrow> nat \<Rightarrow> (cmd \<times> nat) res \<Rightarrow> bool" where
  "good buf ps r \<longleftrightarrow> r \<noteq> Blocked \<and> (\<forall>c s. r = Ok (c, s) \<longrightarrow> ps \<le> s \<and> (\<forall>t \<in> set (tokens c). word buf t))"

lemma good_simps [simp]: "good buf ps (Ok (c, s)) \<longleftrightarrow> ps \<le> s \<and> (\<forall>t \<in> set (tokens c). word buf t)" "good buf ps (Panic msg)"
  by (simp_all add: good_def)





















end
