(* ===== verification/Spec2Isabelle.thy ===== *)
theory Spec2Isabelle
  imports Cstring Boot Ulib Grep Sh
begin

text \<open>
  A model of the xv6 kernel, with the properties that make its parts correct.

  \<^bold>\<open>The program.\<close> The kernel under \<^verbatim>\<open>src/kernel\<close> runs on several harts. Spin locks protect its data; the page
  allocator hands out physical pages, in which page tables, pipes and user memory live; processes sleep and wake on
  channels and are scheduled on the harts. The file system is a tower: the disk driver, the buffer cache, the log,
  inodes, directories, path names, open files, system calls. Traps bring user programs, devices and the timer into
  this code.

  \<^bold>\<open>States and outcomes.\<close> The state is a record that every layer extends by its own variables (\<open>machine\<close> for the harts
  and spin locks, then \<open>kmem\<close>, \<open>ptable\<close>, \<open>vmstate\<close>, \<open>slstate\<close>, \<open>bstate\<close>, \<open>logst\<close>, \<open>fsst\<close>, \<open>uartst\<close>, \<open>consst\<close>, \<open>filest\<close>, \<open>tickst\<close>,
  \<open>vdisk\<close>, \<open>trapst\<close>, \<open>bootst\<close>); an operation of a layer is polymorphic in the layers above it. A kernel routine is a
  function to \<open>'a res\<close>: \<open>Ok\<close> with the result and the new state, \<open>Panic\<close> with the message, or \<open>Blocked\<close> when it
  would wait for another hart or process. \<open>rbind\<close> is sequencing. Unsigned C types are words of their width, \<open>int\<close> is an
  integer, physical memory is a function from 64-bit addresses to bytes, a C string handed over by value is the
  list of its bytes. Pointers to table entries (processes, inodes, buffers, files) are indices.

  \<^bold>\<open>Theories and sources.\<close>
  \<^item> \<open>Xv6_Prelude\<close>: outcomes, words, memory, \<^verbatim>\<open>param.h\<close>; \<open>Riscv\<close>: \<^verbatim>\<open>riscv.h\<close>, \<^verbatim>\<open>memlayout.h\<close>; \<open>Cstring\<close>: \<^verbatim>\<open>string.c\<close>.
  \<^item> \<open>Spinlock\<close>: \<^verbatim>\<open>spinlock.c\<close>; \<open>Kalloc\<close>: \<^verbatim>\<open>kalloc.c\<close>; \<open>Sleeplock\<close>: \<^verbatim>\<open>sleeplock.c\<close>.
  \<^item> \<open>Proc\<close>, \<open>Procmem\<close>, \<open>Procops\<close>: \<^verbatim>\<open>proc.c\<close> (sleep, wakeup, scheduling; page tables of processes, allocation; fork, exit, wait).
  \<^item> \<open>Vm\<close>: \<^verbatim>\<open>vm.c\<close>; \<open>Pagetable\<close> and \<open>Uvm\<close>: page tables as trees, and the proofs on mapping, unmapping and copying.
  \<^item> \<open>Ondisk\<close>: \<^verbatim>\<open>fs.h\<close>; \<open>Bio\<close>: \<^verbatim>\<open>bio.c\<close>; \<open>Log\<close>: \<^verbatim>\<open>log.c\<close>; \<open>Fs\<close> and \<open>Dirs\<close>: \<^verbatim>\<open>fs.c\<close>.
  \<^item> \<open>Uart\<close>: \<^verbatim>\<open>uart.c\<close>, \<^verbatim>\<open>printf.c\<close>; \<open>Console\<close>: \<^verbatim>\<open>console.c\<close>; \<open>Files\<close>: \<^verbatim>\<open>file.c\<close>, \<^verbatim>\<open>pipe.c\<close>; \<open>Exec\<close>: \<^verbatim>\<open>exec.c\<close>.
  \<^item> \<open>Sysproc\<close>: \<^verbatim>\<open>sysproc.c\<close> and the arguments of \<^verbatim>\<open>syscall.c\<close>; \<open>Sysfile\<close>: \<^verbatim>\<open>sysfile.c\<close>; \<open>Virtio\<close>: \<^verbatim>\<open>virtio_disk.c\<close>.
  \<^item> \<open>Trap\<close>: \<^verbatim>\<open>trap.c\<close>, \<^verbatim>\<open>plic.c\<close>, the dispatch of \<^verbatim>\<open>syscall.c\<close>; \<open>Boot\<close>: \<^verbatim>\<open>start.c\<close>, \<^verbatim>\<open>main.c\<close>.
  \<^item> \<open>Ulib\<close>: \<^verbatim>\<open>user/ulib.c\<close>; \<open>Grep\<close>: \<^verbatim>\<open>user/grep.c\<close>; \<open>Sh\<close>: the parser of \<^verbatim>\<open>user/sh.c\<close>.

  \<^bold>\<open>Interfaces.\<close> Three locales hold contracts and the lemmas that follow from them: \<open>page_pool\<close>, what a client may assume
  of the page allocator, interpreted on \<open>kalloc\<close> and \<open>kfree\<close>; \<open>block_cache\<close>, what the log assumes of the buffer
  cache, interpreted on \<open>bread\<close>, \<open>bwrite\<close>, \<open>brelse\<close>, \<open>bpin\<close> and \<open>bunpin\<close>; \<open>byte_ring\<close>, a ring buffer indexed by wrapping
  counters, interpreted on the buffer of the console and on that of a pipe.

  \<^bold>\<open>What is shown.\<close>
  \<^item> Locks: mutual exclusion on any number of harts, matched nesting of interrupt disabling, sleep locks.
  \<^item> Memory: the allocator refines a set of free pages, never hands out a page twice, and starts with all of RAM;
    mapping and unmapping change exactly the requested pages; bytes copied to user memory are read back; lazily
    allocated pages are zeroed.
  \<^item> Processes: no wakeup is lost in any interleaving of a sleeper and a waker; \<open>wakeup\<close>, \<open>kkill\<close>, \<open>reparent\<close>, \<open>allocproc\<close>
    change exactly what they should; a scheduler round runs each runnable process.
  \<^item> Storage: a written block is read back through the cache whatever is cached in between; after a crash at any
    disk write an operation has happened completely or not at all; recovery can itself be interrupted; in every
    interleaving of operations the log keeps the room \<open>begin_op\<close> has reserved, so an operation that has added fewer than
    \<open>MAXOPBLOCKS\<close> blocks does not find it full; \<open>ilock\<close> reads back the inode that \<open>iupdate\<close> stored; directory entries
    survive encoding and decoding; path names split as documented.
  \<^item> Devices: the console edits its line as the abstract line discipline; a pipe is a queue; a disk request gives back
    the descriptors it took; the digits of a printed number fit their buffer.
  \<^item> User code: the library's \<open>memmove\<close> agrees with the kernel's; the matcher of \<open>grep\<close> decides the meaning of its
    patterns, and \<open>grep\<close> prints exactly the complete matching lines in front of the first line that does not fit its
    buffer; the parser of the shell ends on every line and
    its arguments are exactly the words of the line.
  \<^item> Errors: the panics of \<open>kfree\<close>, and four places where the code can go wrong (\<open>kkill\<close> of pid 0, \<open>copyin\<close> above
    \<open>MAXVA\<close>, a full log, and a byte lost by \<open>piperead\<close> when the destination cannot be written).

  \<^bold>\<open>Bounds.\<close> Loops of the kernel recurse structurally or with a measure. A waiting loop takes the list of what the other
  threads do each time the process sleeps, and gives \<open>Blocked\<close> when it is used up: so the loops of the serial port, console, pipes, disk driver,
  \<open>sys_pause\<close>, \<open>kwait\<close>, \<open>acquiresleep_env\<close> and \<open>begin_op_env\<close>. \<open>acquiresleep\<close> and \<open>begin_op\<close>, which the layers above call, are
  these with the empty list: \<open>Blocked\<close> if they have to wait. The spin of \<open>acquire\<close> is \<open>Blocked\<close>; what
  several harts do to a lock is a step relation. \<open>free_chain\<close> makes at most \<open>NUM + 1\<close>
  rounds, which is enough for every chain. The searches of the buffer list stop after \<open>NBUF\<close> steps, the length of the
  list. The shell's parser recurses at most four levels per character of the line and once more, and is shown never to
  reach that bound. \<open>strlen\<close> is a partial function.

  \<^bold>\<open>Not modelled.\<close> The assembly files (\<^verbatim>\<open>entry.S\<close>, \<^verbatim>\<open>swtch.S\<close>, \<^verbatim>\<open>trampoline.S\<close>, \<^verbatim>\<open>kernelvec.S\<close>) have no C semantics; what they
  do is an argument of the routines around them. Devices are parameters: sequences of register values and, for the
  disk, the changes of the used ring. Of the user programs only the library's string routines, \<open>grep\<close> and
  the parser of the shell are modelled; the others run above the system-call interface, where the model ends. The test programs and the host
  program \<^verbatim>\<open>mkfs\<close> are not part of the system that runs.
\<close>

end
